(* ===== verification/Prelude.thy ===== *)
theory Prelude
  imports Complex_Main "HOL-Library.Word" "HOL-Library.Char_ord" "HOL-Library.List_Lexorder"
begin

text \<open>
  What the component theories share: the ways a C++ operation of the cache can end other than by
  returning (\<open>exn\<close>), the result type \<open>'a res\<close> with its sequencing combinators, the 32-bit
  accounting word of the server, and the generic lemmas on lists, options and words the component
  proofs rest on.
\<close>

section \<open>Errors as values\<close>

text \<open>
  \<open>EmptyRingException\<close> and \<open>TTransportException\<close> are C++ exceptions. \<open>AssertFailed\<close> is a failed
  \<open>assert\<close> (the Makefile does not define \<open>NDEBUG\<close>, so it aborts the process). \<open>OutOfRange\<close> is an
  access past the end of a \<open>std::vector\<close>, \<open>DivByZero\<close> an integer division by zero and
  \<open>InvalidIterator\<close> the use of an iterator whose element has been erased: undefined behaviour that
  the model never silently continues from. \<open>Diverges\<close> is a loop that never ends, \<open>Blocked\<close> a
  \<open>std::mutex::lock\<close> on a mutex nobody will release.
\<close>

datatype exn =
    EmptyRingException
  | TTransportException
  | AssertFailed
  | OutOfRange
  | DivByZero
  | InvalidIterator
  | Diverges
  | Blocked
  | UndefinedBehaviour
  | ExitFailure

type_synonym 'a res = "exn + 'a"

text \<open>\<open>uint32_t\<close>, and \<open>unsigned int\<close> where it has 32 bits.\<close>

type_synonym w32 = "32 word"

named_theorems res_simps \<open>equations that run the result combinators\<close>
named_theorems word_acct \<open>reading the 32-bit byte counter\<close>

definition bindE :: "'e + 'a \<Rightarrow> ('a \<Rightarrow> 'e + 'b) \<Rightarrow> 'e + 'b" where
  "bindE m f = (case m of Inl e \<Rightarrow> Inl e | Inr x \<Rightarrow> f x)"

definition guardE :: "'e \<Rightarrow> bool \<Rightarrow> 'e + unit" where
  "guardE e b = (if b then Inr () else Inl e)"

text \<open>A \<open>for\<close> loop over the elements of a container, stopped by the first error.\<close>

primrec foldE :: "('a \<Rightarrow> 's \<Rightarrow> 'e + 's) \<Rightarrow> 'a list \<Rightarrow> 's \<Rightarrow> 'e + 's" where
  "foldE f [] s = Inr s"
| "foldE f (x # xs) s = bindE (f x s) (foldE f xs)"

lemma bindE_simps [simp, res_simps]:
  "bindE (Inl e) f = Inl e"
  "bindE (Inr x) f = f x"
  by (simp_all add: bindE_def)

lemma guardE_simps [simp, res_simps]:
  "guardE e True = Inr ()"
  "guardE e False = Inl e"
  by (simp_all add: guardE_def)

lemma guardE_Inr_iff [simp]: "guardE e b = Inr u \<longleftrightarrow> b"
  by (simp add: guardE_def)

lemma bindE_Inr_iff: "bindE m f = Inr y \<longleftrightarrow> (\<exists>x. m = Inr x \<and> f x = Inr y)"
  by (cases m) auto

lemma bindE_InrE [elim?]:
  assumes "bindE m f = Inr y"
  obtains x where "m = Inr x" "f x = Inr y"
  using assms by (auto simp: bindE_Inr_iff)

lemma bindE_assoc: "bindE (bindE m f) g = bindE m (\<lambda>x. bindE (f x) g)"
  by (cases m) simp_all

lemma foldE_append: "foldE f (xs @ ys) s = bindE (foldE f xs s) (foldE f ys)"
  by (induction xs arbitrary: s) (auto simp: bindE_def split: sum.splits)

text \<open>The loop rule: what every iteration keeps, and that no iteration fails, the loop keeps.\<close>

lemma foldE_invariant:
  assumes "I s"
    and "\<And>x s. x \<in> set xs \<Longrightarrow> I s \<Longrightarrow> \<exists>s'. f x s = Inr s' \<and> I s'"
  shows "\<exists>s'. foldE f xs s = Inr s' \<and> I s'"
  using assms
proof (induction xs arbitrary: s)
  case Nil
  then show ?case by simp
next
  case (Cons x xs)
  from Cons.prems obtain s1 where "f x s = Inr s1" "I s1" by auto
  moreover from this(2) Cons.prems(2) have "\<exists>s'. foldE f xs s1 = Inr s' \<and> I s'"
    by (intro Cons.IH) auto
  ultimately show ?case by simp
qed

section \<open>Lists\<close>

lemma nth_list_update_if:
  "j < length xs \<Longrightarrow> xs[i := x] ! j = (if i = j then x else xs ! j)"
  by (simp add: nth_list_update)

lemma map_nth_update_other:
  assumes "u \<notin> set xs"
  shows "map (\<lambda>i. f (tab[u := r] ! i)) xs = map (\<lambda>i. f (tab ! i)) xs"
proof -
  have "tab[u := r] ! i = tab ! i" if "i \<in> set xs" for i
    using that assms by (metis nth_list_update_neq)
  then show ?thesis by simp
qed

lemma filter_neq_split:
  assumes "distinct (xs @ x # ys)"
  shows "filter (\<lambda>y. y \<noteq> x) (xs @ x # ys) = xs @ ys"
proof -
  from assms have "filter (\<lambda>y. y \<noteq> x) xs = xs" and "filter (\<lambda>y. y \<noteq> x) ys = ys"
    by (auto simp: filter_id_conv)
  then show ?thesis by simp
qed

lemma card_lt_exists_not:
  assumes "finite A" "card A < n"
  shows "\<exists>i<n. i \<notin> A"
proof (rule ccontr)
  assume "\<not> (\<exists>i<n. i \<notin> A)"
  then have "{..<n} \<subseteq> A" by auto
  with assms(1) have "card {..<n} \<le> card A" by (intro card_mono)
  with assms(2) show False by simp
qed

section \<open>Decimal numbers\<close>

text \<open>A number as \<open>Integer.toString\<close> and the format \<open>%d\<close> write it.\<close>

fun show_nat :: "nat \<Rightarrow> string" where
  "show_nat n = (if n < 10 then [char_of (48 + n)] else show_nat (n div 10) @ [char_of (48 + n mod 10)])"

declare show_nat.simps [simp del]

definition show_int :: "int \<Rightarrow> string" where
  "show_int i = (if i < 0 then ''-'' @ show_nat (nat (- i)) else show_nat (nat i))"

section \<open>The byte counter\<close>

text \<open>
  \<open>int totalKeyValueSize\<close> is only ever combined with \<open>size_t\<close> values and converted back to
  \<open>int\<close>: addition and subtraction modulo \<open>2 ^ 32\<close>, read as two's complement.
\<close>

lemma sint_of_nat_small [word_acct]:
  assumes "n < 2 ^ 31"
  shows "sint (of_nat n :: 32 word) = int n"
proof -
  have "sint (of_nat n :: 32 word) = signed_take_bit 31 (int n)"
    by (simp add: signed_of_nat)
  also have "\<dots> = int n"
    using assms by (intro signed_take_bit_int_eq_self) auto
  finally show ?thesis .
qed

lemma of_nat_add_sub_word [word_acct]:
  "n \<le> m \<Longrightarrow> (of_nat m :: 32 word) - of_nat n + of_nat k = of_nat (m - n + k)"
  by simp

end
