(* ===== verification/Std_Containers.thy ===== *)
theory Std_Containers
  imports Prelude
begin

text \<open>
  \<open>std::map\<close> and \<open>std::set\<close> as the program uses them: an association list (a list) in strictly
  increasing key order, so that iteration from \<open>begin()\<close> to \<open>end()\<close> is the list itself. The
  locale \<open>ordered_map\<close> is the interface the ring, the pending-difference table and the ping table
  rely on; it is interpreted on the operations below.
\<close>

section \<open>Operations\<close>

type_synonym ('k, 'v) smap = "('k \<times> 'v) list"

definition smap_keys :: "('k, 'v) smap \<Rightarrow> 'k list" where
  "smap_keys m = map fst m"

definition smap_ok :: "('k::linorder, 'v) smap \<Rightarrow> bool" where
  "smap_ok m = sorted_wrt (<) (smap_keys m)"

text \<open>\<open>find\<close>: the element with the key, or \<open>end()\<close>.\<close>

definition smap_find :: "('k, 'v) smap \<Rightarrow> 'k \<Rightarrow> 'v option" where
  "smap_find m k = map_of m k"

text \<open>\<open>m[k] = v\<close>.\<close>

fun smap_put :: "'k::linorder \<Rightarrow> 'v \<Rightarrow> ('k, 'v) smap \<Rightarrow> ('k, 'v) smap" where
  "smap_put k v [] = [(k, v)]"
| "smap_put k v ((k', v') # m) =
     (if k' < k then (k', v') # smap_put k v m
      else if k' = k then (k, v) # m
      else (k, v) # (k', v') # m)"

text \<open>\<open>f(m[k])\<close> on a mapped value that \<open>operator[]\<close> default-constructs when the key is absent.\<close>

definition smap_modify :: "'v \<Rightarrow> ('v \<Rightarrow> 'v) \<Rightarrow> 'k::linorder \<Rightarrow> ('k, 'v) smap \<Rightarrow> ('k, 'v) smap" where
  "smap_modify d f k m = smap_put k (f (case smap_find m k of None \<Rightarrow> d | Some v \<Rightarrow> v)) m"

definition smap_erase :: "'k \<Rightarrow> ('k, 'v) smap \<Rightarrow> ('k, 'v) smap" where
  "smap_erase k m = filter (\<lambda>e. fst e \<noteq> k) m"

text \<open>\<open>lower_bound\<close>: the first element whose key is not less than the argument.\<close>

fun smap_lower_bound :: "'k::linorder \<Rightarrow> ('k, 'v) smap \<Rightarrow> ('k \<times> 'v) option" where
  "smap_lower_bound k [] = None"
| "smap_lower_bound k (e # m) = (if fst e < k then smap_lower_bound k m else Some e)"

text \<open>\<open>std::set::insert\<close>.\<close>

fun sset_insert :: "'a::linorder \<Rightarrow> 'a list \<Rightarrow> 'a list" where
  "sset_insert x [] = [x]"
| "sset_insert x (y # ys) =
     (if y < x then y # sset_insert x ys else if y = x then y # ys else x # y # ys)"

section \<open>Their laws\<close>

lemma smap_ok_simps [simp]:
  "smap_ok []"
  "smap_ok (e # m) \<longleftrightarrow> (\<forall>k\<in>fst ` set m. fst e < k) \<and> smap_ok m"
  by (auto simp: smap_ok_def smap_keys_def)

lemma smap_find_simps [simp]:
  "smap_find [] k = None"
  "smap_find (e # m) k = (if fst e = k then Some (snd e) else smap_find m k)"
  by (auto simp: smap_find_def)

lemma smap_put_keys [simp]: "fst ` set (smap_put k v m) = insert k (fst ` set m)"
  by (induction k v m rule: smap_put.induct) auto

lemma smap_put_ok: "smap_ok m \<Longrightarrow> smap_ok (smap_put k v m)"
  by (induction k v m rule: smap_put.induct) force+

lemma smap_find_put:
  "smap_find (smap_put k v m) k' = (if k' = k then Some v else smap_find m k')"
  by (induction k v m rule: smap_put.induct) auto

lemma smap_find_None_iff: "smap_find m k = None \<longleftrightarrow> k \<notin> fst ` set m"
  by (simp add: smap_find_def map_of_eq_None_iff)

lemma smap_find_ok: "smap_ok m \<Longrightarrow> (k, v) \<in> set m \<Longrightarrow> smap_find m k = Some v"
  by (induction m) force+

lemma smap_find_in: "smap_find m k = Some v \<Longrightarrow> (k, v) \<in> set m"
  by (simp add: smap_find_def map_of_SomeD)

lemma smap_erase_ok: "smap_ok m \<Longrightarrow> smap_ok (smap_erase k m)"
  by (induction m) (auto simp: smap_erase_def)

lemma smap_find_erase:
  "smap_find (smap_erase k m) k' = (if k' = k then None else smap_find m k')"
  by (induction m) (auto simp: smap_erase_def)

lemma smap_erase_keys [simp]: "fst ` set (smap_erase k m) = fst ` set m - {k}"
  by (auto simp: smap_erase_def)

lemma smap_modify_ok: "smap_ok m \<Longrightarrow> smap_ok (smap_modify d f k m)"
  by (simp add: smap_modify_def smap_put_ok)

lemma smap_modify_keys [simp]: "fst ` set (smap_modify d f k m) = insert k (fst ` set m)"
  by (simp add: smap_modify_def)

lemma smap_find_modify:
  "smap_find (smap_modify d f k m) k' =
     (if k' = k then Some (f (case smap_find m k of None \<Rightarrow> d | Some v \<Rightarrow> v)) else smap_find m k')"
  by (simp add: smap_modify_def smap_find_put)

lemma smap_lower_bound_None:
  "smap_lower_bound k m = None \<longleftrightarrow> (\<forall>k'\<in>fst ` set m. k' < k)"
  by (induction m) auto

lemma smap_lower_bound_in: "smap_lower_bound k m = Some e \<Longrightarrow> e \<in> set m"
  by (induction m) (auto split: if_splits)

lemma smap_lower_bound_Some:
  assumes "smap_ok m"
  shows "smap_lower_bound k m = Some (k1, v) \<longleftrightarrow>
    smap_find m k1 = Some v \<and> k \<le> k1 \<and> (\<forall>k'\<in>fst ` set m. k \<le> k' \<longrightarrow> k1 \<le> k')"
  using assms
proof (induction m)
  case Nil
  then show ?case by simp
next
  case (Cons e m)
  show ?case
  proof (cases "fst e < k")
    case True
    with Cons show ?thesis by (auto simp: not_le)
  next
    case False
    have "fst e \<le> k'" if "k' \<in> fst ` set m" for k'
      using Cons.prems that by (auto intro: less_imp_le)
    with False Cons.prems show ?thesis
      by (cases e) (force simp: not_less dest: smap_find_in)
  qed
qed

lemma sset_insert_set [simp]: "set (sset_insert x xs) = insert x (set xs)"
  by (induction x xs rule: sset_insert.induct) auto

lemma sset_insert_idem [simp]: "sset_insert x (sset_insert x xs) = sset_insert x xs"
  by (induction x xs rule: sset_insert.induct) auto

lemma sset_insert_sorted: "sorted_wrt (<) xs \<Longrightarrow> sorted_wrt (<) (sset_insert x xs)"
  by (induction x xs rule: sset_insert.induct) auto

section \<open>The interface\<close>

text \<open>
  What the client components rely on: a representation invariant, lookup after each update, and
  the lower bound query of the ring.
\<close>

locale ordered_map =
  fixes find :: "'m \<Rightarrow> 'k::linorder \<Rightarrow> 'v option"
    and put :: "'k \<Rightarrow> 'v \<Rightarrow> 'm \<Rightarrow> 'm"
    and erase :: "'k \<Rightarrow> 'm \<Rightarrow> 'm"
    and lower_bound :: "'k \<Rightarrow> 'm \<Rightarrow> ('k \<times> 'v) option"
    and invar :: "'m \<Rightarrow> bool"
  assumes find_put: "invar m \<Longrightarrow> find (put k v m) k' = (if k' = k then Some v else find m k')"
    and find_erase: "invar m \<Longrightarrow> find (erase k m) k' = (if k' = k then None else find m k')"
    and put_invar: "invar m \<Longrightarrow> invar (put k v m)"
    and erase_invar: "invar m \<Longrightarrow> invar (erase k m)"
    and lower_bound_None: "invar m \<Longrightarrow> lower_bound k m = None \<longleftrightarrow> (\<forall>k'. find m k' \<noteq> None \<longrightarrow> k' < k)"
    and lower_bound_Some: "invar m \<Longrightarrow> lower_bound k m = Some (k1, v) \<longleftrightarrow>
      find m k1 = Some v \<and> k \<le> k1 \<and> (\<forall>k'. find m k' \<noteq> None \<longrightarrow> k \<le> k' \<longrightarrow> k1 \<le> k')"
begin

text \<open>An insertion past the answer, or short of the query, does not change a lower bound.\<close>

lemma lower_bound_put_other:
  assumes "invar m" "lower_bound k m = Some (k1, v1)" "k' < k \<or> k1 < k'"
  shows "lower_bound k (put k' v' m) = Some (k1, v1)"
  using assms by (auto simp: lower_bound_Some put_invar find_put)

text \<open>An insertion between the query and the answer becomes the answer.\<close>

lemma lower_bound_put_between:
  assumes "invar m" "lower_bound k m = Some (k1, v1)" "k \<le> k'" "k' \<le> k1"
  shows "lower_bound k (put k' v' m) = Some (k', v')"
  using assms by (auto simp: lower_bound_Some put_invar find_put intro: order_trans)

lemma lower_bound_put_last:
  assumes "invar m" "lower_bound k m = None"
  shows "lower_bound k (put k' v' m) = (if k' < k then None else Some (k', v'))"
  using assms by (auto simp: lower_bound_Some lower_bound_None put_invar find_put)

lemma lower_bound_erase_other:
  assumes "invar m" "lower_bound k m = Some (k1, v1)" "k' \<noteq> k1"
  shows "lower_bound k (erase k' m) = Some (k1, v1)"
  using assms by (auto simp: lower_bound_Some erase_invar find_erase)

end

interpretation std_map: ordered_map smap_find smap_put smap_erase smap_lower_bound smap_ok
proof unfold_locales
  fix m :: "('k::linorder, 'v) smap" and k k' k1 v
  assume ok: "smap_ok m"
  show "smap_find (smap_put k v m) k' = (if k' = k then Some v else smap_find m k')"
    by (rule smap_find_put)
  show "smap_find (smap_erase k m) k' = (if k' = k then None else smap_find m k')"
    by (rule smap_find_erase)
  show "smap_ok (smap_put k v m)" using ok by (rule smap_put_ok)
  show "smap_ok (smap_erase k m)" using ok by (rule smap_erase_ok)
  show "smap_lower_bound k m = None \<longleftrightarrow> (\<forall>k'. smap_find m k' \<noteq> None \<longrightarrow> k' < k)"
    by (auto simp: smap_lower_bound_None smap_find_None_iff)
  show "smap_lower_bound k m = Some (k1, v) \<longleftrightarrow>
      smap_find m k1 = Some v \<and> k \<le> k1 \<and> (\<forall>k'. smap_find m k' \<noteq> None \<longrightarrow> k \<le> k' \<longrightarrow> k1 \<le> k')"
    using ok by (auto simp: smap_lower_bound_Some smap_find_None_iff)
qed

end
