(* ===== verification/Cache_Types.thy ===== *)
theory Cache_Types
  imports Std_Containers
begin

text \<open>
  The structs of \<open>prototype/cache.thrift\<close>. The Thrift compiler turns each into a C++ class whose
  default constructor zeroes the base-type and enum fields and whose \<open>operator ==\<close> compares every
  field (\<open>generate_struct_definition\<close> in \<open>t_cpp_generator.cc\<close>), so HOL equality on these types is
  the C++ equality and \<open>STATUS_0\<close> is the value of a \<open>Status\<close> nobody has assigned. \<open>Server\<close> is
  ordered by \<open>(server, port)\<close>, which is what \<open>cmpServers\<close> (server.cpp) and \<open>ltstr\<close> (view.cpp)
  compare.
\<close>

section \<open>Servers and their order\<close>

datatype Server = Server (srv_server: string) (srv_port: int)

definition cmpServers :: "Server \<Rightarrow> Server \<Rightarrow> bool" where
  "cmpServers a b =
     (srv_server a < srv_server b \<or> srv_server a = srv_server b \<and> srv_port a < srv_port b)"

instantiation Server :: linorder
begin

definition less_Server :: "Server \<Rightarrow> Server \<Rightarrow> bool" where
  "less_Server a b = cmpServers a b"

definition less_eq_Server :: "Server \<Rightarrow> Server \<Rightarrow> bool" where
  "less_eq_Server a b = (cmpServers a b \<or> a = b)"

instance
proof
  fix x y z :: Server
  show "(x < y) = (x \<le> y \<and> \<not> y \<le> x)"
    by (auto simp: less_Server_def less_eq_Server_def cmpServers_def)
  show "x \<le> x" by (simp add: less_eq_Server_def)
  show "x \<le> y \<Longrightarrow> y \<le> z \<Longrightarrow> x \<le> z"
    by (auto simp: less_eq_Server_def cmpServers_def)
  show "x \<le> y \<Longrightarrow> y \<le> x \<Longrightarrow> x = y"
    by (auto simp: less_eq_Server_def cmpServers_def)
  show "x \<le> y \<or> y \<le> x"
    by (cases x; cases y) (auto simp: less_eq_Server_def cmpServers_def)
qed

end

section \<open>Requests and replies\<close>

datatype Status = STATUS_0 | OK | NO_KEY | WRONG_SERVER

record PutArgs =
  pa_key :: string
  pa_value :: string
  pa_viewNum :: int

record GetArgs =
  ga_key :: string
  ga_viewNum :: int

record PutReply =
  pr_status :: Status

record GetReply =
  gr_status :: Status
  gr_value :: string

text \<open>\<open>map<i32, list<Server>>\<close>: the ring, keyed by signed 32-bit positions.\<close>

type_synonym ring = "(int, Server list) smap"

record View =
  hashToServer :: ring

record GetServersReply =
  gs_view :: View
  gs_viewNum :: int

record GetStatisticsReply =
  numInsertions :: int
  numUpdates :: int
  numGoodGets :: int
  numFailedGets :: int
  dataSize :: int
  memoryOverhead :: int
  numEvictions :: int
  numPurges :: int

text \<open>\<open>std::pair<Server, long long>\<close> in the server, \<open>VersionEntry\<close> on the wire.\<close>

type_synonym version = "(Server \<times> int) list"

record VersionEntry =
  ve_server :: Server
  ve_version :: int

record Entry =
  en_key :: string
  en_value :: string
  en_version :: "VersionEntry list"

record AntiEntropyArgs =
  ae_entries :: "Entry list"
  ae_viewNum :: int

record AntiEntropyReply =
  ar_status :: Status
  ar_invalidatedEntries :: "string list"

section \<open>Default-constructed values\<close>

definition new_GetServersReply :: GetServersReply where
  "new_GetServersReply = \<lparr>gs_view = \<lparr>hashToServer = []\<rparr>, gs_viewNum = 0\<rparr>"

definition new_GetStatisticsReply :: GetStatisticsReply where
  "new_GetStatisticsReply =
     \<lparr>numInsertions = 0, numUpdates = 0, numGoodGets = 0, numFailedGets = 0,
      dataSize = 0, memoryOverhead = 0, numEvictions = 0, numPurges = 0\<rparr>"

definition new_GetReply :: GetReply where
  "new_GetReply = \<lparr>gr_status = STATUS_0, gr_value = []\<rparr>"

definition new_PutReply :: PutReply where
  "new_PutReply = \<lparr>pr_status = STATUS_0\<rparr>"

definition new_AntiEntropyReply :: AntiEntropyReply where
  "new_AntiEntropyReply = \<lparr>ar_status = STATUS_0, ar_invalidatedEntries = []\<rparr>"

section \<open>Version vectors on the wire\<close>

text \<open>The two copy loops between \<open>VersionEntry\<close> and \<open>std::pair\<close>.\<close>

definition version_of_entry :: "VersionEntry list \<Rightarrow> version" where
  "version_of_entry vs = map (\<lambda>e. (ve_server e, ve_version e)) vs"

definition entry_of_version :: "version \<Rightarrow> VersionEntry list" where
  "entry_of_version v = map (\<lambda>p. \<lparr>ve_server = fst p, ve_version = snd p\<rparr>) v"

lemma version_of_entry_of_version [simp]: "version_of_entry (entry_of_version v) = v"
  by (simp add: version_of_entry_def entry_of_version_def comp_def)

lemma entry_of_version_of_entry [simp]: "entry_of_version (version_of_entry es) = es"
  by (induction es) (simp_all add: version_of_entry_def entry_of_version_def)

end
