(* ===== verification/Consistent_Hashing.thy ===== *)
theory Consistent_Hashing
  imports Cache_Types
begin

unbundle bit_operations_syntax

text \<open>
  \<open>prototype/ConsistentHashing.h\<close>: the string hash and the successor query on the ring of server
  sites, used by the clients to route a request and by the servers to check that a request was
  routed correctly.
\<close>

section \<open>The hash\<close>

text \<open>
  \<open>(unsigned int) key[i]\<close>: \<open>char\<close> is signed on the supported platforms, so the byte is
  sign-extended to 32 bits.
\<close>

definition char_to_uint :: "char \<Rightarrow> 32 word" where
  "char_to_uint c = signed_take_bit 7 (of_nat (of_char c))"

text \<open>One iteration: exclusive or with the byte, then the shift-and-add multiplication.\<close>

definition hash_step :: "32 word \<Rightarrow> char \<Rightarrow> 32 word" where
  "hash_step r c =
     (let x = r XOR char_to_uint c in
      x + (push_bit 1 x + push_bit 4 x + push_bit 7 x + push_bit 8 x + push_bit 24 x))"

definition uhash :: "string \<Rightarrow> 32 word" where
  "uhash key = foldl hash_step 0 key"

text \<open>\<open>ir_hash\<close> returns the accumulator as a signed \<open>int\<close>.\<close>

definition ir_hash :: "string \<Rightarrow> int" where
  "ir_hash key = sint (uhash key)"

section \<open>The ring\<close>

definition getServer :: "int \<Rightarrow> View \<Rightarrow> Server list res" where
  "getServer h v =
     (case hashToServer v of
        [] \<Rightarrow> Inl EmptyRingException
      | first # _ \<Rightarrow>
          (case smap_lower_bound h (hashToServer v) of
             None \<Rightarrow> Inr (snd first)
           | Some it \<Rightarrow> Inr (snd it)))"

text \<open>
  The reference definition: a site owns the arc of positions that ends at it. Position \<open>k\<close> is the
  clockwise successor of \<open>h\<close> among the sites \<open>S\<close> when it is the least site at or after \<open>h\<close>, or,
  when no site is at or after \<open>h\<close>, the least site.
\<close>

definition clockwise_succ :: "int set \<Rightarrow> int \<Rightarrow> int \<Rightarrow> bool" where
  "clockwise_succ S h k \<longleftrightarrow> k \<in> S \<and>
     (if \<exists>k'\<in>S. h \<le> k' then h \<le> k \<and> (\<forall>k'\<in>S. h \<le> k' \<longrightarrow> k \<le> k')
      else \<forall>k'\<in>S. k \<le> k')"

lemma clockwise_succ_unique: "clockwise_succ S h k \<Longrightarrow> clockwise_succ S h k' \<Longrightarrow> k = k'"
  by (force simp: clockwise_succ_def split: if_splits)

section \<open>Lemmas on the hash\<close>

lemma hash_step_mult: "hash_step r c = (r XOR char_to_uint c) * 0x01000193"
proof -
  define x where "x = r XOR char_to_uint c"
  have "hash_step r c = x + (x * 2 + x * 16 + x * 128 + x * 256 + x * 16777216)"
    by (simp add: hash_step_def x_def [symmetric] push_bit_eq_mult)
  also have "\<dots> = x * 0x01000193" by (simp add: algebra_simps)
  finally show ?thesis by (simp add: x_def)
qed

lemma uhash_snoc: "uhash (key @ [c]) = hash_step (uhash key) c"
  by (simp add: uhash_def)

lemma ir_hash_range: "- (2 ^ 31) \<le> ir_hash key \<and> ir_hash key < 2 ^ 31"
  using sint_greater_eq [of "uhash key"] sint_less [of "uhash key"] by (simp add: ir_hash_def)

section \<open>Lemmas on the ring\<close>

lemma smap_ok_first_least:
  "smap_ok (e # m) \<Longrightarrow> k \<in> fst ` set (e # m) \<Longrightarrow> fst e \<le> k"
  by (auto intro: less_imp_le)

lemma getServer_empty [simp]: "hashToServer v = [] \<Longrightarrow> getServer h v = Inl EmptyRingException"
  by (simp add: getServer_def)

lemma getServer_lower_bound:
  "smap_lower_bound h (hashToServer v) = Some (k, ss) \<Longrightarrow> getServer h v = Inr ss"
  by (auto simp: getServer_def split: list.splits)

lemma getServer_wrap:
  "hashToServer v = e # m \<Longrightarrow> smap_lower_bound h (hashToServer v) = None \<Longrightarrow>
   getServer h v = Inr (snd e)"
  by (simp add: getServer_def)

lemma getServer_error_iff: "getServer h v = Inl e \<longleftrightarrow> hashToServer v = [] \<and> e = EmptyRingException"
  by (auto simp: getServer_def split: list.splits option.splits)

lemma getServer_in_ring:
  assumes "getServer h v = Inr ss"
  shows "\<exists>p. (p, ss) \<in> set (hashToServer v)"
proof (cases "smap_lower_bound h (hashToServer v)")
  case None
  with assms show ?thesis by (cases "hashToServer v") (auto simp: getServer_def split: if_splits)
next
  case (Some e)
  with assms have "snd e = ss" by (auto simp: getServer_def split: list.splits)
  with smap_lower_bound_in [OF Some] show ?thesis by (metis prod.collapse)
qed

lemma getServer_succ:
  assumes "smap_ok (hashToServer v)" "hashToServer v \<noteq> []"
  shows "\<exists>k ss. clockwise_succ (fst ` set (hashToServer v)) h k \<and>
    smap_find (hashToServer v) k = Some ss \<and> getServer h v = Inr ss"
proof (cases "smap_lower_bound h (hashToServer v)")
  case None
  from assms(2) obtain e m where em: "hashToServer v = e # m" by (cases "hashToServer v") auto
  from None have lt: "\<forall>k\<in>fst ` set (hashToServer v). k < h" by (simp add: smap_lower_bound_None)
  have "clockwise_succ (fst ` set (hashToServer v)) h (fst e)"
    using lt assms(1) em by (force simp: clockwise_succ_def intro: less_imp_le)
  then show ?thesis using em None by (auto simp: getServer_wrap intro!: exI [of _ "fst e"])
next
  case (Some p)
  obtain k ss where p: "p = (k, ss)" by (cases p)
  with Some assms(1) have f: "smap_find (hashToServer v) k = Some ss" "h \<le> k"
      "\<forall>k'\<in>fst ` set (hashToServer v). h \<le> k' \<longrightarrow> k \<le> k'"
    by (simp_all add: smap_lower_bound_Some)
  then have "k \<in> fst ` set (hashToServer v)" by (force dest: smap_find_in)
  with f have "clockwise_succ (fst ` set (hashToServer v)) h k"
    by (auto simp: clockwise_succ_def)
  with f Some p show ?thesis by (auto simp: getServer_lower_bound)
qed

lemma getServer_eq_succ:
  assumes "smap_ok (hashToServer v)" "clockwise_succ (fst ` set (hashToServer v)) h k"
    "smap_find (hashToServer v) k = Some ss"
  shows "getServer h v = Inr ss"
proof -
  from assms(2) have "hashToServer v \<noteq> []" by (auto simp: clockwise_succ_def)
  from getServer_succ [OF assms(1) this, of h] assms(2,3) show ?thesis
    by (auto dest: clockwise_succ_unique)
qed

lemma clockwise_succ_insert:
  "clockwise_succ (insert p S) h k \<Longrightarrow> k \<noteq> p \<Longrightarrow> clockwise_succ S h k"
  by (auto simp: clockwise_succ_def split: if_splits)

lemma clockwise_succ_remove:
  "clockwise_succ S h k \<Longrightarrow> k \<noteq> p \<Longrightarrow> clockwise_succ (S - {p}) h k"
  by (auto simp: clockwise_succ_def split: if_splits)

lemma getServer_put_site:
  assumes ok: "smap_ok (hashToServer v)" and ne: "hashToServer v \<noteq> []"
  shows "getServer h (v\<lparr>hashToServer := smap_put p ss (hashToServer v)\<rparr>) \<in> {Inr ss, getServer h v}"
proof -
  let ?m = "hashToServer v" and ?put = "v\<lparr>hashToServer := smap_put p ss (hashToServer v)\<rparr>"
  from getServer_succ [OF ok ne, of h] obtain k ts where
    k: "clockwise_succ (fst ` set ?m) h k" "smap_find ?m k = Some ts" "getServer h v = Inr ts" by blast
  have pok: "smap_ok (hashToServer ?put)" using ok by (simp add: smap_put_ok)
  have keys: "fst ` set (smap_put p ss ?m) = insert p (fst ` set ?m)" by (rule smap_put_keys)
  have "hashToServer ?put \<noteq> []" by (cases ?m) (auto split: if_splits)
  from getServer_succ [OF pok this, of h] keys obtain k' ts' where
    k': "clockwise_succ (insert p (fst ` set ?m)) h k'" "smap_find (smap_put p ss ?m) k' = Some ts'"
    "getServer h ?put = Inr ts'" by auto
  show ?thesis
  proof (cases "k' = p")
    case True
    with k' show ?thesis by (simp add: smap_find_put)
  next
    case False
    with k' k(1) have "k' = k" by (auto dest: clockwise_succ_insert clockwise_succ_unique)
    with k k' False show ?thesis by (simp add: smap_find_put)
  qed
qed

lemma getServer_erase_site:
  assumes ok: "smap_ok (hashToServer v)" and ne: "hashToServer v \<noteq> []"
    and np: "\<not> clockwise_succ (fst ` set (hashToServer v)) h p"
  shows "getServer h (v\<lparr>hashToServer := smap_erase p (hashToServer v)\<rparr>) = getServer h v"
proof -
  let ?m = "hashToServer v"
  from getServer_succ [OF ok ne, of h] obtain k ts where
    k: "clockwise_succ (fst ` set ?m) h k" "smap_find ?m k = Some ts" "getServer h v = Inr ts" by blast
  with np have kp: "k \<noteq> p" by auto
  have "clockwise_succ (fst ` set (smap_erase p ?m)) h k"
    using clockwise_succ_remove [OF k(1) kp] by simp
  with kp k(2) ok show ?thesis
    unfolding k(3) by (intro getServer_eq_succ) (auto simp: smap_find_erase smap_erase_ok)
qed

section \<open>What the ring promises\<close>

text \<open>
  C18. \<open>getServer\<close> is the clockwise successor on the ring: on a non-empty ring it never throws, and it
  returns exactly the servers of the least site at or after the hash, or of the least site overall
  when there is none.
\<close>

theorem getServer_is_successor:
  assumes "smap_ok (hashToServer v)" "hashToServer v \<noteq> []"
  shows "getServer h v = Inr ss \<longleftrightarrow>
    (\<exists>k. clockwise_succ (fst ` set (hashToServer v)) h k \<and> smap_find (hashToServer v) k = Some ss)"
proof
  assume "getServer h v = Inr ss"
  then show "\<exists>k. clockwise_succ (fst ` set (hashToServer v)) h k \<and> smap_find (hashToServer v) k = Some ss"
    using getServer_succ [OF assms, of h] by force
next
  assume "\<exists>k. clockwise_succ (fst ` set (hashToServer v)) h k \<and> smap_find (hashToServer v) k = Some ss"
  then show "getServer h v = Inr ss" using getServer_eq_succ [OF assms(1)] by blast
qed

theorem getServer_is_successor_witness:
  "getServer 5 \<lparr>hashToServer = [(-3, [Server ''a'' 1]), (4, [Server ''b'' 2])]\<rparr> = Inr [Server ''a'' 1]"
  using getServer_is_successor [of "\<lparr>hashToServer = [(-3, [Server ''a'' 1]), (4, [Server ''b'' 2])]\<rparr>" 5 "[Server ''a'' 1]"]
  by (auto simp: clockwise_succ_def intro!: exI [of _ "-3"])

text \<open>
  Consistent hashing: a new site takes over some positions and every other position keeps its
  servers; removing a site moves only the positions it was the successor of.
\<close>

theorem getServer_stable:
  assumes "smap_ok (hashToServer v)" "hashToServer v \<noteq> []"
  shows "getServer h (v\<lparr>hashToServer := smap_put p ss (hashToServer v)\<rparr>) \<in> {Inr ss, getServer h v} \<and>
    (clockwise_succ (fst ` set (hashToServer v)) h p \<or>
     getServer h (v\<lparr>hashToServer := smap_erase p (hashToServer v)\<rparr>) = getServer h v)"
  using getServer_put_site [OF assms] getServer_erase_site [OF assms] by blast

theorem getServer_stable_witness:
  "getServer 5 \<lparr>hashToServer = [(-3, [Server ''a'' 1]), (4, [Server ''b'' 2]), (7, [Server ''c'' 3])]\<rparr>
     \<in> {Inr [Server ''c'' 3], getServer 5 \<lparr>hashToServer = [(-3, [Server ''a'' 1]), (4, [Server ''b'' 2])]\<rparr>}"
  using getServer_stable [of "\<lparr>hashToServer = [(-3, [Server ''a'' 1]), (4, [Server ''b'' 2])]\<rparr>" 5 7 "[Server ''c'' 3]"]
  by simp

text \<open>
  The string hash is 32-bit FNV-1a multiplication: every byte is xored in sign-extended and the
  result multiplied by the FNV prime, wrapping around; it starts from 0, not from the FNV offset basis.
\<close>

theorem ir_hash_fnv:
  "ir_hash key = sint (foldl (\<lambda>r c. (r XOR char_to_uint c) * 0x01000193) 0 key)"
proof -
  have "uhash key = foldl (\<lambda>r c. (r XOR char_to_uint c) * 0x01000193) 0 key"
    unfolding uhash_def by (rule foldl_cong) (simp_all add: hash_step_mult)
  then show ?thesis by (simp add: ir_hash_def)
qed

end
