(* ===== verification/Version_Vector.thy ===== *)
theory Version_Vector
  imports Cache_Types
begin

text \<open>
  The version vectors of \<open>prototype/server.cpp\<close>: the dominance test \<open>atMost\<close>, the merge
  \<open>maximumVersion\<close> with its helper \<open>updateVersion\<close>, the increment a \<open>put\<close> makes, and the
  restriction \<open>adjustVersion\<close> applies after a view change. The locale \<open>version_order\<close> states what
  anti-entropy relies on when it compares two vectors.
\<close>

section \<open>Operations\<close>

text \<open>
  Two passes: no common server may be ahead in \<open>v1\<close>, and every server of \<open>v1\<close> must occur in
  \<open>v2\<close>.
\<close>

definition atMost :: "version \<Rightarrow> version \<Rightarrow> bool" where
  "atMost v1 v2 =
     (if list_ex (\<lambda>p. list_ex (\<lambda>q. fst p = fst q \<and> snd p > snd q) v2) v1 then False
      else list_all (\<lambda>p. list_ex (\<lambda>q. fst p = fst q) v2) v1)"

definition updateVersion :: "version \<Rightarrow> Server \<times> int \<Rightarrow> version" where
  "updateVersion v1 v2 =
     map (\<lambda>p. if fst v2 = fst p then (fst p, max (snd p) (snd v2)) else p) v1"

definition maximumVersion :: "version \<Rightarrow> version \<Rightarrow> version" where
  "maximumVersion v1 v2 = foldl updateVersion (foldl updateVersion [] v1) v2"

text \<open>The loop in \<open>put\<close>: increment the first entry of this server, or append \<open>(server, 1)\<close>.\<close>

fun bumpVersion :: "Server \<Rightarrow> version \<Rightarrow> version" where
  "bumpVersion s [] = [(s, 1)]"
| "bumpVersion s (p # v) = (if fst p = s then (fst p, snd p + 1) # v else p # bumpVersion s v)"

text \<open>The first loop of \<open>adjustVersion\<close>: keep the entries of the servers in charge.\<close>

definition restrictVersion :: "Server list \<Rightarrow> version \<Rightarrow> version" where
  "restrictVersion servers v = filter (\<lambda>p. fst p \<in> set servers) v"

section \<open>Well-formed vectors and their meaning\<close>

text \<open>
  A vector the servers build has one entry per server, with a positive counter; an absent server
  stands for zero.
\<close>

definition vv_ok :: "version \<Rightarrow> bool" where
  "vv_ok v = (distinct (map fst v) \<and> list_all (\<lambda>p. 0 < snd p) v)"

definition counter :: "version \<Rightarrow> Server \<Rightarrow> int" where
  "counter v s = (case map_of v s of None \<Rightarrow> 0 | Some n \<Rightarrow> n)"

lemma vv_ok_simps [simp]:
  "vv_ok []"
  "vv_ok (p # v) \<longleftrightarrow> fst p \<notin> fst ` set v \<and> 0 < snd p \<and> vv_ok v"
  by (auto simp: vv_ok_def)

lemma counter_nonneg: "vv_ok v \<Longrightarrow> 0 \<le> counter v s"
  by (induction v) (auto simp: counter_def)

lemma counter_zero_iff: "vv_ok v \<Longrightarrow> counter v s = 0 \<longleftrightarrow> s \<notin> fst ` set v"
  by (induction v) (auto simp: counter_def)

lemma counter_in: "vv_ok v \<Longrightarrow> (s, n) \<in> set v \<Longrightarrow> counter v s = n"
  by (induction v) (auto simp: counter_def split: option.splits, force+)

lemma counter_Cons: "counter (p # v) s = (if fst p = s then snd p else counter v s)"
  by (simp add: counter_def)

section \<open>Dominance\<close>

lemma atMost_alt:
  "atMost v1 v2 \<longleftrightarrow>
     (\<forall>p\<in>set v1. (\<forall>q\<in>set v2. fst p = fst q \<longrightarrow> snd p \<le> snd q) \<and> (\<exists>q\<in>set v2. fst p = fst q))"
  unfolding atMost_def list_ex_iff list_all_iff by (meson not_less)

lemma atMost_counter:
  assumes "vv_ok v1" "vv_ok v2"
  shows "atMost v1 v2 \<longleftrightarrow> (\<forall>s. counter v1 s \<le> counter v2 s)"
proof
  assume le: "atMost v1 v2"
  show "\<forall>s. counter v1 s \<le> counter v2 s"
  proof
    fix s
    show "counter v1 s \<le> counter v2 s"
    proof (cases "s \<in> fst ` set v1")
      case True
      then obtain n where n: "(s, n) \<in> set v1" by auto
      with le obtain m where m: "(s, m) \<in> set v2" "n \<le> m" by (force simp: atMost_alt)
      from n m(1) assms have "counter v1 s = n" "counter v2 s = m" by (simp_all add: counter_in)
      with m(2) show ?thesis by simp
    next
      case False
      with assms have "counter v1 s = 0" by (simp add: counter_zero_iff)
      with assms(2) show ?thesis by (simp add: counter_nonneg)
    qed
  qed
next
  assume le: "\<forall>s. counter v1 s \<le> counter v2 s"
  show "atMost v1 v2"
    unfolding atMost_alt
  proof (intro ballI conjI impI)
    fix p assume p: "p \<in> set v1"
    with assms(1) have cp: "counter v1 (fst p) = snd p" by (intro counter_in) auto
    { fix q assume "q \<in> set v2" "fst p = fst q"
      with assms(2) have "counter v2 (fst p) = snd q" by (intro counter_in) auto
      with le cp show "snd p \<le> snd q" by metis }
    from p assms(1) have "0 < snd p" by (auto simp: vv_ok_def list_all_iff)
    with le cp have "counter v2 (fst p) \<noteq> 0" by (metis leD)
    with assms(2) show "\<exists>q\<in>set v2. fst p = fst q" by (force simp: counter_zero_iff)
  qed
qed

text \<open>
  The contract of the comparison: a preorder on well-formed vectors. Two vectors are then equal in
  weight, strictly ordered one way or the other, or in conflict.
\<close>

locale version_order =
  fixes le :: "'v \<Rightarrow> 'v \<Rightarrow> bool" and ok :: "'v \<Rightarrow> bool"
  assumes le_refl: "ok v \<Longrightarrow> le v v"
    and le_trans: "ok u \<Longrightarrow> ok v \<Longrightarrow> ok w \<Longrightarrow> le u v \<Longrightarrow> le v w \<Longrightarrow> le u w"
begin

lemma below_both:
  assumes "ok u" "ok v" "ok w" "le u v" "\<not> le u w"
  shows "\<not> le v w"
  using assms le_trans by blast

lemma conflict_not_equal:
  assumes "ok u" "\<not> le u v"
  shows "u \<noteq> v"
  using assms le_refl by blast

end

interpretation vv: version_order atMost vv_ok
proof unfold_locales
  fix u v w
  show "vv_ok v \<Longrightarrow> atMost v v" by (simp add: atMost_counter)
  show "vv_ok u \<Longrightarrow> vv_ok v \<Longrightarrow> vv_ok w \<Longrightarrow> atMost u v \<Longrightarrow> atMost v w \<Longrightarrow> atMost u w"
    by (auto simp: atMost_counter intro: order_trans)
qed

section \<open>Increment, restriction and merge\<close>

lemma bumpVersion_dom: "fst ` set (bumpVersion s v) = insert s (fst ` set v)"
  by (induction s v rule: bumpVersion.induct) auto

lemma bumpVersion_ok: "vv_ok v \<Longrightarrow> vv_ok (bumpVersion s v)"
  by (induction s v rule: bumpVersion.induct) (auto simp: bumpVersion_dom)

lemma counter_bump:
  "counter (bumpVersion s v) t = (if t = s then counter v s + 1 else counter v t)"
  by (induction s v rule: bumpVersion.induct) (auto simp: counter_Cons counter_def)

lemma restrictVersion_ok: "vv_ok v \<Longrightarrow> vv_ok (restrictVersion servers v)"
  by (induction v) (auto simp: restrictVersion_def)

lemma counter_restrict:
  "counter (restrictVersion servers v) s = (if s \<in> set servers then counter v s else 0)"
  by (induction v) (auto simp: restrictVersion_def counter_Cons, auto simp: counter_def)

lemma foldl_updateVersion_Nil [simp]: "foldl updateVersion [] v = []"
  by (induction v) (simp_all add: updateVersion_def)

lemma maximumVersion_Nil: "maximumVersion v1 v2 = []"
  by (simp add: maximumVersion_def)

lemma bump_dominates:
  assumes "vv_ok v"
  shows "atMost v (bumpVersion s v) \<and> \<not> atMost (bumpVersion s v) v"
proof -
  have "vv_ok (bumpVersion s v)" using assms by (rule bumpVersion_ok)
  with assms have "atMost v (bumpVersion s v)"
    by (auto simp: atMost_counter counter_bump)
  moreover have "\<not> counter (bumpVersion s v) s \<le> counter v s" by (simp add: counter_bump)
  ultimately show ?thesis
    using assms \<open>vv_ok (bumpVersion s v)\<close> by (auto simp: atMost_counter)
qed

section \<open>What version vectors promise\<close>

text \<open>
  \<open>atMost\<close> decides the pointwise order of the per-server counters, a missing counter counting as 0,
  whatever the order of the pairs; versions below each other in both directions have the same counters.
\<close>

theorem atMost_pointwise:
  assumes "vv_ok v" "vv_ok w"
  shows "(atMost v w \<longleftrightarrow> (\<forall>s. counter v s \<le> counter w s)) \<and>
    (atMost v w \<and> atMost w v \<longleftrightarrow> counter v = counter w)"
  using assms by (auto simp: atMost_counter fun_eq_iff intro: antisym)

theorem atMost_pointwise_witness:
  "atMost [(Server ''b'' 2, 1)] [(Server ''a'' 1, 4), (Server ''b'' 2, 3)] \<and>
   counter [(Server ''b'' 2, 1)] (Server ''a'' 1) \<le> counter [(Server ''a'' 1, 4), (Server ''b'' 2, 3)] (Server ''a'' 1)"
  using atMost_pointwise [of "[(Server ''b'' 2, 1)]" "[(Server ''a'' 1, 4), (Server ''b'' 2, 3)]"]
  by (simp add: Version_Vector.atMost_def)

text \<open>
  An update makes a version strictly newer than everything the old version had seen, so a replica
  that holds any of those accepts the update and never sends its own copy back over it.
\<close>

theorem bumpVersion_newer:
  assumes "vv_ok v" "vv_ok w" "atMost w v"
  shows "atMost w (bumpVersion s v) \<and> \<not> atMost (bumpVersion s v) w"
proof -
  have "vv_ok (bumpVersion s v)" using assms(1) by (rule bumpVersion_ok)
  moreover have "\<not> counter (bumpVersion s v) s \<le> counter w s"
    using assms by (auto simp: atMost_counter counter_bump not_le intro: le_less_trans)
  moreover have "\<forall>t. counter w t \<le> counter (bumpVersion s v) t"
    using assms by (auto simp: atMost_counter counter_bump intro: order_trans)
  ultimately show ?thesis using assms by (auto simp: atMost_counter)
qed

theorem bumpVersion_newer_witness:
  "atMost [(Server ''a'' 1, 1)] (bumpVersion (Server ''b'' 2) [(Server ''a'' 1, 1)]) \<and>
   \<not> atMost (bumpVersion (Server ''b'' 2) [(Server ''a'' 1, 1)]) [(Server ''a'' 1, 1)]"
  using bumpVersion_newer [of "[(Server ''a'' 1, 1)]" "[(Server ''a'' 1, 1)]"]
  by (simp add: Version_Vector.atMost_def)

end
