(* ===== verification/Hash_Table.thy ===== *)
theory Hash_Table
  imports Consistent_Hashing Version_Vector
begin

text \<open>
  The storage of a cache server (\<open>class KVStorageHandler\<close> in \<open>prototype/server.cpp\<close>): an
  open-addressing table with linear probing, whose live slots are threaded on a doubly linked list
  in order of last use. The record \<open>table\<close> holds the fields the storage operations work on; the
  whole handler state extends it (theory \<open>KV_Server\<close>), so the operations are typed over every
  extension of \<open>table\<close>. Positions and links are C++ \<open>int\<close>s, with \<open>-1\<close> for no position. Every
  \<open>assert\<close> and every index into the vector is a branch of the model.
\<close>

section \<open>Data\<close>

datatype State = EMPTY | ALIVE | DEAD

record Record =
  rstate :: State
  rkey :: string
  rvalue :: string
  rprev :: int
  rnext :: int
  rversion :: version

definition new_Record :: Record where
  "new_Record = \<lparr>rstate = EMPTY, rkey = [], rvalue = [], rprev = -1, rnext = -1, rversion = []\<rparr>"

definition LOAD_FACTOR1 :: rat where "LOAD_FACTOR1 = 1 / 4"
definition LOAD_FACTOR2 :: rat where "LOAD_FACTOR2 = 1 / 2"
definition GROWTH_FACTOR :: rat where "GROWTH_FACTOR = 2"
definition MEMORY_LIMIT :: int where "MEMORY_LIMIT = 2 ^ 30"

record table =
  hashTable :: "Record list"
  listHead :: int
  listTail :: int
  totalKeyValueSize :: "32 word"
  numEntries :: int
  numDeadEntries :: int
  statistics :: GetStatisticsReply
  self :: Server

text \<open>The storage part of the constructor: \<open>hashTable(10)\<close>, an empty list, zero counters.\<close>

definition init_table :: "Server \<Rightarrow> table" where
  "init_table s =
     \<lparr>hashTable = replicate 10 new_Record, listHead = -1, listTail = -1, totalKeyValueSize = 0,
      numEntries = 0, numDeadEntries = 0, statistics = new_GetStatisticsReply, self = s\<rparr>"

definition tsize :: "'a table_scheme \<Rightarrow> nat" where
  "tsize t = length (hashTable t)"

text \<open>\<open>hashTable[pos]\<close> read, and written through.\<close>

definition readRec :: "int \<Rightarrow> 'a table_scheme \<Rightarrow> Record res" where
  "readRec pos t =
     (if 0 \<le> pos \<and> nat pos < tsize t then Inr (hashTable t ! nat pos) else Inl OutOfRange)"

definition modRec ::
    "int \<Rightarrow> (Record \<Rightarrow> Record) \<Rightarrow> 'a table_scheme \<Rightarrow> 'a table_scheme res" where
  "modRec pos f t =
     bindE (readRec pos t) (\<lambda>r. Inr (t\<lparr>hashTable := (hashTable t)[nat pos := f r]\<rparr>))"

section \<open>Probing\<close>

text \<open>\<open>unsigned int hash\<close>: the server's own copy of the loop of \<open>ir_hash\<close>.\<close>

definition hash :: "string \<Rightarrow> 32 word" where
  "hash key = foldl hash_step 0 key"

text \<open>
  The \<open>for (;;)\<close> loops of \<open>getPosition\<close> and \<open>rehash\<close>: visit slots cyclically until one satisfies
  the stop condition. The table does not change on the way, so a loop that has visited
  \<open>length tab\<close> consecutive slots without stopping never stops: that is the bound, and running past
  it is \<open>Diverges\<close>.
\<close>

fun probe :: "nat \<Rightarrow> (Record \<Rightarrow> bool) \<Rightarrow> nat \<Rightarrow> Record list \<Rightarrow> nat res" where
  "probe 0 stop pos tab = Inl Diverges"
| "probe (Suc n) stop pos tab =
     (if stop (tab ! pos) then Inr pos
      else probe n stop (if length tab \<le> pos + 1 then 0 else pos + 1) tab)"

definition startPos :: "string \<Rightarrow> Record list \<Rightarrow> nat res" where
  "startPos key tab =
     (if tab = [] then Inl DivByZero else Inr (unat (hash key) mod length tab))"

definition getPosition :: "string \<Rightarrow> 'a table_scheme \<Rightarrow> int res" where
  "getPosition key t =
     bindE (startPos key (hashTable t)) (\<lambda>pos.
     bindE (probe (tsize t)
              (\<lambda>r. rstate r = EMPTY \<or> rstate r = ALIVE \<and> rkey r = key) pos (hashTable t)) (\<lambda>p.
     Inr (int p)))"

section \<open>The list of live slots\<close>

definition removeFromList :: "int \<Rightarrow> 'a table_scheme \<Rightarrow> 'a table_scheme res" where
  "removeFromList pos t =
     bindE (readRec pos t) (\<lambda>r.
     bindE (guardE AssertFailed (rstate r = ALIVE)) (\<lambda>_.
     bindE (if rprev r \<noteq> -1 then modRec (rprev r) (\<lambda>q. q\<lparr>rnext := rnext r\<rparr>) t
            else Inr (t\<lparr>listHead := rnext r\<rparr>)) (\<lambda>t1.
     bindE (readRec pos t1) (\<lambda>r1.
     if rnext r1 \<noteq> -1 then modRec (rnext r1) (\<lambda>q. q\<lparr>rprev := rprev r1\<rparr>) t1
     else Inr (t1\<lparr>listTail := rprev r1\<rparr>)))))"

definition addToFront :: "int \<Rightarrow> 'a table_scheme \<Rightarrow> 'a table_scheme res" where
  "addToFront pos t =
     bindE (readRec pos t) (\<lambda>r.
     bindE (guardE AssertFailed (rstate r = ALIVE)) (\<lambda>_.
     bindE (modRec pos (\<lambda>q. q\<lparr>rprev := -1, rnext := listHead t\<rparr>) t) (\<lambda>t1.
     bindE (if listHead t1 \<noteq> -1 then modRec (listHead t1) (\<lambda>q. q\<lparr>rprev := pos\<rparr>) t1
            else Inr t1) (\<lambda>t2.
     let t3 = t2\<lparr>listHead := pos\<rparr> in
     Inr (if listTail t3 = -1 then t3\<lparr>listTail := pos\<rparr> else t3)))))"

definition accessEntry :: "int \<Rightarrow> 'a table_scheme \<Rightarrow> 'a table_scheme res" where
  "accessEntry pos t =
     bindE (readRec pos t) (\<lambda>r.
     bindE (guardE AssertFailed (rstate r = ALIVE)) (\<lambda>_.
     bindE (removeFromList pos t) (addToFront pos)))"

section \<open>Adding and removing entries\<close>

definition addEntry ::
    "int \<Rightarrow> string \<Rightarrow> string \<Rightarrow> 'a table_scheme \<Rightarrow> 'a table_scheme res" where
  "addEntry pos key val t =
     bindE (readRec pos t) (\<lambda>r.
     bindE (guardE AssertFailed (rstate r = EMPTY)) (\<lambda>_.
     bindE (modRec pos (\<lambda>q. q\<lparr>rstate := ALIVE, rkey := key, rvalue := val,
                               rversion := [(self t, 1)]\<rparr>) t) (\<lambda>t1.
     bindE (addToFront pos
              (t1\<lparr>totalKeyValueSize :=
                   totalKeyValueSize t1 + of_nat (length key + length val)\<rparr>)) (\<lambda>t2.
     Inr (t2\<lparr>numEntries := numEntries t2 + 1\<rparr>)))))"

text \<open>The overload that installs the version a replica sent.\<close>

definition addEntryVersion ::
    "int \<Rightarrow> string \<Rightarrow> string \<Rightarrow> VersionEntry list \<Rightarrow> 'a table_scheme \<Rightarrow> 'a table_scheme res" where
  "addEntryVersion pos key val ver t =
     bindE (addEntry pos key val t) (\<lambda>t1.
     modRec pos (\<lambda>q. q\<lparr>rversion := version_of_entry ver\<rparr>) t1)"

text \<open>
  \<open>std::swap\<close> with a default-constructed \<open>Record\<close> resets every field of the slot, its links
  included, before the state becomes \<open>DEAD\<close>.
\<close>

definition removeEntry :: "int \<Rightarrow> 'a table_scheme \<Rightarrow> 'a table_scheme res" where
  "removeEntry pos t =
     bindE (removeFromList pos t) (\<lambda>t1.
     bindE (readRec pos t1) (\<lambda>r.
     bindE (modRec pos (\<lambda>_. new_Record\<lparr>rstate := DEAD\<rparr>) t1) (\<lambda>t2.
     Inr (t2\<lparr>totalKeyValueSize :=
               totalKeyValueSize t2 - of_nat (length (rkey r) + length (rvalue r)),
             numEntries := numEntries t2 - 1,
             numDeadEntries := numDeadEntries t2 + 1\<rparr>))))"

definition evictEntry :: "'a table_scheme \<Rightarrow> 'a table_scheme res" where
  "evictEntry t =
     bindE (guardE AssertFailed (listTail t \<noteq> -1)) (\<lambda>_.
     bindE (removeEntry (listTail t) t) (\<lambda>t1.
     Inr (t1\<lparr>statistics := (statistics t1)\<lparr>numEvictions := numEvictions (statistics t1) + 1\<rparr>\<rparr>)))"

definition getUsedMemory :: "'a table_scheme \<Rightarrow> int" where
  "getUsedMemory t = sint (totalKeyValueSize t)"

section \<open>Rehashing\<close>

text \<open>
  One iteration of the loop of \<open>rehash\<close> on the old table, the new table and the head and tail of
  the new list: find a free slot, swap key, value and version into it, append it to the new list.
\<close>

definition rehashStep ::
    "int \<Rightarrow> Record list \<times> Record list \<times> int \<times> int \<Rightarrow>
     (Record list \<times> Record list \<times> int \<times> int) res" where
  "rehashStep i st =
     (case st of (old, new, newHead, newTail) \<Rightarrow>
      (let r = old ! nat i in
       bindE (startPos (rkey r) new) (\<lambda>start.
       bindE (probe (length new) (\<lambda>q. rstate q = EMPTY) start new) (\<lambda>p.
       let q = new ! p;
           old1 = old[nat i := r\<lparr>rkey := rkey q, rvalue := rvalue q, rversion := rversion q\<rparr>];
           new1 = new[p := q\<lparr>rstate := ALIVE, rkey := rkey r, rvalue := rvalue r,
                             rversion := rversion r, rprev := newTail\<rparr>];
           new2 = (if newTail \<noteq> -1
                   then new1[nat newTail := (new1 ! nat newTail)\<lparr>rnext := int p\<rparr>] else new1);
           new3 = new2[p := (new2 ! p)\<lparr>rnext := -1\<rparr>]
       in Inr (old1, new3, (if newHead = -1 then int p else newHead), int p)))))"

text \<open>
  The loop follows \<open>next\<close> in the old table, whose links it never changes: more than
  \<open>length old\<close> iterations can only be a cycle, that is, a loop that never ends.
\<close>

fun rehashLoop ::
    "nat \<Rightarrow> int \<Rightarrow> Record list \<times> Record list \<times> int \<times> int \<Rightarrow>
     (Record list \<times> Record list \<times> int \<times> int) res" where
  "rehashLoop fuel i st =
     (if i = -1 then Inr st
      else if \<not> (0 \<le> i \<and> nat i < length (fst st)) then Inl OutOfRange
      else (case fuel of
              0 \<Rightarrow> Inl Diverges
            | Suc n \<Rightarrow> bindE (rehashStep i st) (\<lambda>st1. rehashLoop n (rnext (fst st1 ! nat i)) st1)))"

definition rehash :: "nat \<Rightarrow> 'a table_scheme \<Rightarrow> 'a table_scheme res" where
  "rehash newSize t =
     bindE (rehashLoop (tsize t) (listHead t)
              (hashTable t, replicate newSize new_Record, -1, -1)) (\<lambda>(old, new, newHead, newTail).
     Inr (t\<lparr>hashTable := new, listHead := newHead, listTail := newTail, numDeadEntries := 0\<rparr>))"

section \<open>Eviction and normalization\<close>

text \<open>
  Every eviction turns a live slot into a dead one, so the \<open>while\<close> loop of \<open>normalizeTable\<close> ends
  in every state, also in one that violates the invariant.
\<close>

definition aliveCount :: "'a table_scheme \<Rightarrow> nat" where
  "aliveCount t = length (filter (\<lambda>s. s = ALIVE) (map rstate (hashTable t)))"

lemma modRec_states:
  assumes "modRec pos f t = Inr t'" "\<And>r. rstate (f r) = rstate r"
  shows "map rstate (hashTable t') = map rstate (hashTable t)"
  using assms
  by (auto simp: modRec_def readRec_def bindE_Inr_iff tsize_def map_update split: if_splits)
     (metis list_update_id nth_map)

lemma removeFromList_states:
  assumes "removeFromList pos t = Inr t'"
  shows "map rstate (hashTable t') = map rstate (hashTable t)"
  using assms
  by (auto simp: removeFromList_def bindE_Inr_iff split: if_splits dest!: modRec_states)

lemma removeFromList_alive:
  assumes "removeFromList pos t = Inr t'"
  shows "0 \<le> pos \<and> nat pos < tsize t \<and> rstate (hashTable t ! nat pos) = ALIVE"
  using assms
  by (auto simp: removeFromList_def bindE_Inr_iff readRec_def split: if_splits)

lemma alive_update_less:
  assumes "p < length ss" "ss ! p = ALIVE"
  shows "length (filter (\<lambda>s. s = ALIVE) (ss[p := DEAD])) < length (filter (\<lambda>s. s = ALIVE) ss)"
  using assms
proof (induction ss arbitrary: p)
  case (Cons s ss)
  then show ?case by (cases p) auto
qed simp

lemma evictEntry_decreases:
  assumes "evictEntry t = Inr t'"
  shows "aliveCount t' < aliveCount t"
proof -
  from assms obtain t1 r where t1: "removeFromList (listTail t) t = Inr t1"
    and h: "hashTable t' = (hashTable t1)[nat (listTail t) := new_Record\<lparr>rstate := DEAD\<rparr>]"
    by (auto simp: evictEntry_def removeEntry_def modRec_def bindE_Inr_iff)
  from removeFromList_alive [OF t1] have p: "nat (listTail t) < length (map rstate (hashTable t))"
      "map rstate (hashTable t) ! nat (listTail t) = ALIVE"
    by (auto simp: tsize_def)
  from h removeFromList_states [OF t1] have
    "map rstate (hashTable t') = (map rstate (hashTable t)) [nat (listTail t) := DEAD]"
    by (simp add: map_update new_Record_def)
  with alive_update_less [OF p] show ?thesis by (simp add: aliveCount_def)
qed

function evictLoop :: "'a table_scheme \<Rightarrow> 'a table_scheme res" where
  "evictLoop t =
     (if getUsedMemory t > MEMORY_LIMIT
      then (case evictEntry t of Inl e \<Rightarrow> Inl e | Inr t1 \<Rightarrow> evictLoop t1)
      else Inr t)"
  by pat_completeness auto
termination
  by (relation "measure aliveCount") (auto dest: evictEntry_decreases)

declare evictLoop.simps [simp del] rehashLoop.simps [simp del]

definition normalizeTable :: "'a table_scheme \<Rightarrow> 'a table_scheme res" where
  "normalizeTable t =
     bindE (evictLoop t) (\<lambda>t1.
     bindE (if of_int (numEntries t1) > LOAD_FACTOR1 * of_nat (tsize t1)
            then rehash (nat \<lfloor>of_nat (tsize t1) * GROWTH_FACTOR\<rfloor>) t1 else Inr t1) (\<lambda>t2.
     if of_int (numEntries t2 + numDeadEntries t2) > LOAD_FACTOR2 * of_nat (tsize t2)
     then rehash (tsize t2) t2 else Inr t2))"

end
