(* ===== verification/Hash_Table_Links.thy ===== *)
theory Hash_Table_Links
  imports Hash_Table
begin

text \<open>
  The doubly linked list inside the table: segments of the list (\<open>dll\<close>), how unlinking a slot and
  pushing a slot to the front act on them, and that neither touches what the slots contain.
\<close>

section \<open>Segments\<close>

text \<open>
  \<open>dll tab p h xs l n\<close>: from the head \<open>h\<close>, whose predecessor is \<open>p\<close>, the slots \<open>xs\<close> are linked in
  both directions up to the last one \<open>l\<close>, whose successor is \<open>n\<close>.
\<close>

fun dll :: "Record list \<Rightarrow> int \<Rightarrow> int \<Rightarrow> nat list \<Rightarrow> int \<Rightarrow> int \<Rightarrow> bool" where
  "dll tab p h [] l n = (h = n \<and> l = p)"
| "dll tab p h (x # xs) l n =
     (h = int x \<and> x < length tab \<and> rprev (tab ! x) = p \<and> dll tab (int x) (rnext (tab ! x)) xs l n)"

named_theorems dll_intro \<open>updates that keep a segment\<close>

lemma dll_append:
  "dll tab p h (xs @ ys) l n \<longleftrightarrow> (\<exists>k m. dll tab p h xs k m \<and> dll tab k m ys l n)"
  by (induction xs arbitrary: p h) auto

lemma dll_range: "dll tab p h xs l n \<Longrightarrow> x \<in> set xs \<Longrightarrow> x < length tab"
  by (induction xs arbitrary: p h) auto

lemma dll_head: "dll tab p h xs l n \<Longrightarrow> h = (case xs of [] \<Rightarrow> n | x # _ \<Rightarrow> int x)"
  by (cases xs) auto

lemma dll_last: "dll tab p h xs l n \<Longrightarrow> l = (if xs = [] then p else int (last xs))"
  by (induction xs arbitrary: p h) auto

text \<open>Only the links of the slots of the segment matter.\<close>

lemma dll_frame:
  assumes "length tab' = length tab"
    and "\<And>x. x \<in> set xs \<Longrightarrow> rprev (tab' ! x) = rprev (tab ! x) \<and> rnext (tab' ! x) = rnext (tab ! x)"
  shows "dll tab' p h xs l n = dll tab p h xs l n"
  using assms(2) by (induction xs arbitrary: p h) (auto simp: assms(1))

lemma dll_update_other [dll_intro]:
  "u \<notin> set xs \<Longrightarrow> dll tab p h xs l n \<Longrightarrow> dll (tab[u := r]) p h xs l n"
  by (subst dll_frame [where tab = tab]) (simp, metis nth_list_update_neq, assumption)

lemma dll_update_same_links [dll_intro]:
  assumes "dll tab p h xs l n" "rprev r = rprev (tab ! u)" "rnext r = rnext (tab ! u)"
  shows "dll (tab[u := r]) p h xs l n"
proof -
  have "rprev (tab[u := r] ! x) = rprev (tab ! x) \<and> rnext (tab[u := r] ! x) = rnext (tab ! x)"
    if "x \<in> set xs" for x
    using assms(2,3) dll_range [OF assms(1) that] by (cases "u = x") auto
  then have "dll (tab[u := r]) p h xs l n = dll tab p h xs l n" by (intro dll_frame) auto
  with assms(1) show ?thesis by simp
qed

lemma dll_set_first_prev [dll_intro]:
  "dll tab p h (x # xs) l n \<Longrightarrow> x \<notin> set xs \<Longrightarrow> rprev r = p' \<Longrightarrow> rnext r = rnext (tab ! x) \<Longrightarrow>
   dll (tab[x := r]) p' h (x # xs) l n"
  by (auto intro: dll_update_other)

lemma dll_set_last_next [dll_intro]:
  "dll tab p h (xs @ [x]) l n \<Longrightarrow> x \<notin> set xs \<Longrightarrow> rprev r = rprev (tab ! x) \<Longrightarrow> rnext r = n' \<Longrightarrow>
   dll (tab[x := r]) p h (xs @ [x]) l n'"
  by (auto simp: dll_append intro!: dll_update_other)

section \<open>What the links do not touch\<close>

definition strip :: "Record \<Rightarrow> Record" where
  "strip r = r\<lparr>rprev := -1, rnext := -1\<rparr>"

definition content :: "Record list \<Rightarrow> Record list" where
  "content tab = map strip tab"

lemma strip_links [simp]:
  "strip (r\<lparr>rprev := p\<rparr>) = strip r"
  "strip (r\<lparr>rnext := n\<rparr>) = strip r"
  "strip (r\<lparr>rprev := p, rnext := n\<rparr>) = strip r"
  by (simp_all add: strip_def)

lemma strip_fields [simp]:
  "rstate (strip r) = rstate r"
  "rkey (strip r) = rkey r"
  "rvalue (strip r) = rvalue r"
  "rversion (strip r) = rversion r"
  by (simp_all add: strip_def)

lemma content_length: "content tab' = content tab \<Longrightarrow> length tab' = length tab"
  unfolding content_def by (rule map_eq_imp_length_eq)

lemma content_nth:
  assumes "content tab' = content tab" "i < length tab"
  shows "strip (tab' ! i) = strip (tab ! i)"
  using assms content_length [OF assms(1)] by (metis content_def nth_map)

lemma content_fields:
  assumes "content tab' = content tab" "i < length tab"
  shows "rstate (tab' ! i) = rstate (tab ! i)" "rkey (tab' ! i) = rkey (tab ! i)"
    "rvalue (tab' ! i) = rvalue (tab ! i)" "rversion (tab' ! i) = rversion (tab ! i)"
  using arg_cong [OF content_nth [OF assms], of rstate] arg_cong [OF content_nth [OF assms], of rkey]
    arg_cong [OF content_nth [OF assms], of rvalue] arg_cong [OF content_nth [OF assms], of rversion]
  by simp_all

lemma content_update:
  "i < length tab \<Longrightarrow> strip r = strip (tab ! i) \<Longrightarrow> content (tab[i := r]) = content tab"
  unfolding content_def by (simp add: map_update) (metis list_update_id nth_map)

section \<open>Unlinking\<close>

lemma dll_unlink:
  assumes d: "dll tab (-1) h (ys @ x # zs) l (-1)" and dist: "distinct (ys @ x # zs)"
  defines "tab1 \<equiv> (if ys = [] then tab
                    else tab[last ys := (tab ! last ys)\<lparr>rnext := rnext (tab ! x)\<rparr>])"
  defines "tab2 \<equiv> (if zs = [] then tab1
                    else tab1[hd zs := (tab1 ! hd zs)\<lparr>rprev := rprev (tab ! x)\<rparr>])"
  shows "dll tab2 (-1) (if ys = [] then rnext (tab ! x) else h) (ys @ zs)
      (if zs = [] then rprev (tab ! x) else l) (-1)"
    and "content tab2 = content tab"
proof -
  from d obtain k where y: "dll tab (-1) h ys k (int x)" and x: "x < length tab" "rprev (tab ! x) = k"
    and z: "dll tab (int x) (rnext (tab ! x)) zs l (-1)"
    by (auto simp: dll_append)
  define nx where "nx = rnext (tab ! x)"
  have y1: "dll tab1 (-1) (if ys = [] then nx else h) ys k nx"
  proof (cases ys rule: rev_cases)
    case Nil
    with y show ?thesis by simp
  next
    case (snoc ys' y')
    then show ?thesis using y dist
      by (simp add: tab1_def nx_def) (rule dll_set_last_next, auto)
  qed
  have z1: "dll tab1 (int x) nx zs l (-1)"
  proof (cases "ys = []")
    case False
    with dist have "last ys \<notin> set zs" by (auto dest: last_in_set)
    with z show ?thesis by (auto simp: tab1_def nx_def intro: dll_update_other)
  qed (use z in \<open>simp add: tab1_def nx_def\<close>)
  have z2: "dll tab2 k nx zs (if zs = [] then k else l) (-1)"
  proof (cases zs)
    case Nil
    with z show ?thesis by (simp add: nx_def)
  next
    case (Cons z' zs')
    then show ?thesis using z1 dist x(2)
      by (simp add: tab2_def) (rule dll_update_other, auto)
  qed
  have y2: "dll tab2 (-1) (if ys = [] then nx else h) ys k nx"
  proof (cases zs)
    case (Cons z' zs')
    with y1 dist show ?thesis by (auto simp: tab2_def intro: dll_update_other)
  qed (use y1 in \<open>simp add: tab2_def\<close>)
  from y2 z2 show "dll tab2 (-1) (if ys = [] then rnext (tab ! x) else h) (ys @ zs)
      (if zs = [] then rprev (tab ! x) else l) (-1)"
    unfolding dll_append nx_def x(2) by blast
  have c1: "content tab1 = content tab"
    using dll_range [OF y, of "last ys"] by (auto simp: tab1_def intro!: content_update)
  have "content tab2 = content tab1"
    using z content_length [OF c1] by (cases zs) (auto simp: tab2_def intro!: content_update)
  with c1 show "content tab2 = content tab" by simp
qed


lemma readRec_int [simp]:
  "x < tsize t \<Longrightarrow> readRec (int x) t = Inr (hashTable t ! x)"
  by (simp add: readRec_def)

lemma modRec_int [simp]:
  "x < tsize t \<Longrightarrow> modRec (int x) f t = Inr (t\<lparr>hashTable := (hashTable t)[x := f (hashTable t ! x)]\<rparr>)"
  by (simp add: modRec_def)

lemma int_neq_minus1 [simp]: "int x \<noteq> -1" "(- 1 = int x) = False"
  by auto

lemma tsize_update [simp]:
  "tsize (t\<lparr>hashTable := tab\<rparr>) = length tab"
  "tsize (t\<lparr>listHead := h\<rparr>) = tsize t"
  "tsize (t\<lparr>listTail := h\<rparr>) = tsize t"
  "tsize (t\<lparr>totalKeyValueSize := w\<rparr>) = tsize t"
  "tsize (t\<lparr>numEntries := n\<rparr>) = tsize t"
  "tsize (t\<lparr>numDeadEntries := n\<rparr>) = tsize t"
  "tsize (t\<lparr>statistics := st\<rparr>) = tsize t"
  by (simp_all add: tsize_def)

definition linked :: "'a table_scheme \<Rightarrow> nat list \<Rightarrow> bool" where
  "linked t xs = (dll (hashTable t) (-1) (listHead t) xs (listTail t) (-1) \<and> distinct xs)"

lemma linked_range: "linked t xs \<Longrightarrow> x \<in> set xs \<Longrightarrow> x < tsize t"
  by (auto simp: linked_def tsize_def dest: dll_range)

text \<open>\<open>removeFromList\<close> on a linked live slot: it succeeds, unlinks the slot and nothing else.\<close>

lemma removeFromList_linked:
  assumes l: "linked t (ys @ x # zs)" and alive: "rstate (hashTable t ! x) = ALIVE"
  shows "\<exists>tab h e. removeFromList (int x) t = Inr (t\<lparr>hashTable := tab, listHead := h, listTail := e\<rparr>)
    \<and> linked (t\<lparr>hashTable := tab, listHead := h, listTail := e\<rparr>) (ys @ zs)
    \<and> content tab = content (hashTable t)"
proof -
  let ?tab = "hashTable t"
  from l have d: "dll ?tab (-1) (listHead t) (ys @ x # zs) (listTail t) (-1)"
    and dist: "distinct (ys @ x # zs)" by (auto simp: linked_def)
  from d obtain k where y: "dll ?tab (-1) (listHead t) ys k (int x)" and k: "rprev (?tab ! x) = k"
    and z: "dll ?tab (int x) (rnext (?tab ! x)) zs (listTail t) (-1)"
    by (auto simp: dll_append)
  have pv: "rprev (?tab ! x) = (if ys = [] then -1 else int (last ys))"
    using dll_last [OF y] k by simp
  have nx: "rnext (?tab ! x) = (if zs = [] then -1 else int (hd zs))"
    using dll_head [OF z] by (cases zs) auto
  define tab1 where "tab1 = (if ys = [] then ?tab
    else ?tab[last ys := (?tab ! last ys)\<lparr>rnext := rnext (?tab ! x)\<rparr>])"
  define tab2 where "tab2 = (if zs = [] then tab1
    else tab1[hd zs := (tab1 ! hd zs)\<lparr>rprev := rprev (?tab ! x)\<rparr>])"
  define h where "h = (if ys = [] then rnext (?tab ! x) else listHead t)"
  define e where "e = (if zs = [] then rprev (?tab ! x) else listTail t)"
  have ranges: "x < tsize t" "ys \<noteq> [] \<Longrightarrow> last ys < tsize t" "zs \<noteq> [] \<Longrightarrow> hd zs < tsize t"
    by (auto intro: linked_range [OF l])
  have neq: "ys \<noteq> [] \<Longrightarrow> last ys \<noteq> x" using dist by auto
  have run: "removeFromList (int x) t = Inr (t\<lparr>hashTable := tab2, listHead := h, listTail := e\<rparr>)"
  proof (cases "ys = []"; cases "zs = []")
    assume "ys = []" "zs = []"
    then show ?thesis using ranges alive pv nx
      by (simp add: removeFromList_def h_def e_def tab1_def tab2_def)
  next
    assume "ys = []" "zs \<noteq> []"
    then show ?thesis using ranges alive pv nx
      by (simp add: removeFromList_def h_def e_def tab1_def tab2_def)
  next
    assume "ys \<noteq> []" "zs = []"
    then show ?thesis using ranges alive pv nx neq
      by (simp add: removeFromList_def h_def e_def tab1_def tab2_def tsize_def)
  next
    assume "ys \<noteq> []" "zs \<noteq> []"
    then show ?thesis using ranges alive pv nx neq
      by (simp add: removeFromList_def h_def e_def tab1_def tab2_def tsize_def)
  qed
  from dll_unlink [OF d dist] have "dll tab2 (-1) h (ys @ zs) e (-1)" "content tab2 = content ?tab"
    unfolding tab1_def tab2_def h_def e_def by auto
  with run dist show ?thesis by (auto simp: linked_def)
qed

text \<open>\<open>addToFront\<close> on a live slot outside the list.\<close>

lemma addToFront_linked:
  assumes l: "linked t xs" and x: "x < tsize t" "x \<notin> set xs" "rstate (hashTable t ! x) = ALIVE"
  shows "\<exists>tab e. addToFront (int x) t = Inr (t\<lparr>hashTable := tab, listHead := int x, listTail := e\<rparr>)
    \<and> linked (t\<lparr>hashTable := tab, listHead := int x, listTail := e\<rparr>) (x # xs)
    \<and> content tab = content (hashTable t)"
proof -
  let ?tab = "hashTable t"
  from l have d: "dll ?tab (-1) (listHead t) xs (listTail t) (-1)" and dist: "distinct xs"
    by (auto simp: linked_def)
  define tab1 where "tab1 = ?tab[x := (?tab ! x)\<lparr>rprev := -1, rnext := listHead t\<rparr>]"
  have c1: "content tab1 = content ?tab"
    unfolding tab1_def using x(1) by (intro content_update) (auto simp: tsize_def)
  have d1: "dll tab1 (-1) (listHead t) xs (listTail t) (-1)"
    unfolding tab1_def using x(2) d by (rule dll_update_other)
  show ?thesis
  proof (cases xs)
    case Nil
    with d have "listHead t = -1" "listTail t = -1" by auto
    then have "addToFront (int x) t = Inr (t\<lparr>hashTable := tab1, listHead := int x, listTail := int x\<rparr>)"
      using x by (simp add: addToFront_def tab1_def Let_def tsize_def)
    moreover have "dll tab1 (-1) (int x) [x] (int x) (-1)"
      using x(1) \<open>listHead t = -1\<close> by (simp add: tab1_def tsize_def)
    ultimately show ?thesis using c1 Nil by (auto simp: linked_def)
  next
    case (Cons y ys)
    with d dist have hy: "listHead t = int y" "y < tsize t" by (auto simp: tsize_def)
    have e: "listTail t \<noteq> -1" using dll_last [OF d] Cons by simp
    define tab2 where "tab2 = tab1[y := (tab1 ! y)\<lparr>rprev := int x\<rparr>]"
    have xy: "x \<noteq> y" using x(2) Cons by auto
    have "addToFront (int x) t = Inr (t\<lparr>hashTable := tab2, listHead := int x, listTail := listTail t\<rparr>)"
      using x hy e by (simp add: addToFront_def tab1_def tab2_def Let_def tsize_def)
    moreover have "dll tab2 (-1) (int x) (x # xs) (listTail t) (-1)"
    proof -
      have "dll tab2 (int x) (int y) xs (listTail t) (-1)"
        unfolding tab2_def Cons
        by (rule dll_set_first_prev [of _ "-1"]) (use d1 hy Cons dist in auto)
      moreover have "rprev (tab2 ! x) = -1" "rnext (tab2 ! x) = int y" "x < length tab2"
        using x(1) xy hy by (auto simp: tab1_def tab2_def tsize_def)
      ultimately show ?thesis by simp
    qed
    moreover have "content tab2 = content tab1"
      unfolding tab2_def using hy by (intro content_update) (auto simp: tab1_def tsize_def)
    ultimately show ?thesis using c1 dist x(2)
      by (intro exI [of _ tab2] exI [of _ "listTail t"]) (auto simp: linked_def)
  qed
qed

end
