(* ===== verification/Hash_Table_Inv.thy ===== *)
theory Hash_Table_Inv
  imports Hash_Table_Links "HOL-Library.Multiset"
begin

text \<open>
  The invariant of the storage and that the storage operations keep it: the list threads exactly
  the live slots, live keys are distinct and reachable by probing, the counters count, and a free
  slot is left, so that probing ends. \<open>entries\<close> is what the table stores, most recently used
  first.
\<close>

section \<open>Probing\<close>

lemma mod_pos_step:
  assumes "pos < n"
  shows "((if n \<le> pos + 1 then 0 else pos + 1) + j) mod n = (pos + Suc j) mod (n::nat)"
proof (cases "n \<le> pos + 1")
  case True
  with assms have "pos + Suc j = n + j" by simp
  then have "(pos + Suc j) mod n = j mod n" by (metis mod_add_self1)
  with True show ?thesis by simp
qed simp

lemma probe_first:
  assumes "pos < length tab" "j < n" "stop (tab ! ((pos + j) mod length tab))"
    and "\<forall>i<j. \<not> stop (tab ! ((pos + i) mod length tab))"
  shows "probe n stop pos tab = Inr ((pos + j) mod length tab)"
  using assms
proof (induction n arbitrary: pos j)
  case (Suc n)
  show ?case
  proof (cases j)
    case 0
    with Suc.prems show ?thesis by simp
  next
    case (Suc j')
    from Suc.prems(4) Suc have "\<not> stop (tab ! (pos mod length tab))" by (metis add_0_right zero_less_Suc)
    with Suc.prems(1) have ns: "\<not> stop (tab ! pos)" by simp
    define pos' where "pos' = (if length tab \<le> pos + 1 then 0 else pos + 1)"
    have step: "(pos' + i) mod length tab = (pos + Suc i) mod length tab" for i
      unfolding pos'_def using Suc.prems(1) by (rule mod_pos_step)
    have "probe n stop pos' tab = Inr ((pos' + j') mod length tab)"
    proof (rule Suc.IH)
      show "pos' < length tab" using Suc.prems(1) by (auto simp: pos'_def)
      show "j' < n" using Suc.prems(2) Suc by simp
      show "stop (tab ! ((pos' + j') mod length tab))" using Suc.prems(3) Suc by (simp add: step)
      show "\<forall>i<j'. \<not> stop (tab ! ((pos' + i) mod length tab))"
        using Suc.prems(4) Suc by (auto simp: step)
    qed
    moreover have "probe (Suc n) stop pos tab = probe n stop pos' tab" using ns by (simp add: pos'_def)
    ultimately show ?thesis using step [of j'] Suc by simp
  qed
qed simp

lemma probe_exhausted:
  assumes "pos < length tab" "\<forall>i<n. \<not> stop (tab ! ((pos + i) mod length tab))"
  shows "probe n stop pos tab = Inl Diverges"
  using assms
proof (induction n arbitrary: pos)
  case (Suc n)
  from Suc.prems(2) have "\<not> stop (tab ! (pos mod length tab))" by (metis add_0_right zero_less_Suc)
  with Suc.prems(1) have ns: "\<not> stop (tab ! pos)" by simp
  define pos' where "pos' = (if length tab \<le> pos + 1 then 0 else pos + 1)"
  have "(pos' + i) mod length tab = (pos + Suc i) mod length tab" for i
    unfolding pos'_def using Suc.prems(1) by (rule mod_pos_step)
  then have "probe n stop pos' tab = Inl Diverges"
    using Suc.prems by (intro Suc.IH) (auto simp: pos'_def)
  with ns show ?case by (simp add: pos'_def)
qed simp

text \<open>The \<open>j\<close>-th slot on the probe path of a key.\<close>

definition slot :: "string \<Rightarrow> nat \<Rightarrow> nat \<Rightarrow> nat" where
  "slot key j n = (unat (hash key) mod n + j) mod n"

lemma slot_less: "0 < n \<Longrightarrow> slot key j n < n"
  by (simp add: slot_def)

lemma slot_inj:
  assumes "slot key i n = slot key j n" "i < n" "j < n"
  shows "i = j"
proof -
  have "(unat (hash key) mod n + i) mod n = (unat (hash key) mod n + j) mod n"
    using assms(1) by (simp add: slot_def)
  then have "i mod n = j mod n" by (simp add: nat_mod_eq_iff)
  with assms(2,3) show ?thesis by simp
qed

lemma slot_surj:
  assumes "p < n"
  shows "\<exists>j<n. slot key j n = p"
proof -
  have "inj_on (\<lambda>j. slot key j n) {..<n}" by (auto intro: inj_onI slot_inj)
  moreover have "(\<lambda>j. slot key j n) ` {..<n} \<subseteq> {..<n}" using assms by (auto simp: slot_def)
  ultimately have "(\<lambda>j. slot key j n) ` {..<n} = {..<n}"
    by (intro endo_inj_surj) auto
  with assms show ?thesis by (metis imageE lessThan_iff)
qed

lemma probe_slot:
  assumes "tab \<noteq> []" "j < length tab" "stop (tab ! slot key j (length tab))"
    and "\<forall>i<j. \<not> stop (tab ! slot key i (length tab))"
  shows "probe (length tab) stop (unat (hash key) mod length tab) tab = Inr (slot key j (length tab))"
  using assms by (simp add: slot_def probe_first)

text \<open>When some slot satisfies the stop condition, probing ends at the first one on the path.\<close>

lemma probe_finds:
  assumes "p < length tab" "stop (tab ! p)"
  shows "\<exists>j<length tab. probe (length tab) stop (unat (hash key) mod length tab) tab
      = Inr (slot key j (length tab))
    \<and> stop (tab ! slot key j (length tab)) \<and> (\<forall>i<j. \<not> stop (tab ! slot key i (length tab)))"
proof -
  obtain j0 where j0: "j0 < length tab" "slot key j0 (length tab) = p"
    using slot_surj [OF assms(1)] by blast
  define j where "j = (LEAST i. stop (tab ! slot key i (length tab)))"
  have "stop (tab ! slot key j0 (length tab))" using j0 assms(2) by simp
  then have j: "stop (tab ! slot key j (length tab))" "j \<le> j0"
    "\<forall>i<j. \<not> stop (tab ! slot key i (length tab))"
    unfolding j_def by (auto intro: LeastI Least_le dest: not_less_Least)
  with j0(1) have "j < length tab" by simp
  moreover have "tab \<noteq> []" using assms(1) by auto
  ultimately show ?thesis using j probe_slot [of tab j stop key] by blast
qed

section \<open>The invariant\<close>

definition entry_at :: "Record list \<Rightarrow> nat \<Rightarrow> string \<times> string \<times> version" where
  "entry_at tab i = (rkey (tab ! i), rvalue (tab ! i), rversion (tab ! i))"

definition entries :: "Record list \<Rightarrow> nat list \<Rightarrow> (string \<times> string \<times> version) list" where
  "entries tab xs = map (entry_at tab) xs"

definition entry_bytes :: "string \<times> string \<times> version \<Rightarrow> nat" where
  "entry_bytes e = length (fst e) + length (fst (snd e))"

text \<open>
  The specification of the eviction loop on the stored entries, most recently used first: drop the
  last entry as long as the byte count, read as a signed 32-bit number, exceeds the limit.
\<close>

type_synonym lru = "(string \<times> string \<times> version) list"

definition lru_bytes :: "lru \<Rightarrow> nat" where
  "lru_bytes es = sum_list (map entry_bytes es)"

function lru_trim :: "lru \<Rightarrow> lru" where
  "lru_trim es =
     (if sint (of_nat (lru_bytes es) :: 32 word) > MEMORY_LIMIT then lru_trim (butlast es) else es)"
  by pat_completeness auto
termination
proof (relation "measure length")
  fix es :: lru
  assume "MEMORY_LIMIT < sint (of_nat (lru_bytes es) :: 32 word)"
  then have "es \<noteq> []" by (auto simp: lru_bytes_def MEMORY_LIMIT_def)
  then show "(butlast es, es) \<in> measure length" by simp
qed simp

declare lru_trim.simps [simp del]

text \<open>No free slot before \<open>i\<close> on the probe path of the key it holds.\<close>

definition chain_ok :: "Record list \<Rightarrow> nat \<Rightarrow> bool" where
  "chain_ok tab i =
     list_all (\<lambda>j. slot (rkey (tab ! i)) j (length tab) = i \<longrightarrow>
        list_all (\<lambda>k. rstate (tab ! slot (rkey (tab ! i)) k (length tab)) \<noteq> EMPTY) [0..<j])
       [0..<length tab]"

definition slots_ok :: "Record list \<Rightarrow> nat list \<Rightarrow> bool" where
  "slots_ok tab xs =
     (list_all (\<lambda>i. (rstate (tab ! i) = ALIVE) = (i \<in> set xs)) [0..<length tab] \<and>
      list_all (\<lambda>i. i < length tab) xs \<and>
      distinct (map (\<lambda>i. rkey (tab ! i)) xs) \<and>
      list_all (chain_ok tab) xs)"

definition deadCount :: "Record list \<Rightarrow> nat" where
  "deadCount tab = length (filter (\<lambda>r. rstate r = DEAD) tab)"

definition counts_ok :: "'a table_scheme \<Rightarrow> nat list \<Rightarrow> bool" where
  "counts_ok t xs =
     (totalKeyValueSize t = of_nat (lru_bytes (entries (hashTable t) xs)) \<and>
      numEntries t = int (length xs) \<and>
      numDeadEntries t = int (deadCount (hashTable t)))"

definition load_ok :: "'a table_scheme \<Rightarrow> bool" where
  "load_ok t = (10 \<le> tsize t \<and> 2 * (numEntries t + numDeadEntries t) \<le> int (tsize t) + 2)"

definition table_inv :: "'a table_scheme \<Rightarrow> nat list \<Rightarrow> bool" where
  "table_inv t xs = (linked t xs \<and> slots_ok (hashTable t) xs \<and> counts_ok t xs \<and> load_ok t)"


lemma chain_ok_iff:
  "chain_ok tab i \<longleftrightarrow>
     (\<forall>j<length tab. slot (rkey (tab ! i)) j (length tab) = i \<longrightarrow>
        (\<forall>k<j. rstate (tab ! slot (rkey (tab ! i)) k (length tab)) \<noteq> EMPTY))"
  by (auto simp: chain_ok_def list_all_iff)

lemma slots_ok_iff:
  "slots_ok tab xs \<longleftrightarrow>
     (\<forall>i<length tab. (rstate (tab ! i) = ALIVE) = (i \<in> set xs)) \<and>
     (\<forall>i\<in>set xs. i < length tab) \<and> distinct (map (\<lambda>i. rkey (tab ! i)) xs) \<and>
     (\<forall>i\<in>set xs. chain_ok tab i)"
  by (auto simp: slots_ok_def list_all_iff)

lemma slots_okD:
  assumes "slots_ok tab xs"
  shows "i < length tab \<Longrightarrow> rstate (tab ! i) = ALIVE \<longleftrightarrow> i \<in> set xs"
    and "i \<in> set xs \<Longrightarrow> i < length tab"
    and "i \<in> set xs \<Longrightarrow> rstate (tab ! i) = ALIVE"
    and "distinct xs"
    and "distinct (map (\<lambda>i. rkey (tab ! i)) xs)"
    and "i \<in> set xs \<Longrightarrow> j \<in> set xs \<Longrightarrow> rkey (tab ! i) = rkey (tab ! j) \<Longrightarrow> i = j"
    and "i \<in> set xs \<Longrightarrow> chain_ok tab i"
  using assms by (auto simp: slots_ok_iff distinct_map dest: inj_onD)

lemma slots_okI:
  assumes "\<And>i. i < length tab \<Longrightarrow> (rstate (tab ! i) = ALIVE) = (i \<in> set xs)"
    and "\<And>i. i \<in> set xs \<Longrightarrow> i < length tab"
    and "distinct (map (\<lambda>i. rkey (tab ! i)) xs)"
    and "\<And>i. i \<in> set xs \<Longrightarrow> chain_ok tab i"
  shows "slots_ok tab xs"
  using assms by (auto simp: slots_ok_iff)

lemma slots_ok_content:
  assumes "content tab' = content tab"
  shows "slots_ok tab' xs = slots_ok tab xs"
proof -
  have len: "length tab' = length tab" using assms by (rule content_length)
  have ck: "chain_ok tab' i = chain_ok tab i" if "i < length tab" for i
  proof -
    have "rstate (tab' ! slot k j (length tab)) = rstate (tab ! slot k j (length tab))" for k j
      using that by (intro content_fields [OF assms] slot_less) auto
    then show ?thesis using that by (simp add: chain_ok_iff len content_fields [OF assms])
  qed
  have dk: "map (\<lambda>i. rkey (tab' ! i)) xs = map (\<lambda>i. rkey (tab ! i)) xs" if "\<forall>i\<in>set xs. i < length tab"
    using that by (simp add: content_fields [OF assms])
  show ?thesis
  proof (cases "\<forall>i\<in>set xs. i < length tab")
    case True
    then show ?thesis unfolding slots_ok_iff len dk [OF True] using ck
      by (simp add: content_fields [OF assms])
  next
    case False
    then show ?thesis by (auto simp: slots_ok_iff len)
  qed
qed

lemma slots_ok_perm:
  assumes "mset xs' = mset xs"
  shows "slots_ok tab xs' = slots_ok tab xs"
proof -
  have "set xs' = set xs" using assms by (metis set_mset_mset)
  moreover have "distinct (map f xs') = distinct (map f xs)" for f :: "nat \<Rightarrow> string"
    using assms by (metis mset_eq_imp_distinct_iff mset_map)
  ultimately show ?thesis by (simp add: slots_ok_iff)
qed

lemma entries_content:
  assumes "content tab' = content tab" "\<forall>i\<in>set xs. i < length tab"
  shows "entries tab' xs = entries tab xs"
  using assms(2) by (simp add: entries_def entry_at_def content_fields [OF assms(1)])

lemma deadCount_content: "content tab' = content tab \<Longrightarrow> deadCount tab' = deadCount tab"
proof -
  assume "content tab' = content tab"
  then have "map rstate (content tab') = map rstate (content tab)" by simp
  then have "map rstate tab' = map rstate tab" by (simp add: content_def comp_def)
  moreover have "deadCount tb = length (filter (\<lambda>s. s = DEAD) (map rstate tb))" for tb
    by (simp add: deadCount_def filter_map comp_def)
  ultimately show "deadCount tab' = deadCount tab" by metis
qed

section \<open>Finding a slot\<close>

abbreviation stops_at :: "string \<Rightarrow> Record \<Rightarrow> bool" where
  "stops_at key r \<equiv> rstate r = EMPTY \<or> rstate r = ALIVE \<and> rkey r = key"

text \<open>A stored key is found in its own slot.\<close>

lemma getPosition_hit:
  assumes ok: "slots_ok (hashTable t) xs" and x: "x \<in> set xs" "rkey (hashTable t ! x) = key"
  shows "getPosition key t = Inr (int x)"
proof -
  let ?tab = "hashTable t"
  let ?n = "length ?tab"
  from slots_okD(2) [OF ok x(1)] have xn: "x < ?n" .
  then obtain j where j: "j < ?n" "slot key j ?n = x" using slot_surj by blast
  have "\<not> stops_at key (?tab ! slot key i ?n)" if "i < j" for i
  proof
    assume st: "stops_at key (?tab ! slot key i ?n)"
    have ni: "slot key i ?n < ?n" by (rule slot_less) (use xn in arith)
    from slots_okD(7) [OF ok x(1)] j that x(2) have "rstate (?tab ! slot key i ?n) \<noteq> EMPTY"
      by (auto simp: chain_ok_iff)
    with st have "rstate (?tab ! slot key i ?n) = ALIVE" "rkey (?tab ! slot key i ?n) = key" by auto
    with ni x ok have "slot key i ?n = x"
      by (auto simp: slots_okD(1) intro: slots_okD(6))
    with j that slot_inj [of key i ?n j] show False by simp
  qed
  moreover have "stops_at key (?tab ! slot key j ?n)"
    using j x slots_okD(3) [OF ok x(1)] by simp
  ultimately have "probe ?n (stops_at key) (unat (hash key) mod ?n) ?tab = Inr (slot key j ?n)"
    using j xn by (intro probe_slot) auto
  with j xn show ?thesis by (auto simp: getPosition_def startPos_def tsize_def)
qed

text \<open>A key that is not stored leads to a free slot, the first one on its path.\<close>

lemma getPosition_miss:
  assumes ok: "slots_ok (hashTable t) xs" and new: "\<forall>i\<in>set xs. rkey (hashTable t ! i) \<noteq> key"
    and e: "e < tsize t" "rstate (hashTable t ! e) = EMPTY"
  shows "\<exists>j<tsize t. getPosition key t = Inr (int (slot key j (tsize t)))
    \<and> rstate (hashTable t ! slot key j (tsize t)) = EMPTY
    \<and> (\<forall>i<j. rstate (hashTable t ! slot key i (tsize t)) \<noteq> EMPTY)"
proof -
  let ?tab = "hashTable t"
  let ?n = "length ?tab"
  from probe_finds [of e ?tab "stops_at key" key] e obtain j where j: "j < ?n"
    "probe ?n (stops_at key) (unat (hash key) mod ?n) ?tab = Inr (slot key j ?n)"
    "stops_at key (?tab ! slot key j ?n)" "\<forall>i<j. \<not> stops_at key (?tab ! slot key i ?n)"
    by (auto simp: tsize_def)
  have "slot key j ?n < ?n" by (rule slot_less) (use j(1) in arith)
  then have "rstate (?tab ! slot key j ?n) = EMPTY"
    using j(3) slots_okD(1) [OF ok] new by auto
  moreover have "getPosition key t = Inr (int (slot key j ?n))"
    using j by (auto simp: getPosition_def startPos_def tsize_def)
  ultimately show ?thesis using j by (auto simp: tsize_def)
qed


section \<open>Filling and killing a slot\<close>

lemma chain_ok_update:
  assumes "chain_ok tab i" "u \<noteq> i" "rstate r \<noteq> EMPTY"
  shows "chain_ok (tab[u := r]) i"
  unfolding chain_ok_iff
proof (intro allI impI)
  fix j k
  assume j: "j < length (tab[u := r])" "slot (rkey (tab[u := r] ! i)) j (length (tab[u := r])) = i" "k < j"
  let ?s = "slot (rkey (tab ! i)) k (length tab)"
  have s: "?s < length tab" by (rule slot_less) (use j in auto)
  from assms(1,2) j have "rstate (tab ! ?s) \<noteq> EMPTY" by (auto simp: chain_ok_iff)
  with assms(2,3) s show
    "rstate (tab[u := r] ! slot (rkey (tab[u := r] ! i)) k (length (tab[u := r]))) \<noteq> EMPTY"
    by (cases "u = ?s") auto
qed

lemma slots_ok_fill:
  assumes ok: "slots_ok tab xs" and new: "\<forall>i\<in>set xs. rkey (tab ! i) \<noteq> key"
    and j: "j < length tab" "rstate (tab ! slot key j (length tab)) = EMPTY"
      "\<forall>i<j. rstate (tab ! slot key i (length tab)) \<noteq> EMPTY"
    and r: "rstate r = ALIVE" "rkey r = key"
  shows "slots_ok (tab[slot key j (length tab) := r]) (slot key j (length tab) # xs)"
proof -
  let ?n = "length tab"
  let ?p = "slot key j ?n"
  have p: "?p < ?n" by (rule slot_less) (use j(1) in arith)
  have pxs: "?p \<notin> set xs" using j(2) slots_okD(1) [OF ok p] by auto
  have keys: "map (\<lambda>i. rkey (tab[?p := r] ! i)) xs = map (\<lambda>i. rkey (tab ! i)) xs"
    using pxs by (rule map_nth_update_other)
  have kp: "rkey (tab[?p := r] ! ?p) = key" using p r by simp
  have "chain_ok (tab[?p := r]) ?p"
    unfolding chain_ok_iff kp length_list_update
  proof (intro allI impI)
    fix j' k
    assume a: "j' < ?n" "slot key j' ?n = ?p" "k < j'"
    have "j' = j" using a(2,1) j(1) by (rule slot_inj)
    with a(3) j(3) have "rstate (tab ! slot key k ?n) \<noteq> EMPTY" by blast
    moreover have "slot key k ?n < ?n" by (rule slot_less) (use j(1) in arith)
    ultimately show "rstate (tab[?p := r] ! slot key k ?n) \<noteq> EMPTY"
      using r(1) by (metis State.distinct(1) nth_list_update_eq nth_list_update_neq)
  qed
  moreover have "chain_ok (tab[?p := r]) i" if "i \<in> set xs" for i
    using slots_okD(7) [OF ok that] pxs that r by (intro chain_ok_update) auto
  ultimately have ch: "chain_ok (tab[?p := r]) i" if "i \<in> set (?p # xs)" for i using that by auto
  show ?thesis
  proof (rule slots_okI)
    fix i assume "i < length (tab[?p := r])"
    then show "(rstate (tab[?p := r] ! i) = ALIVE) = (i \<in> set (?p # xs))"
      using slots_okD(1) [OF ok, of i] r p by (cases "i = ?p") auto
  next
    fix i assume "i \<in> set (?p # xs)"
    then show "i < length (tab[?p := r])" using p slots_okD(2) [OF ok] by auto
  next
    show "distinct (map (\<lambda>i. rkey (tab[?p := r] ! i)) (?p # xs))"
      unfolding list.map(2) keys kp using slots_okD(5) [OF ok] new by auto
  qed (rule ch)
qed

lemma slots_ok_kill:
  assumes ok: "slots_ok tab (ys @ x # zs)" and r: "rstate r = DEAD"
  shows "slots_ok (tab[x := r]) (ys @ zs)"
proof -
  have x: "x < length tab" and d: "distinct (ys @ x # zs)"
    using slots_okD(2) [OF ok, of x] slots_okD(4) [OF ok] by auto
  have "(rstate (tab[x := r] ! i) = ALIVE) = (i \<in> set (ys @ zs))" if "i < length tab" for i
    using that slots_okD(1) [OF ok that] r x d by (cases "i = x") auto
  moreover have "chain_ok (tab[x := r]) i" if "i \<in> set (ys @ zs)" for i
    using slots_okD(7) [OF ok, of i] that r d by (intro chain_ok_update) auto
  moreover have "map (\<lambda>i. rkey (tab[x := r] ! i)) (ys @ zs) = map (\<lambda>i. rkey (tab ! i)) (ys @ zs)"
    using d by (intro map_nth_update_other) auto
  moreover have "distinct (map (\<lambda>i. rkey (tab ! i)) (ys @ zs))"
    using slots_okD(5) [OF ok] by auto
  moreover have "i < length (tab[x := r])" if "i \<in> set (ys @ zs)" for i
    using slots_okD(2) [OF ok, of i] that by auto
  ultimately show ?thesis by (intro slots_okI) (simp_all only: length_list_update)
qed

lemma slots_ok_rewrite:
  assumes ok: "slots_ok tab xs" and x: "x \<in> set xs"
    and r: "rstate r = ALIVE" "rkey r = rkey (tab ! x)"
  shows "slots_ok (tab[x := r]) xs"
proof -
  let ?tab = "tab[x := r]"
  have same: "rstate (?tab ! i) = rstate (tab ! i) \<and> rkey (?tab ! i) = rkey (tab ! i)" if "i < length tab" for i
    using slots_okD(3) [OF ok x] r that by (cases "i = x") auto
  have ch: "chain_ok ?tab i" if "i \<in> set xs" for i
    unfolding chain_ok_iff
  proof (intro allI impI)
    fix j k
    assume a: "j < length ?tab" "slot (rkey (?tab ! i)) j (length ?tab) = i" "k < j"
    have i: "i < length tab" using slots_okD(2) [OF ok that] .
    then have s: "slot (rkey (tab ! i)) k (length tab) < length tab" by (intro slot_less) arith
    from slots_okD(7) [OF ok that] a same [OF i] same [OF s]
    show "rstate (?tab ! slot (rkey (?tab ! i)) k (length ?tab)) \<noteq> EMPTY"
      by (auto simp: chain_ok_iff)
  qed
  have "map (\<lambda>i. rkey (?tab ! i)) xs = map (\<lambda>i. rkey (tab ! i)) xs"
    using same slots_okD(2) [OF ok] by auto
  then have "distinct (map (\<lambda>i. rkey (?tab ! i)) xs)" using slots_okD(5) [OF ok] by (simp only:)
  moreover have "(rstate (?tab ! i) = ALIVE) = (i \<in> set xs)" if "i < length ?tab" for i
    using that same [of i] slots_okD(1) [OF ok, of i] by simp
  moreover have "i < length ?tab" if "i \<in> set xs" for i
    using slots_okD(2) [OF ok that] by simp
  ultimately show ?thesis using ch by (intro slots_okI)
qed

lemma deadCount_update:
  assumes "i < length tab"
  shows "deadCount (tab[i := r]) + (if rstate (tab ! i) = DEAD then 1 else 0)
    = deadCount tab + (if rstate r = DEAD then 1 else 0)"
  using assms
proof (induction tab arbitrary: i)
  case (Cons q tab)
  then show ?case by (cases i) (auto simp: deadCount_def)
qed simp

lemma entries_update_other: "x \<notin> set xs \<Longrightarrow> entries (tab[x := r]) xs = entries tab xs"
  unfolding entries_def entry_at_def by (rule map_nth_update_other)

lemma entries_append: "entries tab (xs @ ys) = entries tab xs @ entries tab ys"
  and entries_Cons: "entries tab (x # xs) = entry_at tab x # entries tab xs"
  and entries_Nil [simp]: "entries tab [] = []"
  and length_entries [simp]: "length (entries tab xs) = length xs"
  by (simp_all add: entries_def)

text \<open>Live, dead and free slots add up, so the load bound leaves a free slot.\<close>

lemma free_slot:
  assumes inv: "table_inv t xs"
  shows "\<exists>e<tsize t. rstate (hashTable t ! e) = EMPTY"
proof (rule ccontr)
  assume none: "\<not> ?thesis"
  let ?tab = "hashTable t"
  from inv have ok: "slots_ok ?tab xs" by (simp add: table_inv_def)
  let ?A = "{i. i < length ?tab \<and> rstate (?tab ! i) = ALIVE}"
  let ?D = "{i. i < length ?tab \<and> rstate (?tab ! i) = DEAD}"
  have "?A = set xs" using slots_okD [OF ok] by auto
  then have "card ?A = length xs" using slots_okD(4) [OF ok] by (simp add: distinct_card)
  moreover have "card ?D = deadCount ?tab" by (simp add: deadCount_def length_filter_conv_card)
  moreover have "{..<length ?tab} \<subseteq> ?A \<union> ?D"
    using none by (auto simp: tsize_def) (metis State.exhaust)
  then have "card {..<length ?tab} \<le> card (?A \<union> ?D)" by (intro card_mono) auto
  moreover have "card (?A \<union> ?D) \<le> card ?A + card ?D" by (rule card_Un_le)
  ultimately have "length ?tab \<le> length xs + deadCount ?tab" by simp
  with inv show False by (auto simp: table_inv_def counts_ok_def load_ok_def tsize_def)
qed

end
