(* ===== verification/Hash_Table_Ops.thy ===== *)
theory Hash_Table_Ops
  imports Hash_Table_Inv
begin

text \<open>
  The storage operations keep the invariant, succeed under it, and act on the stored entries as
  operations on a list in order of use: \<open>accessEntry\<close> moves an entry to the front, \<open>addEntry\<close>
  puts a new one there, \<open>removeEntry\<close> deletes one, \<open>evictEntry\<close> deletes the last, \<open>rehash\<close>
  changes nothing.
\<close>

section \<open>Access\<close>

lemma table_invD:
  assumes "table_inv t xs"
  shows "linked t xs" "slots_ok (hashTable t) xs" "counts_ok t xs" "load_ok t"
    "distinct xs" "x \<in> set xs \<Longrightarrow> x < tsize t"
    "x \<in> set xs \<Longrightarrow> rstate (hashTable t ! x) = ALIVE"
    "10 \<le> tsize t"
  using assms slots_okD [of "hashTable t" xs]
  by (auto simp: table_inv_def load_ok_def tsize_def)

text \<open>Relinking the live slots in another order keeps everything but the order.\<close>

lemma table_inv_relink:
  assumes inv: "table_inv t xs"
    and l: "linked (t\<lparr>hashTable := tab, listHead := h, listTail := e\<rparr>) ys"
    and c: "content tab = content (hashTable t)" and m: "mset ys = mset xs"
  shows "table_inv (t\<lparr>hashTable := tab, listHead := h, listTail := e\<rparr>) ys"
proof -
  have len: "length tab = tsize t" using content_length [OF c] by (simp add: tsize_def)
  have "set ys = set xs" using m by (metis set_mset_mset)
  then have "\<forall>i\<in>set ys. i < length (hashTable t)" using table_invD(6) [OF inv] by (auto simp: tsize_def)
  then have "entries tab ys = entries (hashTable t) ys" using c by (intro entries_content)
  moreover have "mset (map entry_bytes (entries (hashTable t) ys)) = mset (map entry_bytes (entries (hashTable t) xs))"
    using m by (simp add: entries_def)
  ultimately have "lru_bytes (entries tab ys) = lru_bytes (entries (hashTable t) xs)"
    unfolding lru_bytes_def by (metis sum_mset_sum_list)
  moreover have "length ys = length xs" using m by (metis size_mset)
  moreover have "slots_ok tab ys"
    using slots_ok_content [OF c] slots_ok_perm [OF m] table_invD(2) [OF inv] by blast
  ultimately show ?thesis
    using inv l len deadCount_content [OF c]
    by (simp add: table_inv_def counts_ok_def load_ok_def)
qed

lemma accessEntry_inv:
  assumes inv: "table_inv t (ys @ x # zs)"
  shows "\<exists>tab h e. accessEntry (int x) t = Inr (t\<lparr>hashTable := tab, listHead := h, listTail := e\<rparr>)
    \<and> table_inv (t\<lparr>hashTable := tab, listHead := h, listTail := e\<rparr>) (x # ys @ zs)
    \<and> content tab = content (hashTable t)"
proof -
  have x: "x < tsize t" "rstate (hashTable t ! x) = ALIVE" using table_invD(6,7) [OF inv] by auto
  obtain tab h e where
    r: "removeFromList (int x) t = Inr (t\<lparr>hashTable := tab, listHead := h, listTail := e\<rparr>)"
    and l: "linked (t\<lparr>hashTable := tab, listHead := h, listTail := e\<rparr>) (ys @ zs)"
    and c: "content tab = content (hashTable t)"
    using removeFromList_linked [OF table_invD(1) [OF inv] x(2)] by blast
  let ?t1 = "t\<lparr>hashTable := tab, listHead := h, listTail := e\<rparr>"
  have len: "length tab = tsize t" using content_length [OF c] by (simp add: tsize_def)
  have "x < tsize ?t1" "x \<notin> set (ys @ zs)" "rstate (hashTable ?t1 ! x) = ALIVE"
    using x len table_invD(5) [OF inv] content_fields [OF c] by (auto simp: tsize_def)
  from addToFront_linked [OF l this] obtain tab2 e2 where
    a: "addToFront (int x) ?t1 = Inr (t\<lparr>hashTable := tab2, listHead := int x, listTail := e2\<rparr>)"
    and l2: "linked (t\<lparr>hashTable := tab2, listHead := int x, listTail := e2\<rparr>) (x # ys @ zs)"
    and c2: "content tab2 = content tab" by auto
  have "table_inv (t\<lparr>hashTable := tab2, listHead := int x, listTail := e2\<rparr>) (x # ys @ zs)"
    using inv l2 by (rule table_inv_relink) (simp_all add: c c2)
  moreover have "accessEntry (int x) t = Inr (t\<lparr>hashTable := tab2, listHead := int x, listTail := e2\<rparr>)"
    using x r a by (simp add: accessEntry_def)
  ultimately show ?thesis using c c2 by auto
qed

section \<open>Removal and eviction\<close>

lemma removeEntry_inv:
  assumes inv: "table_inv t (ys @ x # zs)"
  shows "\<exists>t'. removeEntry (int x) t = Inr t' \<and> table_inv t' (ys @ zs)
    \<and> entries (hashTable t') (ys @ zs) = entries (hashTable t) (ys @ zs)
    \<and> tsize t' = tsize t \<and> self t' = self t \<and> statistics t' = statistics t
    \<and> table.more t' = table.more t"
proof -
  let ?r = "new_Record\<lparr>rstate := DEAD\<rparr>"
  have x: "x < tsize t" "rstate (hashTable t ! x) = ALIVE" using table_invD(6,7) [OF inv] by auto
  obtain tab h e where
    r: "removeFromList (int x) t = Inr (t\<lparr>hashTable := tab, listHead := h, listTail := e\<rparr>)"
    and l: "linked (t\<lparr>hashTable := tab, listHead := h, listTail := e\<rparr>) (ys @ zs)"
    and c: "content tab = content (hashTable t)"
    using removeFromList_linked [OF table_invD(1) [OF inv] x(2)] by blast
  let ?t1 = "t\<lparr>hashTable := tab, listHead := h, listTail := e\<rparr>"
  have len: "length tab = tsize t" using content_length [OF c] by (simp add: tsize_def)
  have xd: "x \<notin> set (ys @ zs)" using table_invD(5) [OF inv] by auto
  let ?b = "length (rkey (tab ! x)) + length (rvalue (tab ! x))"
  let ?t2 = "?t1\<lparr>hashTable := tab[x := ?r], totalKeyValueSize := totalKeyValueSize t - of_nat ?b,
    numEntries := numEntries t - 1, numDeadEntries := numDeadEntries t + 1\<rparr>"
  have run: "removeEntry (int x) t = Inr ?t2"
    using r x len by (simp add: removeEntry_def tsize_def)
  have lk: "linked ?t2 (ys @ zs)"
    using l xd by (auto simp: linked_def intro: dll_update_other)
  have sl: "slots_ok (tab[x := ?r]) (ys @ zs)"
    using slots_ok_content [OF c] table_invD(2) [OF inv] by (intro slots_ok_kill) auto
  have en: "entries (tab[x := ?r]) (ys @ zs) = entries (hashTable t) (ys @ zs)"
    unfolding entries_update_other [OF xd]
    using table_invD(6) [OF inv] by (intro entries_content [OF c]) (auto simp: tsize_def)
  have eb: "entry_bytes (entry_at (hashTable t) x) = ?b"
    using content_fields [OF c] x(1) by (simp add: entry_bytes_def entry_at_def tsize_def)
  have tot: "totalKeyValueSize t - of_nat ?b =
      of_nat (lru_bytes (entries (tab[x := ?r]) (ys @ zs)))"
    using table_invD(3) [OF inv] unfolding en
    by (simp add: counts_ok_def entries_append entries_Cons eb lru_bytes_def)
  have dc: "deadCount (tab[x := ?r]) = deadCount (hashTable t) + 1"
    using deadCount_update [of x tab ?r] deadCount_content [OF c] content_fields(1) [OF c] x len
    by (simp add: tsize_def new_Record_def)
  have "table_inv ?t2 (ys @ zs)"
    using lk sl tot dc table_invD(3,4) [OF inv] len
    by (simp add: table_inv_def counts_ok_def load_ok_def)
  with run en len show ?thesis by auto
qed


text \<open>Eviction drops the least recently used entry.\<close>

lemma evictEntry_inv:
  assumes inv: "table_inv t (ys @ [x])"
  shows "\<exists>t'. evictEntry t = Inr t' \<and> table_inv t' ys
    \<and> entries (hashTable t') ys = entries (hashTable t) ys
    \<and> tsize t' = tsize t \<and> self t' = self t \<and> table.more t' = table.more t
    \<and> statistics t' = (statistics t)\<lparr>numEvictions := numEvictions (statistics t) + 1\<rparr>"
proof -
  have tl: "listTail t = int x"
    using table_invD(1) [OF inv] by (auto simp: linked_def dest: dll_last)
  obtain t1 where t1: "removeEntry (int x) t = Inr t1" "table_inv t1 ys"
    "entries (hashTable t1) ys = entries (hashTable t) ys" "tsize t1 = tsize t" "self t1 = self t"
    "statistics t1 = statistics t" "table.more t1 = table.more t"
    using removeEntry_inv [of t ys x "[]"] inv by auto
  let ?t2 = "t1\<lparr>statistics := (statistics t1)\<lparr>numEvictions := numEvictions (statistics t1) + 1\<rparr>\<rparr>"
  have "evictEntry t = Inr ?t2" using t1 tl by (simp add: evictEntry_def)
  moreover have "table_inv ?t2 ys"
    using t1(2) by (simp add: table_inv_def linked_def counts_ok_def load_ok_def)
  ultimately show ?thesis using t1 by auto
qed

text \<open>The eviction loop implements \<open>lru_trim\<close>; it never trips the assertion of \<open>evictEntry\<close>.\<close>

lemma evictLoop_inv:
  assumes "table_inv t xs"
  shows "\<exists>t' ys. evictLoop t = Inr t' \<and> table_inv t' ys
    \<and> entries (hashTable t') ys = lru_trim (entries (hashTable t) xs)
    \<and> getUsedMemory t' \<le> MEMORY_LIMIT
    \<and> tsize t' = tsize t \<and> self t' = self t \<and> table.more t' = table.more t
    \<and> statistics t' = (statistics t)\<lparr>numEvictions :=
        numEvictions (statistics t) + (int (length xs) - int (length ys))\<rparr>"
  using assms
proof (induction xs arbitrary: t rule: rev_induct)
  case Nil
  then have "totalKeyValueSize t = 0" by (simp add: table_inv_def counts_ok_def entries_def lru_bytes_def)
  then have "\<not> getUsedMemory t > MEMORY_LIMIT" by (simp add: getUsedMemory_def MEMORY_LIMIT_def)
  moreover have "lru_trim [] = []" by (simp add: lru_trim.simps [of "[]"] lru_bytes_def MEMORY_LIMIT_def)
  ultimately show ?case using Nil by (auto simp: evictLoop.simps [of t] entries_def)
next
  case (snoc x xs)
  let ?es = "entries (hashTable t) (xs @ [x])"
  have mem: "getUsedMemory t = sint (of_nat (lru_bytes ?es) :: 32 word)"
    using table_invD(3) [OF snoc.prems] by (simp add: getUsedMemory_def counts_ok_def)
  show ?case
  proof (cases "getUsedMemory t > MEMORY_LIMIT")
    case False
    then have "lru_trim ?es = ?es" using mem by (subst lru_trim.simps) simp
    with False show ?thesis using snoc.prems
      by (auto simp: evictLoop.simps [of t] intro!: exI [of _ "xs @ [x]"])
  next
    case True
    from evictEntry_inv [OF snoc.prems] obtain t1 where t1: "evictEntry t = Inr t1" "table_inv t1 xs"
      "entries (hashTable t1) xs = entries (hashTable t) xs" "tsize t1 = tsize t" "self t1 = self t"
      "table.more t1 = table.more t"
      "statistics t1 = (statistics t)\<lparr>numEvictions := numEvictions (statistics t) + 1\<rparr>" by auto
    have tr: "lru_trim ?es = lru_trim (entries (hashTable t1) xs)"
      using True mem t1(3) by (subst lru_trim.simps) (simp add: entries_append entries_Cons)
    have run: "evictLoop t = evictLoop t1" using True t1(1) by (simp add: evictLoop.simps [of t])
    from snoc.IH [OF t1(2)] obtain t2 ys where t2: "evictLoop t1 = Inr t2" "table_inv t2 ys"
      "entries (hashTable t2) ys = lru_trim (entries (hashTable t1) xs)"
      "getUsedMemory t2 \<le> MEMORY_LIMIT" "tsize t2 = tsize t1" "self t2 = self t1"
      "table.more t2 = table.more t1"
      "statistics t2 = (statistics t1)\<lparr>numEvictions :=
        numEvictions (statistics t1) + (int (length xs) - int (length ys))\<rparr>" by blast
    then show ?thesis unfolding run tr using t1(4-7)
      by (intro exI [of _ t2] exI [of _ ys]) (simp add: algebra_simps)
  qed
qed

section \<open>Adding and rewriting\<close>

lemma addEntry_inv:
  assumes inv: "table_inv t xs" and new: "\<forall>i\<in>set xs. rkey (hashTable t ! i) \<noteq> key"
    and j: "j < tsize t" "rstate (hashTable t ! slot key j (tsize t)) = EMPTY"
      "\<forall>i<j. rstate (hashTable t ! slot key i (tsize t)) \<noteq> EMPTY"
    and load: "2 * (numEntries t + numDeadEntries t) \<le> int (tsize t)"
  shows "\<exists>t'. addEntry (int (slot key j (tsize t))) key val t = Inr t'
    \<and> table_inv t' (slot key j (tsize t) # xs)
    \<and> entries (hashTable t') (slot key j (tsize t) # xs) = (key, val, [(self t, 1)]) # entries (hashTable t) xs
    \<and> tsize t' = tsize t \<and> self t' = self t \<and> statistics t' = statistics t \<and> table.more t' = table.more t"
proof -
  define p where "p = slot key j (tsize t)"
  define r where "r = (hashTable t ! p)\<lparr>rstate := ALIVE, rkey := key, rvalue := val, rversion := [(self t, 1)]\<rparr>"
  define tab1 where "tab1 = (hashTable t)[p := r]"
  define w where "w = totalKeyValueSize t + of_nat (length key + length val)"
  have p: "p < tsize t" unfolding p_def by (rule slot_less) (use j(1) in arith)
  have pe: "rstate (hashTable t ! p) = EMPTY" using j(2) by (simp add: p_def)
  have pxs: "p \<notin> set xs" using pe table_invD(7) [OF inv] by auto
  have len1: "length tab1 = tsize t" by (simp add: tab1_def tsize_def)
  have rp: "tab1 ! p = r" using p by (simp add: tab1_def tsize_def)
  have sl1: "slots_ok tab1 (p # xs)"
    unfolding tab1_def p_def tsize_def
    by (rule slots_ok_fill [OF table_invD(2) [OF inv] new])
       (use j in \<open>simp_all add: tsize_def r_def\<close>)
  let ?t1 = "t\<lparr>hashTable := tab1, totalKeyValueSize := w\<rparr>"
  have "linked ?t1 xs" using table_invD(1) [OF inv] pxs
    by (auto simp: linked_def tab1_def intro: dll_update_other)
  moreover have "p < tsize ?t1" "rstate (hashTable ?t1 ! p) = ALIVE"
    using p len1 rp by (simp_all add: tsize_def r_def)
  ultimately obtain tab2 e where
    a: "addToFront (int p) ?t1 = Inr (?t1\<lparr>hashTable := tab2, listHead := int p, listTail := e\<rparr>)"
    and l2: "linked (?t1\<lparr>hashTable := tab2, listHead := int p, listTail := e\<rparr>) (p # xs)"
    and c2: "content tab2 = content tab1"
    using addToFront_linked [of ?t1 xs p] pxs by auto
  let ?t2 = "t\<lparr>hashTable := tab2, listHead := int p, listTail := e, totalKeyValueSize := w,
    numEntries := numEntries t + 1\<rparr>"
  have run: "addEntry (int p) key val t = Inr ?t2"
    using a p pe by (simp add: addEntry_def tab1_def w_def r_def)
  have len2: "length tab2 = tsize t" using content_length [OF c2] len1 by simp
  have ranges: "\<forall>i\<in>set (p # xs). i < length tab1" using p table_invD(6) [OF inv] len1 by auto
  have en: "entries tab2 (p # xs) = (key, val, [(self t, 1)]) # entries (hashTable t) xs"
    unfolding entries_content [OF c2 ranges]
    unfolding entries_Cons using entries_update_other [OF pxs] rp by (simp add: tab1_def entry_at_def r_def)
  have dc: "deadCount tab2 = deadCount (hashTable t)"
    using deadCount_update [of p "hashTable t" r] p pe deadCount_content [OF c2]
    by (simp add: tab1_def tsize_def r_def)
  have "table_inv ?t2 (p # xs)"
    unfolding table_inv_def
  proof (intro conjI)
    show "linked ?t2 (p # xs)" using l2 by (simp add: linked_def)
    show "slots_ok (hashTable ?t2) (p # xs)" using sl1 slots_ok_content [OF c2] by simp
    show "counts_ok ?t2 (p # xs)"
      using table_invD(3) [OF inv] en dc by (simp add: counts_ok_def w_def entry_bytes_def lru_bytes_def)
    show "load_ok ?t2" using load table_invD(8) [OF inv] len2 by (simp add: load_ok_def tsize_def)
  qed
  with run en len2 show ?thesis unfolding p_def by auto
qed

lemma rewrite_inv:
  fixes v :: string and ver :: version
  assumes inv: "table_inv t (ys @ x # zs)"
  defines "r \<equiv> (hashTable t ! x)\<lparr>rvalue := v, rversion := ver\<rparr>"
  defines "t' \<equiv> t\<lparr>hashTable := (hashTable t)[x := r],
    totalKeyValueSize := totalKeyValueSize t - of_nat (length (rvalue (hashTable t ! x))) + of_nat (length v)\<rparr>"
  shows "table_inv t' (ys @ x # zs)"
    and "entries (hashTable t') (ys @ x # zs) =
      entries (hashTable t) ys @ (rkey (hashTable t ! x), v, ver) # entries (hashTable t) zs"
proof -
  have x: "x < length (hashTable t)" "rstate (hashTable t ! x) = ALIVE"
    using table_invD(6,7) [OF inv] by (auto simp: tsize_def)
  have nd: "x \<notin> set ys" "x \<notin> set zs" using table_invD(5) [OF inv] by auto
  show en: "entries (hashTable t') (ys @ x # zs) =
      entries (hashTable t) ys @ (rkey (hashTable t ! x), v, ver) # entries (hashTable t) zs"
    using nd x by (simp add: t'_def entries_append entries_Cons entries_update_other entry_at_def r_def)
  have "linked t' (ys @ x # zs)"
    using table_invD(1) [OF inv] by (auto simp: linked_def t'_def r_def intro: dll_update_same_links)
  moreover have "slots_ok (hashTable t') (ys @ x # zs)"
    using table_invD(2) [OF inv] x by (auto simp: t'_def r_def intro: slots_ok_rewrite)
  moreover have "deadCount (hashTable t') = deadCount (hashTable t)"
    using deadCount_update [OF x(1), of r] x by (simp add: t'_def r_def)
  moreover have "counts_ok t' (ys @ x # zs)"
    unfolding counts_ok_def en
    using table_invD(3) [OF inv] calculation(3)
    by (simp add: counts_ok_def t'_def entries_append entries_Cons entry_bytes_def entry_at_def lru_bytes_def)
  moreover have "load_ok t'" using table_invD(4) [OF inv] by (simp add: load_ok_def t'_def tsize_def)
  ultimately show "table_inv t' (ys @ x # zs)" by (simp add: table_inv_def)
qed

end
