(* ===== verification/Hash_Table_Rehash.thy ===== *)
theory Hash_Table_Rehash
  imports Hash_Table_Ops
begin

text \<open>
  Rehashing rebuilds the table with the same entries in the same order of use and without dead
  slots; \<open>normalizeTable\<close> evicts, rehashes and so leaves room for one more entry.
\<close>

section \<open>One iteration\<close>

text \<open>A table under construction: live slots \<open>ws\<close> in list order, every other slot free.\<close>

definition fresh_table :: "Record list \<Rightarrow> int \<Rightarrow> int \<Rightarrow> nat list \<Rightarrow> bool" where
  "fresh_table new h e ws =
     (dll new (-1) h ws e (-1) \<and> slots_ok new ws \<and> deadCount new = 0)"

lemma fresh_table_free:
  assumes f: "fresh_table new h e ws" and room: "length ws < length new"
  shows "\<exists>p<length new. rstate (new ! p) = EMPTY"
proof -
  have ok: "slots_ok new ws" and d: "deadCount new = 0" using f by (auto simp: fresh_table_def)
  have "card (set ws) < length new" using room card_length [of ws] by (rule le_less_trans [rotated])
  then obtain p where p: "p < length new" "p \<notin> set ws" using card_lt_exists_not [of "set ws"] by auto
  then have "rstate (new ! p) \<noteq> ALIVE" using slots_okD(1) [OF ok] by auto
  moreover have "rstate (new ! p) \<noteq> DEAD"
    using d p(1) by (auto simp: deadCount_def filter_empty_conv)
  ultimately show ?thesis using p(1) by (metis State.exhaust)
qed

lemma fresh_table_init: "fresh_table (replicate n new_Record) (-1) (-1) []"
  by (auto simp: fresh_table_def slots_ok_iff deadCount_def new_Record_def)

text \<open>Appending a slot at the tail of the list.\<close>

lemma dll_append_slot:
  fixes new :: "Record list" and p :: nat and r :: Record
  assumes d: "dll new (-1) h ws e (-1)" and dist: "distinct ws" and p: "p < length new" "p \<notin> set ws"
  defines "new1 \<equiv> new[p := r\<lparr>rprev := e\<rparr>]"
  defines "new2 \<equiv> (if e \<noteq> -1 then new1[nat e := (new1 ! nat e)\<lparr>rnext := int p\<rparr>] else new1)"
  defines "new3 \<equiv> new2[p := (new2 ! p)\<lparr>rnext := -1\<rparr>]"
  shows "dll new3 (-1) (if h = -1 then int p else h) (ws @ [p]) (int p) (-1)"
    and "content new3 = content (new[p := r])"
proof -
  have c1: "content new1 = content (new[p := r])"
    unfolding new1_def using p(1) by (simp add: content_def map_update)
  have d1: "dll new1 (-1) h ws e (-1)" unfolding new1_def using p(2) d by (rule dll_update_other)
  have p1: "new1 ! p = r\<lparr>rprev := e\<rparr>" using p(1) by (simp add: new1_def)
  show "content new3 = content (new[p := r])"
  proof -
    have "content new2 = content new1"
    proof (cases "e = -1")
      case False
      with dll_last [OF d] have "e = int (last ws)" "ws \<noteq> []" by (auto split: if_splits)
      then have "nat e < length new1" using dll_range [OF d, of "last ws"] by (simp add: new1_def)
      with False show ?thesis by (simp add: new2_def content_update)
    qed (simp add: new2_def)
    moreover from content_length [OF this] have "content new3 = content new2"
      unfolding new3_def using p(1) by (intro content_update) (auto simp: new1_def)
    ultimately show ?thesis using c1 by simp
  qed
  show "dll new3 (-1) (if h = -1 then int p else h) (ws @ [p]) (int p) (-1)"
  proof (cases ws rule: rev_cases)
    case Nil
    with d have "h = -1" "e = -1" by auto
    with Nil p p1 show ?thesis by (simp add: new3_def new2_def new1_def)
  next
    case (snoc vs w)
    with dll_last [OF d] have e: "e = int w" by simp
    have wp: "w \<noteq> p" using p(2) snoc by auto
    have h: "h \<noteq> -1" using dll_head [OF d] snoc by (auto split: list.splits)
    have "dll new2 (-1) h ws e (int p)"
      using d1 dist unfolding snoc new2_def e by simp (rule dll_set_last_next, auto)
    then have "dll new3 (-1) h ws e (int p)"
      unfolding new3_def using p(2) by (intro dll_update_other)
    moreover have "rprev (new3 ! p) = e" "rnext (new3 ! p) = -1" "p < length new3"
      using p(1) p1 wp e by (auto simp: new3_def new2_def new1_def)
    ultimately show ?thesis using h by (auto simp: dll_append)
  qed
qed

lemma rehashStep_fresh:
  assumes f: "fresh_table new h e ws" and room: "length ws < length new"
    and fr: "\<forall>i\<in>set ws. rkey (new ! i) \<noteq> rkey (old ! x)"
  shows "\<exists>r new' p. rehashStep (int x) (old, new, h, e) =
      Inr (old[x := r], new', (if h = -1 then int p else h), int p)
    \<and> rprev r = rprev (old ! x) \<and> rnext r = rnext (old ! x)
    \<and> fresh_table new' (if h = -1 then int p else h) (int p) (ws @ [p])
    \<and> length new' = length new
    \<and> entries new' (ws @ [p]) = entries new ws @ [entry_at old x]"
proof -
  have d: "dll new (-1) h ws e (-1)" and ok: "slots_ok new ws" and dc: "deadCount new = 0"
    using f by (auto simp: fresh_table_def)
  let ?key = "rkey (old ! x)"
  obtain p0 where p0: "p0 < length new" "rstate (new ! p0) = EMPTY"
    using fresh_table_free [OF f room] by blast
  from probe_finds [of p0 new "\<lambda>q. rstate q = EMPTY" ?key] p0 obtain j where j: "j < length new"
    "probe (length new) (\<lambda>q. rstate q = EMPTY) (unat (hash ?key) mod length new) new
      = Inr (slot ?key j (length new))"
    "rstate (new ! slot ?key j (length new)) = EMPTY"
    "\<forall>i<j. rstate (new ! slot ?key i (length new)) \<noteq> EMPTY" by auto
  define p where "p = slot ?key j (length new)"
  have p: "p < length new" unfolding p_def by (rule slot_less) (use j(1) in arith)
  have pws: "p \<notin> set ws" using j(3) slots_okD(1) [OF ok p] by (auto simp: p_def)
  define q where "q = (new ! p)\<lparr>rstate := ALIVE, rkey := ?key, rvalue := rvalue (old ! x),
    rversion := rversion (old ! x)\<rparr>"
  define new1 where "new1 = new[p := q\<lparr>rprev := e\<rparr>]"
  define new2 where "new2 = (if e \<noteq> -1 then new1[nat e := (new1 ! nat e)\<lparr>rnext := int p\<rparr>] else new1)"
  define new3 where "new3 = new2[p := (new2 ! p)\<lparr>rnext := -1\<rparr>]"
  define r where "r = (old ! x)\<lparr>rkey := rkey (new ! p), rvalue := rvalue (new ! p), rversion := rversion (new ! p)\<rparr>"
  have new1_alt: "new1 = new[p := (new ! p)\<lparr>rstate := ALIVE, rkey := ?key, rvalue := rvalue (old ! x),
      rversion := rversion (old ! x), rprev := e\<rparr>]"
    by (simp add: new1_def q_def)
  have "new \<noteq> []" using p by auto
  then have run: "rehashStep (int x) (old, new, h, e) =
      Inr (old[x := r], new3, (if h = -1 then int p else h), int p)"
    using j(2) unfolding new3_def new2_def new1_alt r_def p_def [symmetric]
    by (simp add: rehashStep_def startPos_def Let_def)
  have dist: "distinct ws" using slots_okD(4) [OF ok] .
  have d3: "dll new3 (-1) (if h = -1 then int p else h) (ws @ [p]) (int p) (-1)"
    and c3: "content new3 = content (new[p := q])"
    unfolding new3_def new2_def new1_def using dll_append_slot [OF d dist p pws] by auto
  have len: "length new3 = length new" using content_length [OF c3] by simp
  have "slots_ok (new[p := q]) (p # ws)"
    unfolding p_def by (rule slots_ok_fill [OF ok fr j(1,3,4)]) (simp_all add: q_def)
  then have "slots_ok (new[p := q]) (ws @ [p])" by (subst slots_ok_perm [of _ "p # ws"]) auto
  then have sl: "slots_ok new3 (ws @ [p])" using slots_ok_content [OF c3] by simp
  have "deadCount new3 = 0"
    using deadCount_update [OF p, of q] deadCount_content [OF c3] dc by (simp add: q_def)
  then have fr3: "fresh_table new3 (if h = -1 then int p else h) (int p) (ws @ [p])"
    using d3 sl by (simp add: fresh_table_def)
  have "entries new3 (ws @ [p]) = entries (new[p := q]) (ws @ [p])"
    using p slots_okD(2) [OF ok] by (intro entries_content [OF c3]) auto
  also have "\<dots> = entries new ws @ [entry_at old x]"
    using entries_update_other [OF pws] p by (simp add: entries_append entries_Cons entries_def entry_at_def q_def)
  finally show ?thesis using run fr3 len by (intro exI [of _ r] exI [of _ new3] exI [of _ p]) (simp add: r_def)
qed


section \<open>The loop\<close>

lemma rehashLoop_fresh:
  assumes "dll old p i xs l (-1)" "distinct xs" "fresh_table new h e ws" "length xs \<le> fuel"
    and "length ws + length xs \<le> length new"
    and "distinct (map (\<lambda>i. rkey (new ! i)) ws @ map (\<lambda>i. rkey (old ! i)) xs)"
  shows "\<exists>old' new' h' e' ws'. rehashLoop fuel i (old, new, h, e) = Inr (old', new', h', e')
    \<and> fresh_table new' h' e' ws' \<and> length new' = length new
    \<and> entries new' ws' = entries new ws @ entries old xs"
  using assms
proof (induction xs arbitrary: fuel old new h e ws p i)
  case Nil
  then have "i = -1" by simp
  then have "rehashLoop fuel i (old, new, h, e) = Inr (old, new, h, e)"
    by (subst rehashLoop.simps) simp
  with Nil show ?case by (auto simp: entries_def)
next
  case (Cons x xs)
  from Cons.prems(4) obtain n where fuel: "fuel = Suc n" "length xs \<le> n" by (cases fuel) auto
  from Cons.prems(1) have i: "i = int x" "x < length old"
    and rest: "dll old (int x) (rnext (old ! x)) xs l (-1)" by auto
  have room: "length ws < length new" using Cons.prems(5) by simp
  have "rkey (old ! x) \<notin> (\<lambda>i. rkey (new ! i)) ` set ws" using Cons.prems(6) by auto
  then have "\<forall>i\<in>set ws. rkey (new ! i) \<noteq> rkey (old ! x)" by force
  from rehashStep_fresh [OF Cons.prems(3) room this] obtain r new1 p1 where
    st: "rehashStep (int x) (old, new, h, e) = Inr (old[x := r], new1, (if h = -1 then int p1 else h), int p1)"
    and r: "rprev r = rprev (old ! x)" "rnext r = rnext (old ! x)"
    and f1: "fresh_table new1 (if h = -1 then int p1 else h) (int p1) (ws @ [p1])"
    and len: "length new1 = length new"
    and en: "entries new1 (ws @ [p1]) = entries new ws @ [entry_at old x]" by blast
  have xs: "x \<notin> set xs" "distinct xs" using Cons.prems(2) by auto
  have keys: "map (\<lambda>i. rkey (new1 ! i)) (ws @ [p1]) = map (\<lambda>i. rkey (new ! i)) ws @ [rkey (old ! x)]"
    using arg_cong [OF en, of "map fst"] by (simp add: entries_def entry_at_def comp_def)
  have oldkeys: "map (\<lambda>i. rkey (old[x := r] ! i)) xs = map (\<lambda>i. rkey (old ! i)) xs"
    using xs(1) by (rule map_nth_update_other)
  have "\<exists>old' new' h' e' ws'. rehashLoop n (rnext (old ! x))
        (old[x := r], new1, (if h = -1 then int p1 else h), int p1) = Inr (old', new', h', e')
      \<and> fresh_table new' h' e' ws' \<and> length new' = length new1
      \<and> entries new' ws' = entries new1 (ws @ [p1]) @ entries (old[x := r]) xs"
  proof (rule Cons.IH [OF _ xs(2) f1 fuel(2)])
    show "dll (old[x := r]) (int x) (rnext (old ! x)) xs l (-1)"
      using xs(1) rest by (rule dll_update_other)
    show "length (ws @ [p1]) + length xs \<le> length new1" using Cons.prems(5) len by simp
    show "distinct (map (\<lambda>i. rkey (new1 ! i)) (ws @ [p1]) @ map (\<lambda>i. rkey (old[x := r] ! i)) xs)"
      unfolding keys oldkeys using Cons.prems(6) by simp
  qed
  then obtain old' new' h' e' ws' where IH:
    "rehashLoop n (rnext (old ! x)) (old[x := r], new1, (if h = -1 then int p1 else h), int p1)
      = Inr (old', new', h', e')"
    "fresh_table new' h' e' ws'" "length new' = length new1"
    "entries new' ws' = entries new1 (ws @ [p1]) @ entries (old[x := r]) xs" by blast
  have "rehashLoop fuel i (old, new, h, e) = Inr (old', new', h', e')"
    unfolding rehashLoop.simps [of fuel i] using st IH(1) i fuel r(2) by simp
  moreover have "entries new' ws' = entries new ws @ entries old (x # xs)"
    unfolding IH(4) en entries_update_other [OF xs(1)] by (simp add: entries_Cons)
  ultimately show ?case using IH(2,3) len by (intro exI conjI) auto
qed

lemma rehash_inv:
  assumes inv: "table_inv t xs" and n: "10 \<le> n" "2 * length xs \<le> n + 2"
  shows "\<exists>t' ws. rehash n t = Inr t' \<and> table_inv t' ws
    \<and> entries (hashTable t') ws = entries (hashTable t) xs
    \<and> tsize t' = n \<and> numEntries t' = numEntries t \<and> numDeadEntries t' = 0
    \<and> totalKeyValueSize t' = totalKeyValueSize t
    \<and> self t' = self t \<and> statistics t' = statistics t \<and> table.more t' = table.more t"
proof -
  let ?old = "hashTable t" and ?new = "replicate n new_Record"
  have d: "dll ?old (-1) (listHead t) xs (listTail t) (-1)" and dx: "distinct xs"
    using table_invD(1) [OF inv] by (auto simp: linked_def)
  have "card (set xs) \<le> card {..<tsize t}" using table_invD(6) [OF inv] by (intro card_mono) auto
  then have len: "length xs \<le> tsize t" using dx by (simp add: distinct_card)
  have "length [] + length xs \<le> length ?new" using n by simp
  moreover have "distinct (map (\<lambda>i. rkey (?new ! i)) [] @ map (\<lambda>i. rkey (?old ! i)) xs)"
    using slots_okD(5) [OF table_invD(2) [OF inv]] by simp
  ultimately obtain old' new' h' e' ws where
    run: "rehashLoop (tsize t) (listHead t) (?old, ?new, -1, -1) = Inr (old', new', h', e')"
    and f: "fresh_table new' h' e' ws" and ln: "length new' = n"
    and en: "entries new' ws = entries ?old xs"
    using rehashLoop_fresh [OF d dx fresh_table_init [of n] len] by (auto simp: entries_def)
  let ?t' = "t\<lparr>hashTable := new', listHead := h', listTail := e', numDeadEntries := 0\<rparr>"
  have sz: "length ws = length xs" using arg_cong [OF en, of length] by (simp add: entries_def)
  have "table_inv ?t' ws"
    unfolding table_inv_def
  proof (intro conjI)
    show "linked ?t' ws" using f slots_okD(4) by (auto simp: linked_def fresh_table_def)
    show "slots_ok (hashTable ?t') ws" using f by (simp add: fresh_table_def)
    show "counts_ok ?t' ws"
      using table_invD(3) [OF inv] f sz en by (simp add: counts_ok_def fresh_table_def)
    show "load_ok ?t'"
      using table_invD(3) [OF inv] n ln by (simp add: load_ok_def counts_ok_def tsize_def)
  qed
  moreover have "rehash n t = Inr ?t'" using run by (simp add: rehash_def)
  ultimately show ?thesis using en ln by (intro exI [of _ ?t'] exI [of _ ws]) (simp add: tsize_def)
qed

section \<open>Normalization\<close>

lemma load_factor1_iff: "of_int n > LOAD_FACTOR1 * of_nat m \<longleftrightarrow> 4 * n > int m"
proof -
  have "of_int n > LOAD_FACTOR1 * of_nat m \<longleftrightarrow> (of_int (4 * n) :: rat) > of_int (int m)"
    by (simp add: LOAD_FACTOR1_def field_simps)
  also have "\<dots> \<longleftrightarrow> 4 * n > int m" by (simp only: of_int_less_iff)
  finally show ?thesis .
qed

lemma load_factor2_iff: "of_int n > LOAD_FACTOR2 * of_nat m \<longleftrightarrow> 2 * n > int m"
proof -
  have "of_int n > LOAD_FACTOR2 * of_nat m \<longleftrightarrow> (of_int (2 * n) :: rat) > of_int (int m)"
    by (simp add: LOAD_FACTOR2_def field_simps)
  also have "\<dots> \<longleftrightarrow> 2 * n > int m" by (simp only: of_int_less_iff)
  finally show ?thesis .
qed

lemma growth_size: "nat \<lfloor>of_nat m * GROWTH_FACTOR\<rfloor> = 2 * m"
proof -
  have "(of_nat m * GROWTH_FACTOR :: rat) = of_int (2 * int m)" by (simp add: GROWTH_FACTOR_def)
  then show ?thesis by (simp only: floor_of_int)
qed


text \<open>The growth step: after it at most half of the slots are live.\<close>

lemma grow_inv:
  assumes inv: "table_inv t xs"
  shows "\<exists>t' ws. (if of_int (numEntries t) > LOAD_FACTOR1 * of_nat (tsize t)
      then rehash (nat \<lfloor>of_nat (tsize t) * GROWTH_FACTOR\<rfloor>) t else Inr t) = Inr t'
    \<and> table_inv t' ws \<and> entries (hashTable t') ws = entries (hashTable t) xs
    \<and> totalKeyValueSize t' = totalKeyValueSize t \<and> 2 * numEntries t' \<le> int (tsize t')
    \<and> self t' = self t \<and> statistics t' = statistics t \<and> table.more t' = table.more t"
proof (cases "4 * numEntries t > int (tsize t)")
  case True
  have "2 * length xs \<le> 2 * tsize t + 2" "10 \<le> 2 * tsize t"
    using table_invD(3,4) [OF inv] by (auto simp: load_ok_def counts_ok_def)
  from rehash_inv [OF inv this(2) this(1)] obtain t' ws where
    r: "rehash (2 * tsize t) t = Inr t'" "table_inv t' ws"
      "entries (hashTable t') ws = entries (hashTable t) xs" "tsize t' = 2 * tsize t"
      "numEntries t' = numEntries t" "totalKeyValueSize t' = totalKeyValueSize t"
      "self t' = self t" "statistics t' = statistics t" "table.more t' = table.more t" by blast
  have "2 * numEntries t' \<le> int (tsize t')"
    using r table_invD(3,4) [OF inv] by (auto simp: load_ok_def counts_ok_def)
  with r True show ?thesis unfolding load_factor1_iff growth_size by auto
next
  case False
  have "0 \<le> numEntries t" using table_invD(3) [OF inv] by (simp add: counts_ok_def)
  with False inv show ?thesis unfolding load_factor1_iff growth_size
    by (intro exI [of _ t] exI [of _ xs]) simp
qed

text \<open>The compaction step: after it at most half of the slots are in use.\<close>

lemma compact_inv:
  assumes inv: "table_inv t xs" and half: "2 * numEntries t \<le> int (tsize t)"
  shows "\<exists>t' ws. (if of_int (numEntries t + numDeadEntries t) > LOAD_FACTOR2 * of_nat (tsize t)
      then rehash (tsize t) t else Inr t) = Inr t'
    \<and> table_inv t' ws \<and> entries (hashTable t') ws = entries (hashTable t) xs
    \<and> totalKeyValueSize t' = totalKeyValueSize t
    \<and> 2 * (numEntries t' + numDeadEntries t') \<le> int (tsize t')
    \<and> self t' = self t \<and> statistics t' = statistics t \<and> table.more t' = table.more t"
proof (cases "2 * (numEntries t + numDeadEntries t) > int (tsize t)")
  case True
  have "2 * length xs \<le> tsize t + 2" using half table_invD(3) [OF inv] by (auto simp: counts_ok_def)
  from rehash_inv [OF inv table_invD(8) [OF inv] this] obtain t' ws where
    r: "rehash (tsize t) t = Inr t'" "table_inv t' ws"
      "entries (hashTable t') ws = entries (hashTable t) xs" "tsize t' = tsize t"
      "numEntries t' = numEntries t" "numDeadEntries t' = 0"
      "totalKeyValueSize t' = totalKeyValueSize t"
      "self t' = self t" "statistics t' = statistics t" "table.more t' = table.more t" by blast
  with True half show ?thesis unfolding load_factor2_iff by auto
next
  case False
  with inv show ?thesis unfolding load_factor2_iff by (intro exI [of _ t] exI [of _ xs]) simp
qed

lemma normalizeTable_inv:
  assumes inv: "table_inv t xs"
  shows "\<exists>t' ws. normalizeTable t = Inr t' \<and> table_inv t' ws
    \<and> entries (hashTable t') ws = lru_trim (entries (hashTable t) xs)
    \<and> getUsedMemory t' \<le> MEMORY_LIMIT
    \<and> 2 * (numEntries t' + numDeadEntries t') \<le> int (tsize t')
    \<and> self t' = self t \<and> table.more t' = table.more t
    \<and> statistics t' = (statistics t)\<lparr>numEvictions :=
        numEvictions (statistics t) + (int (length xs) - int (length ws))\<rparr>"
proof -
  from evictLoop_inv [OF inv] obtain t1 ys where
    t1: "evictLoop t = Inr t1" "table_inv t1 ys"
      "entries (hashTable t1) ys = lru_trim (entries (hashTable t) xs)"
      "getUsedMemory t1 \<le> MEMORY_LIMIT" "self t1 = self t" "table.more t1 = table.more t"
      "statistics t1 = (statistics t)\<lparr>numEvictions :=
        numEvictions (statistics t) + (int (length xs) - int (length ys))\<rparr>" by blast
  from grow_inv [OF t1(2)] obtain t2 zs where
    t2: "(if of_int (numEntries t1) > LOAD_FACTOR1 * of_nat (tsize t1)
        then rehash (nat \<lfloor>of_nat (tsize t1) * GROWTH_FACTOR\<rfloor>) t1 else Inr t1) = Inr t2"
      "table_inv t2 zs" "entries (hashTable t2) zs = entries (hashTable t1) ys"
      "totalKeyValueSize t2 = totalKeyValueSize t1" "2 * numEntries t2 \<le> int (tsize t2)"
      "self t2 = self t1" "statistics t2 = statistics t1" "table.more t2 = table.more t1" by blast
  from compact_inv [OF t2(2,5)] obtain t3 ws where
    t3: "(if of_int (numEntries t2 + numDeadEntries t2) > LOAD_FACTOR2 * of_nat (tsize t2)
        then rehash (tsize t2) t2 else Inr t2) = Inr t3"
      "table_inv t3 ws" "entries (hashTable t3) ws = entries (hashTable t2) zs"
      "totalKeyValueSize t3 = totalKeyValueSize t2"
      "2 * (numEntries t3 + numDeadEntries t3) \<le> int (tsize t3)"
      "self t3 = self t2" "statistics t3 = statistics t2" "table.more t3 = table.more t2" by blast
  have "normalizeTable t = Inr t3"
    unfolding normalizeTable_def t1(1) bindE_simps t2(1) t3(1) ..
  moreover have "length ws = length ys"
    using arg_cong [OF t3(3), of length] arg_cong [OF t2(3), of length] by (simp add: entries_def)
  ultimately show ?thesis using t1 t2 t3
    by (intro exI [of _ t3] exI [of _ ws]) (simp add: getUsedMemory_def)
qed

end
