(* ===== verification/LRU_Cache.thy ===== *)
theory LRU_Cache
  imports Hash_Table_Rehash
begin

text \<open>
  The abstract view of the storage: a list of entries with distinct keys, most recently used
  first. \<open>cache t\<close> reads it off a table by walking the links; \<open>table_ok t\<close> is the invariant. The
  locale \<open>recency_store\<close> is the contract the request handlers rely on, interpreted on the table
  operations.
\<close>

section \<open>The abstract cache\<close>

definition lru_keys :: "lru \<Rightarrow> string list" where
  "lru_keys es = map fst es"

definition lru_find :: "string \<Rightarrow> lru \<Rightarrow> (string \<times> version) option" where
  "lru_find k es = map_of es k"

definition lru_remove :: "string \<Rightarrow> lru \<Rightarrow> lru" where
  "lru_remove k es = filter (\<lambda>e. fst e \<noteq> k) es"

text \<open>Store an entry as the most recently used one, in place of any older one of the same key.\<close>

definition lru_store :: "string \<Rightarrow> string \<Rightarrow> version \<Rightarrow> lru \<Rightarrow> lru" where
  "lru_store k v ver es = (k, v, ver) # lru_remove k es"

definition lru_touch :: "string \<Rightarrow> lru \<Rightarrow> lru" where
  "lru_touch k es = (case lru_find k es of None \<Rightarrow> es | Some (v, ver) \<Rightarrow> lru_store k v ver es)"

lemma lru_find_store: "lru_find k' (lru_store k v ver es) = (if k' = k then Some (v, ver) else lru_find k' es)"
  by (induction es) (auto simp: lru_find_def lru_store_def lru_remove_def)

lemma lru_find_remove: "lru_find k' (lru_remove k es) = (if k' = k then None else lru_find k' es)"
  by (induction es) (auto simp: lru_find_def lru_remove_def)

lemma lru_find_touch: "lru_find k' (lru_touch k es) = lru_find k' es"
  by (auto simp: lru_touch_def lru_find_store split: option.splits)

lemma lru_find_None_iff: "lru_find k es = None \<longleftrightarrow> k \<notin> set (lru_keys es)"
  by (simp add: lru_find_def lru_keys_def map_of_eq_None_iff)

lemma lru_remove_absent: "k \<notin> set (lru_keys es) \<Longrightarrow> lru_remove k es = es"
  by (auto simp: lru_remove_def lru_keys_def filter_id_conv)

lemma lru_keys_remove: "lru_keys (lru_remove k es) = filter (\<lambda>k'. k' \<noteq> k) (lru_keys es)"
  by (simp add: lru_keys_def lru_remove_def filter_map comp_def)

lemma lru_keys_store: "lru_keys (lru_store k v ver es) = k # filter (\<lambda>k'. k' \<noteq> k) (lru_keys es)"
  by (simp add: lru_store_def lru_keys_remove [symmetric]) (simp add: lru_keys_def)

lemma lru_bytes_simps:
  "lru_bytes [] = 0"
  "lru_bytes (e # es) = entry_bytes e + lru_bytes es"
  "lru_bytes (es @ fs) = lru_bytes es + lru_bytes fs"
  by (simp_all add: lru_bytes_def)

lemma lru_bytes_remove_le: "lru_bytes (lru_remove k es) \<le> lru_bytes es"
  by (induction es) (auto simp: lru_bytes_def lru_remove_def)

section \<open>Trimming\<close>

lemma lru_trim_prefix: "\<exists>n. lru_trim es = take n es"
proof (induction es rule: lru_trim.induct)
  case (1 es)
  show ?case
  proof (cases "sint (of_nat (lru_bytes es) :: 32 word) > MEMORY_LIMIT")
    case True
    with 1 obtain n where "lru_trim (butlast es) = take n (butlast es)" by blast
    then have "lru_trim es = take (min n (length es - 1)) es"
      using True by (subst lru_trim.simps) (simp add: butlast_conv_take min.commute)
    then show ?thesis by blast
  next
    case False
    then have "lru_trim es = take (length es) es" by (subst lru_trim.simps) simp
    then show ?thesis by blast
  qed
qed

text \<open>Trimming stops at the longest prefix whose size passes the test.\<close>

lemma lru_trim_minimal:
  "\<exists>n. lru_trim es = take n es \<and> (\<forall>m. n < m \<longrightarrow> m \<le> length es \<longrightarrow>
     MEMORY_LIMIT < sint (of_nat (lru_bytes (take m es)) :: 32 word))"
proof (induction es rule: lru_trim.induct)
  case (1 es)
  show ?case
  proof (cases "sint (of_nat (lru_bytes es) :: 32 word) > MEMORY_LIMIT")
    case True
    with 1 obtain n where n: "lru_trim (butlast es) = take n (butlast es)"
      "\<And>m. n < m \<Longrightarrow> m \<le> length (butlast es) \<Longrightarrow>
         MEMORY_LIMIT < sint (of_nat (lru_bytes (take m (butlast es))) :: 32 word)" by blast
    let ?n = "min n (length es - 1)"
    have "lru_trim es = take ?n es"
      using True n(1) by (subst lru_trim.simps) (simp add: butlast_conv_take min.commute)
    moreover have "MEMORY_LIMIT < sint (of_nat (lru_bytes (take m es)) :: 32 word)"
      if "?n < m" "m \<le> length es" for m
    proof (cases "m = length es")
      case False
      then have "take m (butlast es) = take m es" using that by (simp add: butlast_conv_take)
      then show ?thesis using n(2) [of m] False that by (auto simp: min_def split: if_splits)
    qed (use True in simp)
    ultimately show ?thesis by blast
  next
    case False
    then have "lru_trim es = take (length es) es" by (subst lru_trim.simps) simp
    then show ?thesis by (intro exI [of _ "length es"]) auto
  qed
qed

lemma lru_bytes_take_le: "lru_bytes (take n es) \<le> lru_bytes es"
proof -
  have "lru_bytes es = lru_bytes (take n es) + lru_bytes (drop n es)"
    by (simp only: lru_bytes_simps(3) [symmetric] append_take_drop_id)
  then show ?thesis by simp
qed

text \<open>Within the range of the counter, trimming enforces the memory limit.\<close>

lemma lru_trim_limit: "sint (of_nat (lru_bytes (lru_trim es)) :: 32 word) \<le> MEMORY_LIMIT"
proof (induction es rule: lru_trim.induct)
  case (1 es)
  then show ?case
    by (cases "sint (of_nat (lru_bytes es) :: 32 word) > MEMORY_LIMIT")
       (auto simp: lru_trim.simps [of es])
qed

lemma lru_trim_bytes:
  assumes "lru_bytes es < 2 ^ 31"
  shows "int (lru_bytes (lru_trim es)) \<le> MEMORY_LIMIT"
proof -
  obtain n where "lru_trim es = take n es" using lru_trim_prefix by blast
  then have "lru_bytes (lru_trim es) < 2 ^ 31" using lru_bytes_take_le [of n es] assms by simp
  with lru_trim_limit [of es] show ?thesis by (simp add: sint_of_nat_small)
qed

lemma lru_trim_small: "lru_bytes es \<le> nat MEMORY_LIMIT \<Longrightarrow> lru_trim es = es"
proof -
  assume le: "lru_bytes es \<le> nat MEMORY_LIMIT"
  then have "lru_bytes es < 2 ^ 31" by (simp add: MEMORY_LIMIT_def)
  then have "\<not> sint (of_nat (lru_bytes es) :: 32 word) > MEMORY_LIMIT"
    using le by (simp add: sint_of_nat_small MEMORY_LIMIT_def)
  then show "lru_trim es = es" by (subst lru_trim.simps) simp
qed

section \<open>Reading the table\<close>

text \<open>The walk of the \<open>for (pos = listHead; pos != -1; pos = next)\<close> loops.\<close>

fun walk :: "nat \<Rightarrow> Record list \<Rightarrow> int \<Rightarrow> nat list" where
  "walk 0 tab i = []"
| "walk (Suc n) tab i =
     (if 0 \<le> i \<and> nat i < length tab then nat i # walk n tab (rnext (tab ! nat i)) else [])"

definition lru_positions :: "'a table_scheme \<Rightarrow> nat list" where
  "lru_positions t = walk (tsize t) (hashTable t) (listHead t)"

definition cache :: "'a table_scheme \<Rightarrow> lru" where
  "cache t = entries (hashTable t) (lru_positions t)"

definition table_ok :: "'a table_scheme \<Rightarrow> bool" where
  "table_ok t = table_inv t (lru_positions t)"

lemma walk_dll: "dll tab p h xs l (-1) \<Longrightarrow> length xs \<le> n \<Longrightarrow> walk n tab h = xs"
proof (induction xs arbitrary: n p h)
  case Nil
  then show ?case by (cases n) auto
next
  case (Cons x xs)
  then show ?case by (cases n) auto
qed

lemma lru_positions_inv:
  assumes "table_inv t xs"
  shows "lru_positions t = xs"
proof -
  have "card (set xs) \<le> card {..<tsize t}" using table_invD(6) [OF assms] by (intro card_mono) auto
  then have "length xs \<le> tsize t" using table_invD(5) [OF assms] by (simp add: distinct_card)
  with table_invD(1) [OF assms] show ?thesis
    by (auto simp: lru_positions_def linked_def intro: walk_dll)
qed

lemma table_inv_cache:
  assumes "table_inv t xs"
  shows "table_ok t" "cache t = entries (hashTable t) xs"
  using assms by (simp_all add: table_ok_def cache_def lru_positions_inv)

lemma table_okE:
  assumes "table_ok t"
  obtains xs where "table_inv t xs" "cache t = entries (hashTable t) xs"
  using assms by (auto simp: table_ok_def cache_def)

text \<open>Below \<open>2 ^ 31\<close> bytes the counter is the size of the cache.\<close>

lemma getUsedMemory_cache:
  assumes "table_ok t" "lru_bytes (cache t) < 2 ^ 31"
  shows "getUsedMemory t = int (lru_bytes (cache t))"
proof -
  obtain xs where inv: "table_inv t xs" and c: "cache t = entries (hashTable t) xs"
    using assms(1) by (rule table_okE)
  from table_invD(3) [OF inv] assms(2) show ?thesis
    by (simp add: counts_ok_def getUsedMemory_def c sint_of_nat_small)
qed

lemma cache_keys_distinct: "table_ok t \<Longrightarrow> distinct (lru_keys (cache t))"
proof (elim table_okE)
  fix xs
  assume "table_inv t xs" "cache t = entries (hashTable t) xs"
  then show ?thesis
    using slots_okD(5) [OF table_invD(2)] by (simp add: lru_keys_def entries_def entry_at_def comp_def)
qed

text \<open>The slot of a stored key, and the entries around it.\<close>

lemma cache_split:
  assumes inv: "table_inv t xs" and f: "lru_find k (entries (hashTable t) xs) = Some (v, ver)"
  obtains ys x zs where "xs = ys @ x # zs" "entry_at (hashTable t) x = (k, v, ver)"
    "getPosition k t = Inr (int x)" "readRec (int x) t = Inr (hashTable t ! x)"
    "rstate (hashTable t ! x) = ALIVE" "x < tsize t"
    "lru_remove k (entries (hashTable t) xs) = entries (hashTable t) (ys @ zs)"
proof -
  from f have "(k, v, ver) \<in> set (entries (hashTable t) xs)"
    unfolding lru_find_def by (rule map_of_SomeD)
  then obtain x where x: "x \<in> set xs" "entry_at (hashTable t) x = (k, v, ver)"
    by (auto simp: entries_def)
  then obtain ys zs where xs: "xs = ys @ x # zs" by (meson split_list)
  have ok: "slots_ok (hashTable t) xs" using table_invD(2) [OF inv] .
  have kx: "rkey (hashTable t ! x) = k" using x(2) by (simp add: entry_at_def)
  have "rkey (hashTable t ! y) \<noteq> k" if "y \<in> set ys \<union> set zs" for y
    using slots_okD(6) [OF ok, of y x] slots_okD(4) [OF ok] that kx x(1) by (auto simp: xs)
  then have rm: "lru_remove k (entries (hashTable t) xs) = entries (hashTable t) (ys @ zs)"
    using kx by (auto simp: xs lru_remove_def entries_def entry_at_def filter_map comp_def filter_id_conv)
  from that [OF xs x(2) getPosition_hit [OF ok x(1) kx]] rm x(1) table_invD(6,7) [OF inv]
  show ?thesis by simp
qed

lemma cache_miss:
  assumes inv: "table_inv t xs" and f: "lru_find k (entries (hashTable t) xs) = None"
  obtains j where "j < tsize t" "getPosition k t = Inr (int (slot k j (tsize t)))"
    "slot k j (tsize t) < tsize t" "rstate (hashTable t ! slot k j (tsize t)) = EMPTY"
    "\<forall>i<j. rstate (hashTable t ! slot k i (tsize t)) \<noteq> EMPTY"
    "\<forall>i\<in>set xs. rkey (hashTable t ! i) \<noteq> k"
proof -
  have new: "\<forall>i\<in>set xs. rkey (hashTable t ! i) \<noteq> k"
    using f by (auto simp: lru_find_None_iff lru_keys_def entries_def entry_at_def)
  obtain e where "e < tsize t" "rstate (hashTable t ! e) = EMPTY" using free_slot [OF inv] by blast
  from getPosition_miss [OF table_invD(2) [OF inv] new this] obtain j where
    j: "j < tsize t" "getPosition k t = Inr (int (slot k j (tsize t)))"
      "rstate (hashTable t ! slot k j (tsize t)) = EMPTY"
      "\<forall>i<j. rstate (hashTable t ! slot k i (tsize t)) \<noteq> EMPTY" by blast
  have "slot k j (tsize t) < tsize t" by (rule slot_less) (use j(1) in arith)
  from that [OF j(1,2) this j(3,4) new] show ?thesis .
qed


section \<open>The contract of the storage\<close>

text \<open>
  What the handlers of the server rely on when they work on the table through positions: where a
  key is found, and what touching and removing an entry do to the abstract cache. \<open>frame\<close> is the
  part of the state these operations leave alone.
\<close>

locale recency_store =
  fixes ok :: "'s \<Rightarrow> bool"
    and abs :: "'s \<Rightarrow> lru"
    and frame :: "'s \<Rightarrow> 'f"
    and position :: "string \<Rightarrow> 's \<Rightarrow> int res"
    and fetch :: "int \<Rightarrow> 's \<Rightarrow> Record res"
    and access :: "int \<Rightarrow> 's \<Rightarrow> 's res"
    and remove :: "int \<Rightarrow> 's \<Rightarrow> 's res"
  assumes hit: "ok s \<Longrightarrow> lru_find k (abs s) = Some (v, ver) \<Longrightarrow>
      \<exists>p r. position k s = Inr p \<and> fetch p s = Inr r \<and> rstate r = ALIVE \<and>
        rkey r = k \<and> rvalue r = v \<and> rversion r = ver"
    and miss: "ok s \<Longrightarrow> lru_find k (abs s) = None \<Longrightarrow>
      \<exists>p r. position k s = Inr p \<and> fetch p s = Inr r \<and> rstate r = EMPTY"
    and access_hit: "ok s \<Longrightarrow> lru_find k (abs s) \<noteq> None \<Longrightarrow> position k s = Inr p \<Longrightarrow>
      \<exists>s'. access p s = Inr s' \<and> ok s' \<and> abs s' = lru_touch k (abs s) \<and> frame s' = frame s"
    and remove_hit: "ok s \<Longrightarrow> lru_find k (abs s) \<noteq> None \<Longrightarrow> position k s = Inr p \<Longrightarrow>
      \<exists>s'. remove p s = Inr s' \<and> ok s' \<and> abs s' = lru_remove k (abs s) \<and> frame s' = frame s"
begin

lemma position_live:
  assumes "ok s"
  shows "\<exists>p r. position k s = Inr p \<and> fetch p s = Inr r \<and>
    (rstate r = ALIVE \<longleftrightarrow> lru_find k (abs s) \<noteq> None)"
proof (cases "lru_find k (abs s)")
  case None
  obtain p r where "position k s = Inr p" "fetch p s = Inr r" "rstate r = EMPTY"
    using miss [OF assms None] by blast
  with None show ?thesis by auto
next
  case (Some e)
  obtain v ver where "e = (v, ver)" by (cases e)
  with Some hit [OF assms, of k v ver] show ?thesis by auto
qed

text \<open>One iteration of an invalidation loop: look the key up and remove it if it is there.\<close>

lemma remove_if_live:
  assumes "ok s"
  shows "\<exists>s'. bindE (position k s) (\<lambda>p. bindE (fetch p s) (\<lambda>r.
      if rstate r \<noteq> ALIVE then Inr s else remove p s)) = Inr s'
    \<and> ok s' \<and> abs s' = lru_remove k (abs s) \<and> frame s' = frame s"
proof -
  obtain p r where pr: "position k s = Inr p" "fetch p s = Inr r"
    "rstate r = ALIVE \<longleftrightarrow> lru_find k (abs s) \<noteq> None"
    using position_live [OF assms] by blast
  show ?thesis
  proof (cases "lru_find k (abs s) = None")
    case True
    then show ?thesis using pr assms by (simp add: lru_find_None_iff lru_remove_absent)
  next
    case False
    then show ?thesis using pr remove_hit [OF assms False pr(1)] by auto
  qed
qed

lemma remove_all:
  assumes "ok s"
  shows "\<exists>s'. foldE (\<lambda>k s. bindE (position k s) (\<lambda>p. bindE (fetch p s) (\<lambda>r.
      if rstate r \<noteq> ALIVE then Inr s else remove p s))) ks s = Inr s'
    \<and> ok s' \<and> abs s' = filter (\<lambda>e. fst e \<notin> set ks) (abs s) \<and> frame s' = frame s"
  using assms
proof (induction ks arbitrary: s)
  case Nil
  then show ?case by simp
next
  case (Cons k ks)
  from remove_if_live [OF Cons.prems, of k] obtain s1 where
    s1: "bindE (position k s) (\<lambda>p. bindE (fetch p s) (\<lambda>r.
      if rstate r \<noteq> ALIVE then Inr s else remove p s)) = Inr s1"
    "ok s1" "abs s1 = lru_remove k (abs s)" "frame s1 = frame s" by blast
  from Cons.IH [OF s1(2)] obtain s2 where
    s2: "foldE (\<lambda>k s. bindE (position k s) (\<lambda>p. bindE (fetch p s) (\<lambda>r.
      if rstate r \<noteq> ALIVE then Inr s else remove p s))) ks s1 = Inr s2"
    "ok s2" "abs s2 = filter (\<lambda>e. fst e \<notin> set ks) (abs s1)" "frame s2 = frame s1" by blast
  have "filter (\<lambda>e. fst e \<notin> set ks) (lru_remove k (abs s)) = filter (\<lambda>e. fst e \<notin> set (k # ks)) (abs s)"
    by (simp add: lru_remove_def conj_commute)
  then show ?case using s1 s2 by simp
qed

end

lemma entry_at_fields:
  "entry_at tab x = (k, v, ver) \<longleftrightarrow> rkey (tab ! x) = k \<and> rvalue (tab ! x) = v \<and> rversion (tab ! x) = ver"
  by (auto simp: entry_at_def)

lemma table_access:
  assumes "table_ok t" "lru_find k (cache t) \<noteq> None" "getPosition k t = Inr p"
  shows "\<exists>t'. accessEntry p t = Inr t' \<and> table_ok t' \<and> cache t' = lru_touch k (cache t)
    \<and> self t' = self t \<and> statistics t' = statistics t \<and> table.more t' = table.more t"
proof -
  obtain xs where inv: "table_inv t xs" and c: "cache t = entries (hashTable t) xs"
    using assms(1) by (rule table_okE)
  obtain v ver where f: "lru_find k (entries (hashTable t) xs) = Some (v, ver)" using assms(2) c by auto
  obtain ys x zs where x: "xs = ys @ x # zs" "entry_at (hashTable t) x = (k, v, ver)"
    "getPosition k t = Inr (int x)" "x < tsize t"
    "lru_remove k (entries (hashTable t) xs) = entries (hashTable t) (ys @ zs)"
    using cache_split [OF inv f] by metis
  obtain tab h e where a: "accessEntry (int x) t = Inr (t\<lparr>hashTable := tab, listHead := h, listTail := e\<rparr>)"
    "table_inv (t\<lparr>hashTable := tab, listHead := h, listTail := e\<rparr>) (x # ys @ zs)"
    "content tab = content (hashTable t)"
    using accessEntry_inv inv unfolding x(1) by blast
  have "entries tab (x # ys @ zs) = entries (hashTable t) (x # ys @ zs)"
    using table_invD(6) [OF inv] x(1) by (intro entries_content [OF a(3)]) (auto simp: tsize_def)
  then have "cache (t\<lparr>hashTable := tab, listHead := h, listTail := e\<rparr>) = lru_touch k (cache t)"
    using table_inv_cache(2) [OF a(2)] x f c by (simp add: lru_touch_def lru_store_def entries_Cons)
  with a table_inv_cache(1) [OF a(2)] x(3) assms(3) show ?thesis by auto
qed

lemma table_remove:
  assumes "table_ok t" "lru_find k (cache t) \<noteq> None" "getPosition k t = Inr p"
  shows "\<exists>t'. removeEntry p t = Inr t' \<and> table_ok t' \<and> cache t' = lru_remove k (cache t)
    \<and> self t' = self t \<and> statistics t' = statistics t \<and> table.more t' = table.more t"
proof -
  obtain xs where inv: "table_inv t xs" and c: "cache t = entries (hashTable t) xs"
    using assms(1) by (rule table_okE)
  obtain v ver where f: "lru_find k (entries (hashTable t) xs) = Some (v, ver)" using assms(2) c by auto
  obtain ys x zs where x: "xs = ys @ x # zs" "getPosition k t = Inr (int x)"
    "lru_remove k (entries (hashTable t) xs) = entries (hashTable t) (ys @ zs)"
    using cache_split [OF inv f] by metis
  from inv have "table_inv t (ys @ x # zs)" by (simp add: x(1))
  from removeEntry_inv [OF this] x c assms(3) show ?thesis
    by (auto simp: table_inv_cache)
qed

interpretation storage: recency_store table_ok cache "\<lambda>t. (self t, statistics t, table.more t)"
  getPosition readRec accessEntry removeEntry
proof unfold_locales
  fix t :: "'a table_scheme" and k v ver p
  assume ok: "table_ok t"
  then obtain xs where inv: "table_inv t xs" and c: "cache t = entries (hashTable t) xs"
    by (rule table_okE)
  show "\<exists>p r. getPosition k t = Inr p \<and> readRec p t = Inr r \<and> rstate r = ALIVE \<and>
        rkey r = k \<and> rvalue r = v \<and> rversion r = ver" if "lru_find k (cache t) = Some (v, ver)"
    using cache_split [OF inv that [unfolded c]] by (metis entry_at_fields)
  show "\<exists>p r. getPosition k t = Inr p \<and> readRec p t = Inr r \<and> rstate r = EMPTY" if "lru_find k (cache t) = None"
    using cache_miss [OF inv that [unfolded c]] by (metis readRec_int)
  show "\<exists>t'. accessEntry p t = Inr t' \<and> table_ok t' \<and> cache t' = lru_touch k (cache t) \<and>
      (self t', statistics t', table.more t') = (self t, statistics t, table.more t)"
    if "lru_find k (cache t) \<noteq> None" "getPosition k t = Inr p"
    using table_access [OF ok that] by auto
  show "\<exists>t'. removeEntry p t = Inr t' \<and> table_ok t' \<and> cache t' = lru_remove k (cache t) \<and>
      (self t', statistics t', table.more t') = (self t, statistics t, table.more t)"
    if "lru_find k (cache t) \<noteq> None" "getPosition k t = Inr p"
    using table_remove [OF ok that] by auto
qed

end
