(* ===== verification/KV_Server.thy ===== *)
theory KV_Server
  imports LRU_Cache
begin

text \<open>
  The request handlers and background threads of a cache server (\<open>class KVStorageHandler\<close> in
  \<open>prototype/server.cpp\<close>), each as one function on the handler state. A handler either returns a
  value and a state, or fails with an \<open>exn\<close> in some state: an exception that leaves a
  \<open>std::mutex\<close> locked leaves it locked in that state. Remote calls are arguments: what the call
  returned, or the exception it threw. Console output is not modelled.
\<close>

section \<open>State\<close>

record kvstate = table +
  currentView :: GetServersReply
  diffs :: "(Server, string list) smap"
  hashMutex :: bool
  currentViewMutex :: bool
  vsAddress :: string
  vsPort :: int

type_synonym 'a outcome = "(exn \<times> kvstate) + 'a"

definition raise_in :: "kvstate \<Rightarrow> 'a res \<Rightarrow> 'a outcome" where
  "raise_in s m = (case m of Inl e \<Rightarrow> Inl (e, s) | Inr x \<Rightarrow> Inr x)"

definition lock_hash :: "kvstate \<Rightarrow> kvstate outcome" where
  "lock_hash s = (if hashMutex s then Inl (Blocked, s) else Inr (s\<lparr>hashMutex := True\<rparr>))"

definition unlock_hash :: "kvstate \<Rightarrow> kvstate" where
  "unlock_hash s = s\<lparr>hashMutex := False\<rparr>"

definition lock_view :: "kvstate \<Rightarrow> kvstate outcome" where
  "lock_view s = (if currentViewMutex s then Inl (Blocked, s) else Inr (s\<lparr>currentViewMutex := True\<rparr>))"

definition unlock_view :: "kvstate \<Rightarrow> kvstate" where
  "unlock_view s = s\<lparr>currentViewMutex := False\<rparr>"

text \<open>
  The constructor: the registration call it makes to the view service, and the state it builds when
  that call returns (an exception leaves the constructor).
\<close>

datatype registration = AddServer Server | AddReplica Server Server

definition register_call :: "Server \<Rightarrow> string \<Rightarrow> int \<Rightarrow> registration" where
  "register_call srv masterAddress masterPort =
     (if masterAddress = [] then AddServer srv else AddReplica srv (Server masterAddress masterPort))"

definition new_KVStorageHandler ::
    "unit res \<Rightarrow> string \<Rightarrow> int \<Rightarrow> string \<Rightarrow> int \<Rightarrow> kvstate res" where
  "new_KVStorageHandler rpc address port vsAddr vsP =
     bindE rpc (\<lambda>_.
     Inr (table.extend (init_table (Server address port))
       (kvstate.fields new_GetServersReply [] False False vsAddr vsP)))"

section \<open>View changes\<close>

text \<open>
  \<open>std::map::erase(it)\<close> inside a loop that goes on with \<open>++it\<close> increments an iterator whose node has
  been freed: undefined behaviour. The argument \<open>links_kept\<close> says whether the freed node still
  leads to its successor on the platform at hand; if it does not, the loop ends in
  \<open>InvalidIterator\<close>.
\<close>

fun eraseLoop ::
    "bool \<Rightarrow> ('k \<Rightarrow> bool) \<Rightarrow> ('k, 'v) smap \<Rightarrow> ('k, 'v) smap \<Rightarrow> ('k, 'v) smap res" where
  "eraseLoop links_kept drop_it [] m = Inr m"
| "eraseLoop links_kept drop_it (e # rest) m =
     (if drop_it (fst e)
      then (if links_kept then eraseLoop links_kept drop_it rest (smap_erase (fst e) m)
            else Inl InvalidIterator)
      else eraseLoop links_kept drop_it rest m)"

text \<open>The keys met by walking the list, with the walk's own failures.\<close>

fun walkKeys :: "nat \<Rightarrow> int \<Rightarrow> 'a table_scheme \<Rightarrow> string list res" where
  "walkKeys fuel pos t =
     (if pos = -1 then Inr []
      else (case fuel of
              0 \<Rightarrow> Inl Diverges
            | Suc n \<Rightarrow>
                bindE (readRec pos t) (\<lambda>r.
                bindE (walkKeys n (rnext r) t) (\<lambda>ks. Inr (rkey r # ks)))))"

declare walkKeys.simps [simp del]

text \<open>\<open>diffs[s].insert(key)\<close>.\<close>

definition addDiff :: "Server \<Rightarrow> string \<Rightarrow> (Server, string list) smap \<Rightarrow> (Server, string list) smap" where
  "addDiff s key m = smap_modify [] (sset_insert key) s m"

text \<open>\<open>adjustVersion(hashTable[pos].version, servers)\<close>.\<close>

definition adjustVersion :: "bool \<Rightarrow> int \<Rightarrow> Server list \<Rightarrow> kvstate \<Rightarrow> kvstate res" where
  "adjustVersion links_kept pos servers s =
     bindE (modRec pos (\<lambda>r. r\<lparr>rversion := restrictVersion servers (rversion r)\<rparr>) s) (\<lambda>s1.
     bindE (foldE (\<lambda>srv s.
              if smap_find (diffs s) srv = None \<and> srv \<noteq> self s
              then bindE (walkKeys (tsize s) (listHead s) s) (\<lambda>ks.
                   Inr (s\<lparr>diffs := fold (addDiff srv) ks (diffs s)\<rparr>))
              else Inr s) servers s1) (\<lambda>s2.
     bindE (eraseLoop links_kept (\<lambda>srv. srv \<notin> set servers) (diffs s2) (diffs s2)) (\<lambda>m.
     Inr (s2\<lparr>diffs := m\<rparr>))))"

text \<open>The loop of \<open>cleanHash\<close>; after a removal it goes on with the link of the slot just reset.\<close>

fun cleanLoop :: "bool \<Rightarrow> nat \<Rightarrow> int \<Rightarrow> kvstate \<Rightarrow> kvstate outcome" where
  "cleanLoop links_kept fuel pos s =
     (if pos = -1 then Inr s
      else (case fuel of
              0 \<Rightarrow> Inl (Diverges, s)
            | Suc n \<Rightarrow>
                bindE (raise_in s (readRec pos s)) (\<lambda>r.
                bindE (raise_in s (getServer (ir_hash (rkey r)) (gs_view (currentView s)))) (\<lambda>supposed.
                bindE (if self s \<in> set supposed
                       then raise_in s (adjustVersion links_kept pos supposed s)
                       else bindE (raise_in s (removeEntry pos s)) (\<lambda>s1.
                            Inr (s1\<lparr>statistics := (statistics s1)\<lparr>numPurges :=
                                   numPurges (statistics s1) + 1\<rparr>\<rparr>))) (\<lambda>s2.
                bindE (raise_in s2 (readRec pos s2)) (\<lambda>r2.
                cleanLoop links_kept n (rnext r2) s2))))))"

declare cleanLoop.simps [simp del]

definition cleanHash :: "bool \<Rightarrow> kvstate \<Rightarrow> kvstate outcome" where
  "cleanHash links_kept s =
     bindE (lock_hash s) (\<lambda>s1.
     bindE (cleanLoop links_kept (tsize s1) (listHead s1) s1) (\<lambda>s2.
     Inr (unlock_hash s2)))"

text \<open>
  Install the view a ping returned; purge if its number is new. The two are separate critical
  sections. View numbers are unbounded here; the C++ \<open>int\<close> counts the views of a run.
\<close>

definition setView :: "GetServersReply \<Rightarrow> kvstate \<Rightarrow> (bool \<times> kvstate) outcome" where
  "setView v s =
     bindE (lock_view s) (\<lambda>s1.
     Inr (gs_viewNum (currentView s1) \<noteq> gs_viewNum v, unlock_view (s1\<lparr>currentView := v\<rparr>)))"

definition installView :: "bool \<Rightarrow> GetServersReply \<Rightarrow> kvstate \<Rightarrow> kvstate outcome" where
  "installView links_kept v s =
     bindE (setView v s) (\<lambda>(needToClean, s2).
     if needToClean then cleanHash links_kept s2 else Inr s2)"

text \<open>
  One round of \<open>pingViewService\<close>. \<open>catch (...)\<close> swallows C++ exceptions; a failed assertion, undefined
  behaviour, an endless loop and a blocked lock are not exceptions.
\<close>

definition is_exception :: "exn \<Rightarrow> bool" where
  "is_exception e = (e = EmptyRingException \<or> e = TTransportException)"

definition catch_all :: "kvstate outcome \<Rightarrow> kvstate outcome" where
  "catch_all m =
     (case m of Inr s \<Rightarrow> Inr s | Inl (e, s) \<Rightarrow> if is_exception e then Inr s else Inl (e, s))"

definition pingViewService :: "bool \<Rightarrow> GetServersReply res \<Rightarrow> kvstate \<Rightarrow> kvstate outcome" where
  "pingViewService links_kept rpc s =
     catch_all (bindE (raise_in s rpc) (\<lambda>v. installView links_kept v s))"

text \<open>\<open>checkServer\<close>: \<open>rpc\<close> is what a \<open>receivePing\<close> call would return if it is made.\<close>

definition checkServer ::
    "bool \<Rightarrow> GetServersReply res \<Rightarrow> int \<Rightarrow> string \<Rightarrow> kvstate \<Rightarrow> (bool \<times> kvstate) outcome" where
  "checkServer links_kept rpc viewNum key s =
     bindE (lock_view s) (\<lambda>s1.
     let cv = currentView s1; s2 = unlock_view s1 in
     if viewNum < gs_viewNum cv then Inr (False, s2)
     else if viewNum > gs_viewNum cv
     then bindE (raise_in s2 rpc) (\<lambda>v.
          bindE (installView links_kept v s2) (\<lambda>s3.
          if viewNum \<noteq> gs_viewNum v then Inr (False, s3)
          else bindE (raise_in s3 (getServer (ir_hash key) (gs_view v))) (\<lambda>supposed.
               Inr (self s3 \<in> set supposed, s3))))
     else bindE (raise_in s2 (getServer (ir_hash key) (gs_view cv))) (\<lambda>supposed.
          Inr (self s2 \<in> set supposed, s2)))"


section \<open>Client requests\<close>

text \<open>The update branch of \<open>put\<close>, on a live slot: value, version, size and order of use.\<close>

definition updateEntry :: "int \<Rightarrow> string \<Rightarrow> 'a table_scheme \<Rightarrow> 'a table_scheme res" where
  "updateEntry pos val t =
     bindE (readRec pos t) (\<lambda>r.
     bindE (modRec pos (\<lambda>q. q\<lparr>rvalue := val, rversion := bumpVersion (self t) (rversion q)\<rparr>) t) (\<lambda>t1.
     let t2 = t1\<lparr>totalKeyValueSize :=
                   totalKeyValueSize t1 - of_nat (length (rvalue r)) + of_nat (length val)\<rparr>;
         t3 = t2\<lparr>statistics := (statistics t2)\<lparr>numUpdates := numUpdates (statistics t2) + 1\<rparr>\<rparr>
     in accessEntry pos t3))"

definition insertEntry :: "int \<Rightarrow> string \<Rightarrow> string \<Rightarrow> 'a table_scheme \<Rightarrow> 'a table_scheme res" where
  "insertEntry pos key val t =
     addEntry pos key val
       (t\<lparr>statistics := (statistics t)\<lparr>numInsertions := numInsertions (statistics t) + 1\<rparr>\<rparr>)"

text \<open>The table part of \<open>put\<close>, under \<open>hashMutex\<close>.\<close>

definition putTable :: "string \<Rightarrow> string \<Rightarrow> 'a table_scheme \<Rightarrow> 'a table_scheme res" where
  "putTable key val t =
     bindE (normalizeTable t) (\<lambda>t1.
     bindE (getPosition key t1) (\<lambda>pos.
     bindE (readRec pos t1) (\<lambda>r.
     if rstate r = ALIVE then updateEntry pos val t1 else insertEntry pos key val t1)))"

text \<open>\<open>put\<close> after \<open>checkServer\<close> has accepted the request.\<close>

definition putAccepted :: "PutArgs \<Rightarrow> kvstate \<Rightarrow> (PutReply \<times> kvstate) outcome" where
  "putAccepted query s =
     bindE (lock_hash s) (\<lambda>s1.
     bindE (raise_in s1 (putTable (pa_key query) (pa_value query) s1)) (\<lambda>s2.
     bindE (lock_view s2) (\<lambda>s3.
     bindE (raise_in s3 (getServer (ir_hash (pa_key query)) (gs_view (currentView s3)))) (\<lambda>servers.
     let s4 = unlock_view s3;
         s5 = s4\<lparr>diffs := fold (\<lambda>srv m. if srv = self s4 then m else addDiff srv (pa_key query) m)
                          servers (diffs s4)\<rparr>
     in Inr (\<lparr>pr_status = OK\<rparr>, unlock_hash s5)))))"

definition put :: "bool \<Rightarrow> GetServersReply res \<Rightarrow> PutArgs \<Rightarrow> kvstate \<Rightarrow> (PutReply \<times> kvstate) outcome" where
  "put links_kept rpc query s =
     bindE (checkServer links_kept rpc (pa_viewNum query) (pa_key query) s) (\<lambda>(ok, s1).
     if \<not> ok then Inr (\<lparr>pr_status = WRONG_SERVER\<rparr>, s1) else putAccepted query s1)"

text \<open>The table part of \<open>get\<close>: the value if the key is stored.\<close>

definition getTable :: "string \<Rightarrow> 'a table_scheme \<Rightarrow> (string option \<times> 'a table_scheme) res" where
  "getTable key t =
     bindE (getPosition key t) (\<lambda>pos.
     bindE (readRec pos t) (\<lambda>r.
     if rstate r = ALIVE
     then bindE (accessEntry pos
            (t\<lparr>statistics := (statistics t)\<lparr>numGoodGets := numGoodGets (statistics t) + 1\<rparr>\<rparr>)) (\<lambda>t1.
          Inr (Some (rvalue r), t1))
     else Inr (None,
            t\<lparr>statistics := (statistics t)\<lparr>numFailedGets := numFailedGets (statistics t) + 1\<rparr>\<rparr>)))"

definition getAccepted :: "GetArgs \<Rightarrow> kvstate \<Rightarrow> (GetReply \<times> kvstate) outcome" where
  "getAccepted query s =
     bindE (lock_hash s) (\<lambda>s1.
     bindE (raise_in s1 (getTable (ga_key query) s1)) (\<lambda>(v, s2).
     Inr (case v of
            Some x \<Rightarrow> \<lparr>gr_status = OK, gr_value = x\<rparr>
          | None \<Rightarrow> new_GetReply\<lparr>gr_status := NO_KEY\<rparr>, unlock_hash s2)))"

definition get :: "bool \<Rightarrow> GetServersReply res \<Rightarrow> GetArgs \<Rightarrow> kvstate \<Rightarrow> (GetReply \<times> kvstate) outcome" where
  "get links_kept rpc query s =
     bindE (checkServer links_kept rpc (ga_viewNum query) (ga_key query) s) (\<lambda>(ok, s1).
     if \<not> ok then Inr (new_GetReply\<lparr>gr_status := WRONG_SERVER\<rparr>, s1) else getAccepted query s1)"

text \<open>\<open>sizeof(Record)\<close> is a constant of the platform.\<close>

definition getStatistics :: "int \<Rightarrow> 'a table_scheme \<Rightarrow> GetStatisticsReply \<times> 'a table_scheme" where
  "getStatistics sizeof_Record t =
     (let st = (statistics t)\<lparr>dataSize := getUsedMemory t,
                               memoryOverhead := sizeof_Record * int (tsize t)\<rparr>
      in (st, t\<lparr>statistics := st\<rparr>))"

section \<open>Anti-entropy\<close>

text \<open>The replacing branch of \<open>propagate\<close>: the sender's entry is newer.\<close>

definition replaceEntry :: "int \<Rightarrow> string \<Rightarrow> version \<Rightarrow> 'a table_scheme \<Rightarrow> 'a table_scheme res" where
  "replaceEntry pos val v t =
     bindE (readRec pos t) (\<lambda>r.
     bindE (modRec pos (\<lambda>q. q\<lparr>rvalue := val\<rparr>) t) (\<lambda>t1.
     bindE (accessEntry pos
              (t1\<lparr>totalKeyValueSize :=
                   totalKeyValueSize t1 - of_nat (length (rvalue r)) + of_nat (length val)\<rparr>)) (\<lambda>t2.
     modRec pos (\<lambda>q. q\<lparr>rversion := v\<rparr>) t2)))"

definition propagate ::
    "Entry \<Rightarrow> 'a table_scheme \<times> string list \<Rightarrow> ('a table_scheme \<times> string list) res" where
  "propagate entry st =
     (case st of (t, invalidated) \<Rightarrow>
      bindE (normalizeTable t) (\<lambda>t1.
      bindE (getPosition (en_key entry) t1) (\<lambda>pos.
      bindE (readRec pos t1) (\<lambda>r.
      if rstate r = ALIVE
      then (let v = version_of_entry (en_version entry) in
            if atMost v (rversion r) then Inr (t1, invalidated)
            else if atMost (rversion r) v
            then bindE (replaceEntry pos (en_value entry) v t1) (\<lambda>t2. Inr (t2, invalidated))
            else if en_value entry = rvalue r
            then bindE (modRec pos (\<lambda>q. q\<lparr>rversion := maximumVersion v (rversion q)\<rparr>) t1)
                   (\<lambda>t2. Inr (t2, invalidated))
            else bindE (removeEntry pos t1) (\<lambda>t2. Inr (t2, invalidated @ [rkey r])))
      else bindE (addEntryVersion pos (en_key entry) (en_value entry) (en_version entry) t1)
             (\<lambda>t2. Inr (t2, invalidated))))))"

text \<open>The handler of the \<open>antiEntropy\<close> call.\<close>

definition antiEntropy :: "AntiEntropyArgs \<Rightarrow> kvstate \<Rightarrow> (AntiEntropyReply \<times> kvstate) outcome" where
  "antiEntropy query s =
     bindE (lock_view s) (\<lambda>s1.
     let ok = (gs_viewNum (currentView s1) = ae_viewNum query); s2 = unlock_view s1 in
     if \<not> ok then Inr (new_AntiEntropyReply\<lparr>ar_status := WRONG_SERVER\<rparr>, s2)
     else bindE (lock_hash s2) (\<lambda>s3.
          bindE (raise_in s3 (foldE propagate (ae_entries query) (s3, []))) (\<lambda>(s4, invalidated).
          Inr (\<lparr>ar_status = OK, ar_invalidatedEntries = invalidated\<rparr>, unlock_hash s4))))"

text \<open>
  A round of \<open>antiEntropyHandler\<close> releases \<open>hashMutex\<close> around the remote call, so it is two
  definitions: what happens before the call, with its result (the chosen replica and the arguments,
  if some replica has pending keys), and what happens after it.
\<close>

definition collectEntry :: "string \<Rightarrow> 'a table_scheme \<Rightarrow> Entry list \<Rightarrow> Entry list res" where
  "collectEntry key t es =
     bindE (getPosition key t) (\<lambda>pos.
     bindE (readRec pos t) (\<lambda>r.
     Inr (if rstate r \<noteq> ALIVE then es
          else es @ [\<lparr>en_key = rkey r, en_value = rvalue r,
                      en_version = entry_of_version (rversion r)\<rparr>])))"

definition antiEntropyBegin :: "kvstate \<Rightarrow> ((Server \<times> AntiEntropyArgs) option \<times> kvstate) outcome" where
  "antiEntropyBegin s =
     bindE (lock_hash s) (\<lambda>s1.
     case List.find (\<lambda>it. snd it \<noteq> []) (diffs s1) of
       None \<Rightarrow> Inr (None, unlock_hash s1)
     | Some it \<Rightarrow>
         bindE (lock_view s1) (\<lambda>s2.
         let viewNum = gs_viewNum (currentView s2); s3 = unlock_view s2 in
         bindE (raise_in s3 (foldE (\<lambda>key es. collectEntry key s3 es) (snd it) [])) (\<lambda>es.
         Inr (Some (fst it, \<lparr>ae_entries = es, ae_viewNum = viewNum\<rparr>), unlock_hash s3))))"

definition removeIfAlive :: "string \<Rightarrow> 'a table_scheme \<Rightarrow> 'a table_scheme res" where
  "removeIfAlive key t =
     bindE (getPosition key t) (\<lambda>pos. bindE (readRec pos t) (\<lambda>r.
     if rstate r \<noteq> ALIVE then Inr t else removeEntry pos t))"

text \<open>
  \<open>diffs.erase(it)\<close> after the call: the iterator is valid only if no other thread has erased the
  element while \<open>hashMutex\<close> was released, which \<open>erased\<close> tells: an entry for the same replica that has
  been inserted again since is another element.
\<close>

definition antiEntropyEnd :: "bool \<Rightarrow> Server \<Rightarrow> AntiEntropyReply res \<Rightarrow> kvstate \<Rightarrow> kvstate outcome" where
  "antiEntropyEnd erased replica rpc s =
     (let reply = (case rpc of
                     Inl _ \<Rightarrow> new_AntiEntropyReply\<lparr>ar_status := WRONG_SERVER\<rparr>
                   | Inr r \<Rightarrow> r) in
      bindE (lock_hash s) (\<lambda>s1.
      bindE (if ar_status reply = OK
             then bindE (raise_in s1 (guardE InvalidIterator (\<not> erased \<and> smap_find (diffs s1) replica \<noteq> None))) (\<lambda>_.
                  let s2 = s1\<lparr>diffs := smap_erase replica (diffs s1)\<rparr> in
                  raise_in s2 (foldE removeIfAlive (ar_invalidatedEntries reply) s2))
             else Inr s1) (\<lambda>s3.
      Inr (unlock_hash s3))))"

end
