(* ===== verification/KV_Storage_Proofs.thy ===== *)
theory KV_Storage_Proofs
  imports KV_Server
begin

text \<open>
  The table parts of the handlers refine operations on the abstract cache: \<open>putTable\<close> implements
  \<open>lru_put\<close> after trimming, \<open>getTable\<close> a lookup that touches the entry, \<open>propagate\<close> the merge
  \<open>lru_merge\<close> of one entry a replica sent.
\<close>

section \<open>Specifications\<close>

definition lru_put :: "Server \<Rightarrow> string \<Rightarrow> string \<Rightarrow> lru \<Rightarrow> lru" where
  "lru_put s k v es =
     lru_store k v (bumpVersion s (case lru_find k es of None \<Rightarrow> [] | Some (_, ver) \<Rightarrow> ver)) es"

text \<open>Overwrite value and version in place, without touching the order.\<close>

definition lru_assign :: "string \<Rightarrow> string \<Rightarrow> version \<Rightarrow> lru \<Rightarrow> lru" where
  "lru_assign k v ver es = map (\<lambda>e. if fst e = k then (k, v, ver) else e) es"

text \<open>
  Merging an entry of a replica: a dominated entry is ignored, a dominating one replaces the stored
  one, concurrent entries with the same value keep the value, and a conflict removes the entry
  (the second component says so).
\<close>

definition lru_merge :: "string \<Rightarrow> string \<Rightarrow> version \<Rightarrow> lru \<Rightarrow> lru \<times> bool" where
  "lru_merge k v w es =
     (case lru_find k es of
        None \<Rightarrow> (lru_store k v w es, False)
      | Some (v0, w0) \<Rightarrow>
          if atMost w w0 then (es, False)
          else if atMost w0 w then (lru_store k v w es, False)
          else if v = v0 then (lru_assign k v (maximumVersion w w0) es, False)
          else (lru_remove k es, True))"

section \<open>Rewriting a slot\<close>

lemma lru_assign_split:
  assumes "\<forall>e\<in>set as. fst e \<noteq> k" "\<forall>e\<in>set bs. fst e \<noteq> k"
  shows "lru_assign k v w (as @ (k, v0, w0) # bs) = as @ (k, v, w) # bs"
    and "lru_remove k (as @ (k, v0, w0) # bs) = as @ bs"
  using assms by (auto simp: lru_assign_def lru_remove_def map_idI filter_id_conv)

lemma table_inv_statistics [simp]: "table_inv (t\<lparr>statistics := st\<rparr>) xs = table_inv t xs"
  by (simp add: table_inv_def linked_def counts_ok_def load_ok_def)

lemma table_ok_statistics [simp]:
  "table_ok (t\<lparr>statistics := st\<rparr>) = table_ok t" "cache (t\<lparr>statistics := st\<rparr>) = cache t"
  by (simp_all add: table_ok_def cache_def lru_positions_def)

lemma getPosition_statistics [simp]: "getPosition k (t\<lparr>statistics := st\<rparr>) = getPosition k t"
  by (simp add: getPosition_def)

lemma readRec_statistics [simp]: "readRec p (t\<lparr>statistics := st\<rparr>) = readRec p t"
  by (simp add: readRec_def)

lemma split_keys:
  assumes inv: "table_inv t (ys @ x # zs)" and x: "rkey (hashTable t ! x) = k"
  shows "\<forall>e\<in>set (entries (hashTable t) ys). fst e \<noteq> k" "\<forall>e\<in>set (entries (hashTable t) zs). fst e \<noteq> k"
  using slots_okD(4,5,6) [OF table_invD(2) [OF inv]] x
  by (auto simp: entries_def entry_at_def)

lemma entries_split: "entries tab (ys @ x # zs) = entries tab ys @ entry_at tab x # entries tab zs"
  by (simp add: entries_append entries_Cons)

text \<open>The update branch of \<open>put\<close>.\<close>

lemma updateEntry_inv:
  assumes inv: "table_inv t (ys @ x # zs)" and x: "entry_at (hashTable t) x = (k, v0, w0)"
  shows "\<exists>t'. updateEntry (int x) v t = Inr t' \<and> table_inv t' (x # ys @ zs)
    \<and> entries (hashTable t') (x # ys @ zs) =
        lru_store k v (bumpVersion (self t) w0) (entries (hashTable t) (ys @ x # zs))
    \<and> self t' = self t \<and> table.more t' = table.more t
    \<and> statistics t' = (statistics t)\<lparr>numUpdates := numUpdates (statistics t) + 1\<rparr>"
proof -
  let ?ver = "bumpVersion (self t) w0"
  have f: "rkey (hashTable t ! x) = k" "rvalue (hashTable t ! x) = v0" "rversion (hashTable t ! x) = w0"
    using x by (simp_all add: entry_at_fields)
  have xl: "x < tsize t" using table_invD(6) [OF inv] by auto
  let ?r = "(hashTable t ! x)\<lparr>rvalue := v, rversion := ?ver\<rparr>"
  let ?t1 = "t\<lparr>hashTable := (hashTable t)[x := ?r],
    totalKeyValueSize := totalKeyValueSize t - of_nat (length v0) + of_nat (length v)\<rparr>"
  let ?t2 = "?t1\<lparr>statistics := (statistics t)\<lparr>numUpdates := numUpdates (statistics t) + 1\<rparr>\<rparr>"
  have i1: "table_inv ?t1 (ys @ x # zs)"
    and e1: "entries (hashTable ?t1) (ys @ x # zs) =
      entries (hashTable t) ys @ (k, v, ?ver) # entries (hashTable t) zs"
    using rewrite_inv [OF inv, of v ?ver] by (simp_all only: f)
  have "table_inv ?t2 (ys @ x # zs)" using i1 by simp
  from accessEntry_inv [OF this] obtain tab h e where
    a: "accessEntry (int x) ?t2 = Inr (?t2\<lparr>hashTable := tab, listHead := h, listTail := e\<rparr>)"
      "table_inv (?t2\<lparr>hashTable := tab, listHead := h, listTail := e\<rparr>) (x # ys @ zs)"
      "content tab = content (hashTable ?t2)" by blast
  have "entries tab (x # ys @ zs) = entries (hashTable ?t1) (x # ys @ zs)"
    using table_invD(6) [OF i1] a(3) by (intro entries_content) (auto simp: tsize_def)
  also have "\<dots> = (k, v, ?ver) # entries (hashTable t) (ys @ zs)"
    using e1 by (simp add: entries_Cons entries_append)
  also have "\<dots> = lru_store k v ?ver (entries (hashTable t) (ys @ x # zs))"
    unfolding lru_store_def entries_split x lru_assign_split(2) [OF split_keys [OF inv f(1)]]
    by (simp add: entries_append)
  finally have "entries tab (x # ys @ zs) = lru_store k v ?ver (entries (hashTable t) (ys @ x # zs))" .
  moreover have "updateEntry (int x) v t = Inr (?t2\<lparr>hashTable := tab, listHead := h, listTail := e\<rparr>)"
    using a(1) xl f by (simp add: updateEntry_def Let_def)
  ultimately show ?thesis using a(2) by auto
qed

text \<open>The replacing branch of \<open>propagate\<close>.\<close>

lemma replaceEntry_inv:
  assumes inv: "table_inv t (ys @ x # zs)" and x: "entry_at (hashTable t) x = (k, v0, w0)"
  shows "\<exists>t'. replaceEntry (int x) v w t = Inr t' \<and> table_inv t' (x # ys @ zs)
    \<and> entries (hashTable t') (x # ys @ zs) = lru_store k v w (entries (hashTable t) (ys @ x # zs))
    \<and> self t' = self t \<and> table.more t' = table.more t \<and> statistics t' = statistics t"
proof -
  have f: "rkey (hashTable t ! x) = k" "rvalue (hashTable t ! x) = v0" "rversion (hashTable t ! x) = w0"
    using x by (simp_all add: entry_at_fields)
  have xl: "x < tsize t" using table_invD(6) [OF inv] by auto
  let ?r = "(hashTable t ! x)\<lparr>rvalue := v, rversion := w0\<rparr>"
  let ?t1 = "t\<lparr>hashTable := (hashTable t)[x := ?r],
    totalKeyValueSize := totalKeyValueSize t - of_nat (length v0) + of_nat (length v)\<rparr>"
  have r: "?r = (hashTable t ! x)\<lparr>rvalue := v\<rparr>" using f(3) by (cases "hashTable t ! x") simp
  have i1: "table_inv ?t1 (ys @ x # zs)"
    and e1: "entries (hashTable ?t1) (ys @ x # zs) =
      entries (hashTable t) ys @ (k, v, w0) # entries (hashTable t) zs"
    using rewrite_inv [OF inv, of v w0] by (simp_all only: f)
  from accessEntry_inv [OF i1] obtain tab h e where
    a: "accessEntry (int x) ?t1 = Inr (?t1\<lparr>hashTable := tab, listHead := h, listTail := e\<rparr>)"
      "table_inv (?t1\<lparr>hashTable := tab, listHead := h, listTail := e\<rparr>) (x # ys @ zs)"
      "content tab = content (hashTable ?t1)" by blast
  let ?t2 = "?t1\<lparr>hashTable := tab, listHead := h, listTail := e\<rparr>"
  have e2: "entries tab (x # ys @ zs) = (k, v, w0) # entries (hashTable t) (ys @ zs)"
  proof -
    have "entries tab (x # ys @ zs) = entries (hashTable ?t1) (x # ys @ zs)"
      using table_invD(6) [OF i1] a(3) by (intro entries_content) (auto simp: tsize_def)
    then show ?thesis using e1 by (simp add: entries_Cons entries_append)
  qed
  then have f2: "rvalue (tab ! x) = v" "rkey (tab ! x) = k" by (simp_all add: entries_Cons entry_at_fields)
  let ?r2 = "(tab ! x)\<lparr>rvalue := v, rversion := w\<rparr>"
  have r2: "?r2 = (tab ! x)\<lparr>rversion := w\<rparr>" using f2(1) by (cases "tab ! x") simp
  let ?t3 = "?t2\<lparr>hashTable := tab[x := (tab ! x)\<lparr>rversion := w\<rparr>]\<rparr>"
  have "table_inv ?t2 ([] @ x # ys @ zs)" using a(2) by simp
  note rw = rewrite_inv [OF this, of v w]
  have t3: "?t2\<lparr>hashTable := (hashTable ?t2)[x := (hashTable ?t2 ! x)\<lparr>rvalue := v, rversion := w\<rparr>],
      totalKeyValueSize := totalKeyValueSize ?t2 - of_nat (length (rvalue (hashTable ?t2 ! x)))
        + of_nat (length v)\<rparr> = ?t3"
    using f2(1) by (intro table.equality) (simp_all add: arg_cong [OF r2])
  have i3: "table_inv ?t3 (x # ys @ zs)" using rw(1) unfolding t3 by simp
  have e3: "entries (hashTable ?t3) (x # ys @ zs) = (k, v, w) # entries tab (ys @ zs)"
    using rw(2) f2 unfolding t3 by simp
  have "entries tab (ys @ zs) = entries (hashTable t) (ys @ zs)" using e2 by (simp add: entries_Cons)
  then have "entries (hashTable ?t3) (x # ys @ zs) = lru_store k v w (entries (hashTable t) (ys @ x # zs))"
    unfolding e3 lru_store_def entries_split x lru_assign_split(2) [OF split_keys [OF inv f(1)]]
    by (simp add: entries_append)
  moreover have "replaceEntry (int x) v w t = Inr ?t3"
    using a(1) xl f r content_length [OF a(3)] by (simp add: replaceEntry_def tsize_def)
  ultimately show ?thesis using i3 by (intro exI [of _ ?t3]) simp
qed


text \<open>A slot whose version alone is overwritten.\<close>

lemma setVersion_inv:
  assumes inv: "table_inv t (ys @ x # zs)" and x: "entry_at (hashTable t) x = (k, v0, w0)"
  shows "\<exists>t'. modRec (int x) (\<lambda>q. q\<lparr>rversion := w\<rparr>) t = Inr t' \<and> table_inv t' (ys @ x # zs)
    \<and> entries (hashTable t') (ys @ x # zs) = lru_assign k v0 w (entries (hashTable t) (ys @ x # zs))
    \<and> self t' = self t \<and> table.more t' = table.more t \<and> statistics t' = statistics t"
proof -
  have f: "rkey (hashTable t ! x) = k" "rvalue (hashTable t ! x) = v0"
    using x by (simp_all add: entry_at_fields)
  have xl: "x < tsize t" using table_invD(6) [OF inv] by auto
  let ?t' = "t\<lparr>hashTable := (hashTable t)[x := (hashTable t ! x)\<lparr>rversion := w\<rparr>]\<rparr>"
  have r: "(hashTable t ! x)\<lparr>rvalue := v0, rversion := w\<rparr> = (hashTable t ! x)\<lparr>rversion := w\<rparr>"
    using f(2) by (cases "hashTable t ! x") simp
  have t': "t\<lparr>hashTable := (hashTable t)[x := (hashTable t ! x)\<lparr>rvalue := v0, rversion := w\<rparr>],
      totalKeyValueSize := totalKeyValueSize t - of_nat (length (rvalue (hashTable t ! x)))
        + of_nat (length v0)\<rparr> = ?t'"
    using f(2) by (intro table.equality) (simp_all add: arg_cong [OF r])
  note rw = rewrite_inv [OF inv, of v0 w]
  have "table_inv ?t' (ys @ x # zs)" using rw(1) unfolding t' .
  moreover have e: "entries (hashTable ?t') (ys @ x # zs)
      = entries (hashTable t) ys @ (k, v0, w) # entries (hashTable t) zs"
    using rw(2) unfolding t' f(1) .
  have "entries (hashTable ?t') (ys @ x # zs)
      = lru_assign k v0 w (entries (hashTable t) (ys @ x # zs))"
    unfolding e unfolding entries_split x lru_assign_split(1) [OF split_keys [OF inv f(1)]] ..
  moreover have "modRec (int x) (\<lambda>q. q\<lparr>rversion := w\<rparr>) t = Inr ?t'" using xl by simp
  ultimately show ?thesis by (intro exI [of _ ?t']) simp
qed

section \<open>Refinement of the table operations\<close>

text \<open>The part of the state that only the handlers themselves change.\<close>

lemma normalize_refines:
  assumes "table_ok t"
  shows "\<exists>t'. normalizeTable t = Inr t' \<and> table_ok t' \<and> cache t' = lru_trim (cache t)
    \<and> getUsedMemory t' \<le> MEMORY_LIMIT
    \<and> 2 * (numEntries t' + numDeadEntries t') \<le> int (tsize t')
    \<and> self t' = self t \<and> table.more t' = table.more t
    \<and> statistics t' = (statistics t)\<lparr>numEvictions := numEvictions (statistics t) +
        (int (length (cache t)) - int (length (lru_trim (cache t))))\<rparr>"
proof -
  obtain xs where inv: "table_inv t xs" and c: "cache t = entries (hashTable t) xs"
    using assms by (rule table_okE)
  from normalizeTable_inv [OF inv] obtain t' ws where n: "normalizeTable t = Inr t'" "table_inv t' ws"
    "entries (hashTable t') ws = lru_trim (entries (hashTable t) xs)" "getUsedMemory t' \<le> MEMORY_LIMIT"
    "2 * (numEntries t' + numDeadEntries t') \<le> int (tsize t')" "self t' = self t"
    "table.more t' = table.more t"
    "statistics t' = (statistics t)\<lparr>numEvictions :=
        numEvictions (statistics t) + (int (length xs) - int (length ws))\<rparr>" by blast
  have "length (lru_trim (entries (hashTable t) xs)) = length ws"
    using arg_cong [OF n(3), of length] by simp
  with n table_inv_cache [OF n(2)] show ?thesis unfolding c by (intro exI [of _ t']) simp
qed

definition frame_eq :: "'a table_scheme \<Rightarrow> 'a table_scheme \<Rightarrow> bool" where
  "frame_eq t t' \<longleftrightarrow> self t' = self t \<and> table.more t' = table.more t"

lemma frame_eq_trans: "frame_eq t u \<Longrightarrow> frame_eq u v \<Longrightarrow> frame_eq t v"
  by (simp add: frame_eq_def)

lemma putTable_refines:
  fixes t :: "'a table_scheme"
  assumes ok: "table_ok t"
  shows "\<exists>t'. putTable k v t = Inr t' \<and> table_ok t' \<and>
    cache t' = lru_put (self t) k v (lru_trim (cache t)) \<and> frame_eq t t'"
proof -
  from normalize_refines [OF ok] obtain t1 where n: "normalizeTable t = Inr t1" "table_ok t1"
    "cache t1 = lru_trim (cache t)" "2 * (numEntries t1 + numDeadEntries t1) \<le> int (tsize t1)"
    "self t1 = self t" "table.more t1 = table.more t" by blast
  obtain xs where inv: "table_inv t1 xs" and c: "cache t1 = entries (hashTable t1) xs"
    using n(2) by (rule table_okE)
  show ?thesis
  proof (cases "lru_find k (cache t1)")
    case None
    then obtain j where j: "j < tsize t1" "getPosition k t1 = Inr (int (slot k j (tsize t1)))"
      "slot k j (tsize t1) < tsize t1" "rstate (hashTable t1 ! slot k j (tsize t1)) = EMPTY"
      "\<forall>i<j. rstate (hashTable t1 ! slot k i (tsize t1)) \<noteq> EMPTY"
      "\<forall>i\<in>set xs. rkey (hashTable t1 ! i) \<noteq> k"
      using cache_miss [OF inv] c by metis
    let ?u = "t1\<lparr>statistics := (statistics t1)\<lparr>numInsertions := numInsertions (statistics t1) + 1\<rparr>\<rparr>"
    have "table_inv ?u xs" using inv by simp
    from addEntry_inv [OF this, of k j v] j n(4) obtain t2 where
      t2: "insertEntry (int (slot k j (tsize t1))) k v t1 = Inr t2"
        "table_inv t2 (slot k j (tsize t1) # xs)"
        "entries (hashTable t2) (slot k j (tsize t1) # xs) = (k, v, [(self t1, 1)]) # cache t1"
        "self t2 = self t1" "table.more t2 = table.more t1"
      unfolding insertEntry_def c by auto
    have "lru_remove k (cache t1) = cache t1"
      using None by (simp add: lru_find_None_iff lru_remove_absent)
    then have "lru_put (self t) k v (cache t1) = (k, v, [(self t1, 1)]) # cache t1"
      using n(5) by (simp add: lru_put_def lru_store_def None)
    then show ?thesis using n t2 j table_inv_cache [OF t2(2)]
      by (intro exI [of _ t2]) (simp add: putTable_def frame_eq_def)
  next
    case (Some e)
    obtain v0 w0 where e: "e = (v0, w0)" by (cases e)
    have f: "lru_find k (entries (hashTable t1) xs) = Some (v0, w0)" using Some e c by simp
    obtain ys x zs where x: "xs = ys @ x # zs" "entry_at (hashTable t1) x = (k, v0, w0)"
      "getPosition k t1 = Inr (int x)" "readRec (int x) t1 = Inr (hashTable t1 ! x)"
      "rstate (hashTable t1 ! x) = ALIVE"
      using cache_split [OF inv f] by metis
    have "table_inv t1 (ys @ x # zs)" using inv x(1) by simp
    from updateEntry_inv [OF this x(2), of v] obtain t2 where
      t2: "updateEntry (int x) v t1 = Inr t2" "table_inv t2 (x # ys @ zs)"
        "entries (hashTable t2) (x # ys @ zs) = lru_store k v (bumpVersion (self t1) w0) (cache t1)"
        "self t2 = self t1" "table.more t2 = table.more t1"
      unfolding c x(1) by blast
    have "lru_put (self t) k v (cache t1) = lru_store k v (bumpVersion (self t1) w0) (cache t1)"
      using Some e n(5) by (simp add: lru_put_def)
    then show ?thesis using n t2 x table_inv_cache [OF t2(2)]
      by (intro exI [of _ t2]) (simp add: putTable_def frame_eq_def)
  qed
qed

lemma getTable_refines:
  assumes ok: "table_ok t"
  shows "\<exists>t'. getTable k t = Inr (map_option fst (lru_find k (cache t)), t') \<and> table_ok t' \<and>
    cache t' = lru_touch k (cache t) \<and> frame_eq t t'"
proof (cases "lru_find k (cache t)")
  case None
  from storage.miss [OF ok None] obtain p r where
    "getPosition k t = Inr p" "readRec p t = Inr r" "rstate r = EMPTY" by blast
  then show ?thesis using ok None by (simp add: getTable_def lru_touch_def frame_eq_def)
next
  case (Some e)
  obtain v ver where e: "e = (v, ver)" by (cases e)
  from storage.hit [OF ok Some [unfolded e]] obtain p r where
    pr: "getPosition k t = Inr p" "readRec p t = Inr r" "rstate r = ALIVE" "rvalue r = v" by blast
  let ?u = "t\<lparr>statistics := (statistics t)\<lparr>numGoodGets := numGoodGets (statistics t) + 1\<rparr>\<rparr>"
  have "table_ok ?u" "lru_find k (cache ?u) \<noteq> None" "getPosition k ?u = Inr p"
    using ok Some pr by simp_all
  from storage.access_hit [OF this] obtain t1 where
    "accessEntry p ?u = Inr t1" "table_ok t1" "cache t1 = lru_touch k (cache t)"
    "self t1 = self t" "table.more t1 = table.more t" by auto
  then show ?thesis using Some e pr by (simp add: getTable_def frame_eq_def)
qed


section \<open>Refinement of the merge\<close>

lemma addEntryVersion_refines:
  assumes inv: "table_inv t xs" and f: "lru_find k (entries (hashTable t) xs) = None"
    and load: "2 * (numEntries t + numDeadEntries t) \<le> int (tsize t)"
    and p: "getPosition k t = Inr p"
  shows "\<exists>t'. addEntryVersion p k v vs t = Inr t' \<and> table_ok t' \<and>
    cache t' = lru_store k v (version_of_entry vs) (entries (hashTable t) xs) \<and> frame_eq t t'"
proof -
  let ?w = "version_of_entry vs"
  obtain j where j: "j < tsize t" "getPosition k t = Inr (int (slot k j (tsize t)))"
    "rstate (hashTable t ! slot k j (tsize t)) = EMPTY"
    "\<forall>i<j. rstate (hashTable t ! slot k i (tsize t)) \<noteq> EMPTY"
    "\<forall>i\<in>set xs. rkey (hashTable t ! i) \<noteq> k"
    using cache_miss [OF inv f] by metis
  let ?x = "slot k j (tsize t)"
  obtain t1 where t1: "addEntry (int ?x) k v t = Inr t1" "table_inv t1 (?x # xs)"
    "entries (hashTable t1) (?x # xs) = (k, v, [(self t, 1)]) # entries (hashTable t) xs"
    "self t1 = self t" "table.more t1 = table.more t"
    using addEntry_inv [OF inv j(5,1,3,4) load] by blast
  have "table_inv t1 ([] @ ?x # xs)" "entry_at (hashTable t1) ?x = (k, v, [(self t, 1)])"
    using t1(2,3) by (simp_all add: entries_Cons)
  from setVersion_inv [OF this, of ?w] obtain t2 where
    t2: "modRec (int ?x) (\<lambda>q. q\<lparr>rversion := ?w\<rparr>) t1 = Inr t2" "table_inv t2 (?x # xs)"
      "entries (hashTable t2) (?x # xs) = lru_assign k v ?w (entries (hashTable t1) (?x # xs))"
      "self t2 = self t1" "table.more t2 = table.more t1" by auto
  have keys: "\<forall>e\<in>set (entries (hashTable t) xs). fst e \<noteq> k"
    using j(5) by (auto simp: entries_def entry_at_def)
  have "cache t2 = lru_store k v ?w (entries (hashTable t) xs)"
    using table_inv_cache(2) [OF t2(2)] t2(3) t1(3) keys
      lru_assign_split(1) [of "[]" k "entries (hashTable t) xs" v ?w v "[(self t, 1)]"]
    by (simp add: lru_store_def lru_remove_def filter_id_conv)
  then show ?thesis using t1 t2 table_inv_cache(1) [OF t2(2)] p j(2)
    by (intro exI [of _ t2]) (simp add: addEntryVersion_def frame_eq_def)
qed

lemma propagate_refines:
  fixes t :: "'a table_scheme" and e :: Entry
  assumes ok: "table_ok t"
  defines "m \<equiv> lru_merge (en_key e) (en_value e) (version_of_entry (en_version e)) (lru_trim (cache t))"
  shows "\<exists>t'. propagate e (t, ks) = Inr (t', if snd m then ks @ [en_key e] else ks) \<and> table_ok t' \<and>
    cache t' = fst m \<and> frame_eq t t'"
proof -
  let ?k = "en_key e" and ?v = "en_value e" and ?w = "version_of_entry (en_version e)"
  from normalize_refines [OF ok] obtain t1 where n: "normalizeTable t = Inr t1" "table_ok t1"
    "cache t1 = lru_trim (cache t)" "2 * (numEntries t1 + numDeadEntries t1) \<le> int (tsize t1)"
    "self t1 = self t" "table.more t1 = table.more t" by blast
  have fr1: "frame_eq t t1" using n by (simp add: frame_eq_def)
  obtain xs where tinv: "table_inv t1 xs" and c: "cache t1 = entries (hashTable t1) xs"
    using n(2) by (rule table_okE)
  have m: "m = lru_merge ?k ?v ?w (cache t1)" by (simp add: m_def n(3))
  show ?thesis
  proof (cases "lru_find ?k (cache t1)")
    case None
    from storage.miss [OF n(2) None] obtain p r where
      pr: "getPosition ?k t1 = Inr p" "readRec p t1 = Inr r" "rstate r = EMPTY" by blast
    from addEntryVersion_refines [OF tinv None [unfolded c] n(4) pr(1), of ?v "en_version e"]
    obtain t2 where t2: "addEntryVersion p ?k ?v (en_version e) t1 = Inr t2" "table_ok t2"
      "cache t2 = lru_store ?k ?v ?w (cache t1)" "frame_eq t1 t2" unfolding c by blast
    have "m = (lru_store ?k ?v ?w (cache t1), False)" by (simp add: m lru_merge_def None)
    then show ?thesis using n(1) pr t2 frame_eq_trans [OF fr1 t2(4)]
      by (simp add: propagate_def)
  next
    case (Some e0)
    obtain v0 w0 where e0: "e0 = (v0, w0)" by (cases e0)
    have f: "lru_find ?k (entries (hashTable t1) xs) = Some (v0, w0)" using Some e0 c by simp
    obtain ys x zs where x: "xs = ys @ x # zs" "entry_at (hashTable t1) x = (?k, v0, w0)"
      "getPosition ?k t1 = Inr (int x)" "readRec (int x) t1 = Inr (hashTable t1 ! x)"
      "rstate (hashTable t1 ! x) = ALIVE"
      using cache_split [OF tinv f] by metis
    have r: "rkey (hashTable t1 ! x) = ?k" "rvalue (hashTable t1 ! x) = v0" "rversion (hashTable t1 ! x) = w0"
      using x(2) by (simp_all add: entry_at_fields)
    have xinv: "table_inv t1 (ys @ x # zs)" using tinv x(1) by simp
    have mm: "m = (if atMost ?w w0 then (cache t1, False)
        else if atMost w0 ?w then (lru_store ?k ?v ?w (cache t1), False)
        else if ?v = v0 then (lru_assign ?k ?v (maximumVersion ?w w0) (cache t1), False)
        else (lru_remove ?k (cache t1), True))"
      by (simp add: m lru_merge_def Some e0)
    note run = propagate_def n(1) x(3-5) r
    consider (skip) "atMost ?w w0" | (repl) "\<not> atMost ?w w0" "atMost w0 ?w"
      | (same) "\<not> atMost ?w w0" "\<not> atMost w0 ?w" "?v = v0"
      | (conflict) "\<not> atMost ?w w0" "\<not> atMost w0 ?w" "?v \<noteq> v0" by blast
    then show ?thesis
    proof cases
      case skip
      then show ?thesis using n(2) fr1 by (intro exI [of _ t1]) (simp add: run mm Let_def)
    next
      case repl
      from replaceEntry_inv [OF xinv x(2), of ?v ?w] obtain t2 where
        t2: "replaceEntry (int x) ?v ?w t1 = Inr t2" "table_inv t2 (x # ys @ zs)"
        "entries (hashTable t2) (x # ys @ zs) = lru_store ?k ?v ?w (cache t1)" "frame_eq t1 t2"
        unfolding c x(1) frame_eq_def by blast
      then show ?thesis using repl table_inv_cache [OF t2(2)] frame_eq_trans [OF fr1 t2(4)]
        by (intro exI [of _ t2]) (simp add: run mm Let_def)
    next
      case same
      from setVersion_inv [OF xinv x(2), of "maximumVersion ?w w0"] obtain t2 where
        t2: "modRec (int x) (\<lambda>q. q\<lparr>rversion := maximumVersion ?w w0\<rparr>) t1 = Inr t2"
        "table_inv t2 (ys @ x # zs)"
        "entries (hashTable t2) (ys @ x # zs) = lru_assign ?k v0 (maximumVersion ?w w0) (cache t1)"
        "frame_eq t1 t2" unfolding c x(1) frame_eq_def by blast
      then show ?thesis using same table_inv_cache [OF t2(2)] frame_eq_trans [OF fr1 t2(4)]
        by (intro exI [of _ t2]) (simp add: run mm Let_def maximumVersion_Nil)
    next
      case conflict
      from table_remove [OF n(2) _ x(3)] Some obtain t2 where
        "removeEntry (int x) t1 = Inr t2" "table_ok t2" "cache t2 = lru_remove ?k (cache t1)"
        "frame_eq t1 t2" unfolding frame_eq_def by blast
      then show ?thesis using conflict frame_eq_trans [OF fr1]
        by (intro exI [of _ t2]) (simp add: run mm Let_def)
    qed
  qed
qed

end
