(* ===== verification/KV_Handlers.thy ===== *)
theory KV_Handlers
  imports KV_Storage_Proofs
begin

text \<open>
  The handlers as a whole: the invariant of the server state, that every handler keeps it on every
  branch, exceptions included, and that none of them can trip an assertion, index the table out of
  range, divide by zero or loop forever.
\<close>

section \<open>The invariant of the server\<close>

definition diffs_ok :: "(Server, string list) smap \<Rightarrow> bool" where
  "diffs_ok m = (smap_ok m \<and> list_all (\<lambda>e. sorted_wrt (<) (snd e)) m)"

definition kv_inv :: "kvstate \<Rightarrow> bool" where
  "kv_inv s = (table_ok s \<and> diffs_ok (diffs s))"

text \<open>
  The failures a server cannot rule out by itself: C++ exceptions, an invalidated iterator and a
  lock that is never released. The other ones are excluded by the invariant.
\<close>

definition benign :: "exn \<Rightarrow> bool" where
  "benign e = (e \<in> {EmptyRingException, TTransportException, InvalidIterator, Blocked})"

definition safe :: "('a \<Rightarrow> kvstate) \<Rightarrow> 'a outcome \<Rightarrow> bool" where
  "safe st m = (case m of Inr x \<Rightarrow> kv_inv (st x) | Inl (e, s) \<Rightarrow> benign e \<and> kv_inv s)"

lemma benign_simps [simp]:
  "benign EmptyRingException" "benign TTransportException" "benign InvalidIterator" "benign Blocked"
  "\<not> benign AssertFailed" "\<not> benign OutOfRange" "\<not> benign DivByZero" "\<not> benign Diverges"
  by (simp_all add: benign_def)

lemma safe_simps [simp]:
  "safe st (Inr x) = kv_inv (st x)"
  "safe st (Inl (e, s)) = (benign e \<and> kv_inv s)"
  by (simp_all add: safe_def)

lemma safe_bindE:
  assumes "safe st m" "\<And>x. m = Inr x \<Longrightarrow> kv_inv (st x) \<Longrightarrow> safe st' (f x)"
  shows "safe st' (bindE m f)"
  using assms by (cases m) auto

lemma raise_in_simps [simp]: "raise_in s (Inr x) = Inr x" "raise_in s (Inl e) = Inl (e, s)"
  by (simp_all add: raise_in_def)

text \<open>Only the table and the pending differences matter for the invariant.\<close>

lemma table_inv_more:
  assumes "hashTable s' = hashTable s" "listHead s' = listHead s" "listTail s' = listTail s"
    "totalKeyValueSize s' = totalKeyValueSize s" "numEntries s' = numEntries s"
    "numDeadEntries s' = numDeadEntries s"
  shows "table_inv s' xs = table_inv s xs" "table_ok s' = table_ok s" "cache s' = cache s"
  using assms
  by (simp_all add: table_inv_def table_ok_def cache_def lru_positions_def linked_def counts_ok_def
      load_ok_def tsize_def)

lemma kv_fields_other [simp]:
  "cache (s\<lparr>hashMutex := b\<rparr>) = cache s" "table_ok (s\<lparr>hashMutex := b\<rparr>) = table_ok s"
  "cache (s\<lparr>currentViewMutex := b\<rparr>) = cache s" "table_ok (s\<lparr>currentViewMutex := b\<rparr>) = table_ok s"
  "cache (s\<lparr>currentView := v\<rparr>) = cache s" "table_ok (s\<lparr>currentView := v\<rparr>) = table_ok s"
  "cache (s\<lparr>diffs := m\<rparr>) = cache s" "table_ok (s\<lparr>diffs := m\<rparr>) = table_ok s"
  "table_inv (s\<lparr>diffs := m\<rparr>) xs = table_inv s xs"
  by (rule table_inv_more; simp)+

lemma kv_inv_other [simp]:
  "kv_inv (s\<lparr>hashMutex := b\<rparr>) = kv_inv s"
  "kv_inv (s\<lparr>currentViewMutex := b\<rparr>) = kv_inv s"
  "kv_inv (s\<lparr>currentView := v\<rparr>) = kv_inv s"
  by (simp_all add: kv_inv_def)

lemma lock_hash_safe: "kv_inv s \<Longrightarrow> safe id (lock_hash s)"
  by (simp add: lock_hash_def)

lemma lock_view_safe: "kv_inv s \<Longrightarrow> safe id (lock_view s)"
  by (simp add: lock_view_def)

lemma unlock_inv [simp]: "kv_inv (unlock_hash s) = kv_inv s" "kv_inv (unlock_view s) = kv_inv s"
  by (simp_all add: unlock_hash_def unlock_view_def)

lemma getServer_safe: "kv_inv s \<Longrightarrow> safe (\<lambda>_. s) (raise_in s (getServer h v))"
  by (cases "getServer h v") (auto simp: getServer_error_iff)

section \<open>Pending differences\<close>

lemma smap_put_set: "set (smap_put k v m) \<subseteq> insert (k, v) (set m)"
  by (induction k v m rule: smap_put.induct) auto

lemma addDiff_ok: "diffs_ok m \<Longrightarrow> diffs_ok (addDiff s k m)"
proof -
  assume ok: "diffs_ok m"
  let ?v = "sset_insert k (case smap_find m s of None \<Rightarrow> [] | Some v \<Rightarrow> v)"
  have "sorted_wrt (<) ?v"
    using ok by (auto simp: diffs_ok_def list_all_iff sset_insert_sorted split: option.splits
        dest!: smap_find_in)
  then have "\<forall>e\<in>set (smap_put s ?v m). sorted_wrt (<) (snd e)"
    using ok smap_put_set [of s ?v m] by (fastforce simp: diffs_ok_def list_all_iff)
  then show "diffs_ok (addDiff s k m)"
    using ok by (auto simp: diffs_ok_def addDiff_def smap_modify_def smap_put_ok list_all_iff)
qed

lemma fold_addDiff_ok: "diffs_ok m \<Longrightarrow> diffs_ok (fold (addDiff s) ks m)"
  by (induction ks arbitrary: m) (simp_all add: addDiff_ok)

lemma smap_filter_ok: "smap_ok m \<Longrightarrow> smap_ok (filter P m)"
  by (induction m) auto

lemma diffs_ok_filter: "diffs_ok m \<Longrightarrow> diffs_ok (filter P m)"
  by (auto simp: diffs_ok_def list_all_iff smap_filter_ok)

lemma smap_erase_filter: "diffs_ok m \<Longrightarrow> diffs_ok (smap_erase k m)"
  by (simp add: smap_erase_def diffs_ok_filter)

text \<open>The erasing loop, on a platform where it survives and on one where it does not.\<close>

lemma eraseLoop_kept:
  "eraseLoop True d es m = Inr (filter (\<lambda>e. \<not> (d (fst e) \<and> fst e \<in> fst ` set es)) m)"
proof (induction es arbitrary: m)
  case (Cons a es)
  show ?case
  proof (cases "d (fst a)")
    case True
    then have "eraseLoop True d (a # es) m
        = Inr (filter (\<lambda>e. \<not> (d (fst e) \<and> fst e \<in> fst ` set es)) (smap_erase (fst a) m))"
      by (simp add: Cons.IH)
    also have "filter (\<lambda>e. \<not> (d (fst e) \<and> fst e \<in> fst ` set es)) (smap_erase (fst a) m)
        = filter (\<lambda>e. \<not> (d (fst e) \<and> fst e \<in> fst ` set (a # es))) m"
      unfolding smap_erase_def filter_filter using True by (intro filter_cong) auto
    finally show ?thesis .
  next
    case False
    then show ?thesis by (simp add: Cons.IH) (intro filter_cong, auto)
  qed
qed simp

lemma eraseLoop_all: "eraseLoop True d m m = Inr (filter (\<lambda>e. \<not> d (fst e)) m)"
  unfolding eraseLoop_kept by (auto intro!: filter_cong)

lemma eraseLoop_freed:
  "eraseLoop False d es m = (if \<exists>e\<in>set es. d (fst e) then Inl InvalidIterator else Inr m)"
  by (induction es) auto

lemma eraseLoop_safe:
  assumes "diffs_ok m"
  shows "(\<exists>m'. eraseLoop lk d m m = Inr m' \<and> diffs_ok m') \<or> eraseLoop lk d m m = Inl InvalidIterator"
  using assms by (cases lk) (auto simp: eraseLoop_all eraseLoop_freed diffs_ok_filter)

section \<open>View changes\<close>

lemma walkKeys_dll:
  "dll (hashTable t) p h xs l (-1) \<Longrightarrow> length xs \<le> n \<Longrightarrow>
   walkKeys n h t = Inr (map (\<lambda>i. rkey (hashTable t ! i)) xs)"
proof (induction xs arbitrary: n p h)
  case Nil
  then show ?case by (subst walkKeys.simps) simp
next
  case (Cons x xs)
  then show ?case by (cases n) (subst walkKeys.simps, auto simp: readRec_def tsize_def)+
qed

lemma walkKeys_inv:
  assumes "table_ok t"
  shows "walkKeys (tsize t) (listHead t) t = Inr (lru_keys (cache t))"
proof -
  obtain xs where inv: "table_inv t xs" and c: "cache t = entries (hashTable t) xs"
    using assms by (rule table_okE)
  have "card (set xs) \<le> card {..<tsize t}" using table_invD(6) [OF inv] by (intro card_mono) auto
  then have "length xs \<le> tsize t" using table_invD(5) [OF inv] by (simp add: distinct_card)
  with table_invD(1) [OF inv] show ?thesis
    unfolding c by (auto simp: linked_def lru_keys_def entries_def entry_at_def comp_def intro: walkKeys_dll)
qed


text \<open>What a pass over the servers of one key does to the pending differences.\<close>

definition replicaDiffs :: "Server \<Rightarrow> Server list \<Rightarrow> string list \<Rightarrow>
    (Server, string list) smap \<Rightarrow> (Server, string list) smap" where
  "replicaDiffs me servers ks m =
     fold (\<lambda>srv m. if smap_find m srv = None \<and> srv \<noteq> me then fold (addDiff srv) ks m else m) servers m"

lemma replicaDiffs_ok: "diffs_ok m \<Longrightarrow> diffs_ok (replicaDiffs me servers ks m)"
  unfolding replicaDiffs_def by (induction servers arbitrary: m) (auto simp: fold_addDiff_ok)

lemma replicaDiffs_loop:
  assumes "table_ok s"
  shows "foldE (\<lambda>srv s.
      if smap_find (diffs s) srv = None \<and> srv \<noteq> self s
      then bindE (walkKeys (tsize s) (listHead s) s) (\<lambda>ks.
           Inr (s\<lparr>diffs := fold (addDiff srv) ks (diffs s)\<rparr>))
      else Inr s) servers s = Inr (s\<lparr>diffs := replicaDiffs (self s) servers (lru_keys (cache s)) (diffs s)\<rparr>)"
  using assms
proof (induction servers arbitrary: s)
  case Nil
  then show ?case by (simp add: replicaDiffs_def)
next
  case (Cons a servers)
  show ?case
  proof (cases "smap_find (diffs s) a = None \<and> a \<noteq> self s")
    case True
    let ?s = "s\<lparr>diffs := fold (addDiff a) (lru_keys (cache s)) (diffs s)\<rparr>"
    have "table_ok ?s" using Cons.prems by simp
    from Cons.IH [OF this] True walkKeys_inv [OF Cons.prems] show ?thesis
      by (simp add: replicaDiffs_def)
  next
    case False
    then show ?thesis using Cons.IH [OF Cons.prems] by (auto simp: replicaDiffs_def)
  qed
qed

lemma restrict_modRec:
  assumes "table_inv t (ys @ x # zs)"
  shows "modRec (int x) (\<lambda>r. r\<lparr>rversion := restrictVersion servers (rversion r)\<rparr>) t =
    modRec (int x) (\<lambda>r. r\<lparr>rversion := restrictVersion servers (rversion (hashTable t ! x))\<rparr>) t"
  using table_invD(6) [OF assms] by (simp add: modRec_def)

text \<open>
  \<open>adjustVersion\<close> restricts the version of the slot and rebuilds the pending differences; the only
  way it fails is the invalidated iterator.
\<close>

lemma adjustVersion_inv:
  assumes inv: "table_inv s (ys @ x # zs)" and x: "entry_at (hashTable s) x = (k, v, w)"
    and d: "diffs_ok (diffs s)"
  shows "adjustVersion lk (int x) servers s = Inl InvalidIterator \<and> \<not> lk \<or>
    (\<exists>s'. adjustVersion lk (int x) servers s = Inr s' \<and> table_inv s' (ys @ x # zs)
    \<and> entries (hashTable s') (ys @ x # zs) =
        lru_assign k v (restrictVersion servers w) (entries (hashTable s) (ys @ x # zs))
    \<and> diffs_ok (diffs s') \<and> s' = s\<lparr>hashTable := hashTable s', diffs := diffs s'\<rparr>)"
proof -
  from setVersion_inv [OF inv x, of "restrictVersion servers w"] obtain s1 where
    s1: "modRec (int x) (\<lambda>q. q\<lparr>rversion := restrictVersion servers w\<rparr>) s = Inr s1"
      "table_inv s1 (ys @ x # zs)"
      "entries (hashTable s1) (ys @ x # zs) =
        lru_assign k v (restrictVersion servers w) (entries (hashTable s) (ys @ x # zs))"
    by blast
  have f: "rversion (hashTable s ! x) = w" using x by (simp add: entry_at_fields)
  obtain T where e1: "s1 = s\<lparr>hashTable := T\<rparr>"
    using s1(1) by (auto simp: modRec_def elim!: bindE_InrE)
  have d1: "diffs s1 = diffs s" by (simp add: e1)
  have ok1: "table_ok s1" using table_inv_cache [OF s1(2)] by simp
  let ?m = "replicaDiffs (self s1) servers (lru_keys (cache s1)) (diffs s1)"
  have m: "diffs_ok ?m" using d by (simp add: replicaDiffs_ok d1)
  have a: "adjustVersion lk (int x) servers s =
    bindE (eraseLoop lk (\<lambda>srv. srv \<notin> set servers) ?m ?m) (\<lambda>m. Inr (s1\<lparr>diffs := m\<rparr>))"
    by (simp add: adjustVersion_def restrict_modRec [OF inv] f s1(1) replicaDiffs_loop [OF ok1])
  show ?thesis
  proof (cases "eraseLoop lk (\<lambda>srv. srv \<notin> set servers) ?m ?m")
    case (Inl e)
    then show ?thesis using a by (cases lk) (auto simp: eraseLoop_all eraseLoop_freed split: if_splits)
  next
    case (Inr m')
    then have "diffs_ok m'" using eraseLoop_safe [OF m, of lk "\<lambda>srv. srv \<notin> set servers"] by auto
    then show ?thesis using a Inr s1(2,3)
      by (intro disjI2 exI [of _ "s1\<lparr>diffs := m'\<rparr>"]) (simp add: e1)
  qed
qed

text \<open>
  The servers a view makes responsible for a key, and what \<open>cleanHash\<close> does to the cache: entries
  before the first one this server does not own get their version restricted, that entry is dropped,
  and the rest is left as it is.
\<close>

definition owners :: "View \<Rightarrow> string \<Rightarrow> Server list" where
  "owners v k = (case getServer (ir_hash k) v of Inl _ \<Rightarrow> [] | Inr ss \<Rightarrow> ss)"

fun lru_clean :: "(string \<Rightarrow> Server list) \<Rightarrow> Server \<Rightarrow> lru \<Rightarrow> lru" where
  "lru_clean route me [] = []"
| "lru_clean route me ((k, v, w) # es) =
     (if me \<in> set (route k) then (k, v, restrictVersion (route k) w) # lru_clean route me es else es)"

definition ctl :: "kvstate \<Rightarrow> Server \<times> GetServersReply \<times> bool \<times> bool \<times> string \<times> int" where
  "ctl s = (self s, currentView s, hashMutex s, currentViewMutex s, vsAddress s, vsPort s)"

lemma getServer_owners:
  "hashToServer v \<noteq> [] \<Longrightarrow> getServer (ir_hash k) v = Inr (owners v k)"
  by (cases "getServer (ir_hash k) v") (auto simp: owners_def getServer_error_iff)

lemma removeEntry_slot:
  assumes "removeEntry (int x) t = Inr t'"
  shows "readRec (int x) t' = Inr (new_Record\<lparr>rstate := DEAD\<rparr>)"
  using assms by (auto simp: removeEntry_def modRec_def readRec_def guardE_simps tsize_def
      elim!: bindE_InrE split: if_splits)

lemma table_inv_next:
  assumes "table_inv t (ys @ x # zs)"
  shows "readRec (int x) t = Inr (hashTable t ! x)"
    and "rnext (hashTable t ! x) = (case zs of [] \<Rightarrow> -1 | z # _ \<Rightarrow> int z)"
proof -
  show "readRec (int x) t = Inr (hashTable t ! x)"
    using table_invD(6) [OF assms, of x] by (simp add: readRec_def tsize_def)
  show "rnext (hashTable t ! x) = (case zs of [] \<Rightarrow> -1 | z # _ \<Rightarrow> int z)"
    using table_invD(1) [OF assms] by (auto simp: linked_def dll_append dest: dll_head)
qed

text \<open>What the loop may end in, for the suffix \<open>xs\<close> of the list it still has to visit.\<close>

definition clean_post :: "bool \<Rightarrow> kvstate \<Rightarrow> lru \<Rightarrow> kvstate outcome \<Rightarrow> bool" where
  "clean_post lk s es m = (case m of
     Inr s' \<Rightarrow> kv_inv s' \<and> cache s' = es \<and> ctl s' = ctl s
   | Inl (e, s') \<Rightarrow> (e = EmptyRingException \<and> hashToServer (gs_view (currentView s)) = [] \<or>
        e = InvalidIterator \<and> \<not> lk) \<and> kv_inv s' \<and> ctl s' = ctl s)"

lemma clean_post_ctl: "ctl s' = ctl s \<Longrightarrow> clean_post lk s' es m \<Longrightarrow> clean_post lk s es m"
  by (auto simp: clean_post_def ctl_def split: sum.splits)

lemma lru_assign_entries:
  assumes inv: "table_inv t (ys @ x # zs)" and x: "entry_at (hashTable t) x = (k, v, w)"
    and e: "entries tab' (ys @ x # zs) = lru_assign k v w' (entries (hashTable t) (ys @ x # zs))"
  shows "entries tab' ys = entries (hashTable t) ys" "entries tab' zs = entries (hashTable t) zs"
    "entry_at tab' x = (k, v, w')"
proof -
  have "rkey (hashTable t ! x) = k" using x by (simp add: entry_at_fields)
  from e lru_assign_split(1) [OF split_keys [OF inv this]] x
  have "entries tab' ys @ entry_at tab' x # entries tab' zs
      = entries (hashTable t) ys @ (k, v, w') # entries (hashTable t) zs"
    by (simp add: entries_split)
  then show "entries tab' ys = entries (hashTable t) ys" "entries tab' zs = entries (hashTable t) zs"
    "entry_at tab' x = (k, v, w')" by simp_all
qed

lemma cleanLoop_post:
  assumes "table_inv s (ys @ xs)" "diffs_ok (diffs s)" "length xs \<le> n"
  shows "clean_post lk s
      (entries (hashTable s) ys @ lru_clean (owners (gs_view (currentView s))) (self s) (entries (hashTable s) xs))
      (cleanLoop lk n (case xs of [] \<Rightarrow> -1 | x # _ \<Rightarrow> int x) s)"
  using assms
proof (induction xs arbitrary: ys s n)
  case Nil
  then show ?case
    by (subst cleanLoop.simps) (simp add: clean_post_def kv_inv_def table_inv_cache entries_Nil)
next
  case (Cons x zs)
  note inv = Cons.prems(1) and d = Cons.prems(2)
  from Cons.prems(3) obtain n' where n: "n = Suc n'" "length zs \<le> n'" by (cases n) auto
  obtain k v w where x: "entry_at (hashTable s) x = (k, v, w)" by (metis prod_cases3)
  have k: "rkey (hashTable s ! x) = k" using x by (simp add: entry_at_fields)
  have kv: "kv_inv s" using d table_inv_cache(1) [OF inv] by (simp add: kv_inv_def)
  let ?V = "gs_view (currentView s)"
  note unf = cleanLoop.simps [of _ "Suc n'" "int x" s] n(1) table_inv_next(1) [OF inv] k
  show ?case
  proof (cases "hashToServer ?V = []")
    case True
    then show ?thesis using kv by (simp add: unf getServer_def clean_post_def)
  next
    case False
    note gs = getServer_owners [OF False]
    show ?thesis
    proof (cases "self s \<in> set (owners ?V k)")
      case own: True
      from adjustVersion_inv [OF inv x d, of lk "owners ?V k"] show ?thesis
      proof (elim disjE exE conjE)
        assume "adjustVersion lk (int x) (owners ?V k) s = Inl InvalidIterator" "\<not> lk"
        then show ?thesis using kv own by (simp add: unf gs clean_post_def)
      next
        fix s' assume a: "adjustVersion lk (int x) (owners ?V k) s = Inr s'"
          and i: "table_inv s' (ys @ x # zs)" and d': "diffs_ok (diffs s')"
          and e: "entries (hashTable s') (ys @ x # zs) =
            lru_assign k v (restrictVersion (owners ?V k) w) (entries (hashTable s) (ys @ x # zs))"
          and u: "s' = s\<lparr>hashTable := hashTable s', diffs := diffs s'\<rparr>"
        have c: "ctl s' = ctl s" by (subst u) (simp add: ctl_def)
        then have f: "currentView s' = currentView s" "self s' = self s" by (simp_all add: ctl_def)
        note le = lru_assign_entries [OF inv x e]
        from Cons.IH [of s' "ys @ [x]" n'] i d' n(2)
        have "clean_post lk s' (entries (hashTable s) ys @ (k, v, restrictVersion (owners ?V k) w) #
            lru_clean (owners ?V) (self s) (entries (hashTable s) zs))
            (cleanLoop lk n' (case zs of [] \<Rightarrow> -1 | z # _ \<Rightarrow> int z) s')"
          by (simp add: f le entries_append entries_Cons entries_Nil)
        from clean_post_ctl [OF c this] own show ?thesis
          by (simp add: unf gs a table_inv_next [OF i] entries_Cons x)
      qed
    next
      case foreign: False
      from removeEntry_inv [OF inv] obtain s' where r: "removeEntry (int x) s = Inr s'"
        and i: "table_inv s' (ys @ zs)"
        and e: "entries (hashTable s') (ys @ zs) = entries (hashTable s) (ys @ zs)"
        and f: "self s' = self s" "table.more s' = table.more s" by blast
      let ?s = "s'\<lparr>statistics := (statistics s')\<lparr>numPurges := numPurges (statistics s') + 1\<rparr>\<rparr>"
      have g: "diffs s' = diffs s" "ctl s' = ctl s"
        using f by (cases s; cases s'; simp add: ctl_def table.defs)+
      then have "clean_post lk s (entries (hashTable s) ys @ entries (hashTable s) zs) (Inr ?s)"
        using i e d by (simp add: clean_post_def kv_inv_def table_inv_cache ctl_def entries_append)
      moreover have "cleanLoop lk n' (-1) ?s = Inr ?s" by (subst cleanLoop.simps) simp
      ultimately show ?thesis using foreign
        by (simp add: unf gs r removeEntry_slot [OF r] entries_Cons x new_Record_def)
    qed
  qed
qed

lemma frame_eq_kv:
  fixes s :: kvstate
  assumes "frame_eq s s'"
  shows "diffs s' = diffs s" "ctl s' = ctl s" "hashMutex s' = hashMutex s"
    "currentViewMutex s' = currentViewMutex s" "currentView s' = currentView s" "self s' = self s"
  using assms by (cases s; cases s'; simp add: frame_eq_def ctl_def table.defs)+

lemma cleanHash_post:
  assumes "kv_inv s"
  shows "cleanHash lk s = Inl (Blocked, s) \<and> hashMutex s \<or>
    (\<not> hashMutex s \<and> (\<exists>s'. cleanHash lk s = Inr s' \<and> kv_inv s' \<and> ctl s' = ctl s \<and>
       cache s' = lru_clean (owners (gs_view (currentView s))) (self s) (cache s))) \<or>
    (\<not> hashMutex s \<and> (\<exists>e s'. cleanHash lk s = Inl (e, s') \<and> kv_inv s' \<and> hashMutex s' \<and>
       (e = EmptyRingException \<and> hashToServer (gs_view (currentView s)) = [] \<or> e = InvalidIterator \<and> \<not> lk)))"
proof (cases "hashMutex s")
  case True
  then show ?thesis by (simp add: cleanHash_def lock_hash_def)
next
  case False
  let ?s = "s\<lparr>hashMutex := True\<rparr>"
  have ok: "table_ok ?s" "diffs_ok (diffs ?s)" using assms by (simp_all add: kv_inv_def)
  obtain xs where inv: "table_inv ?s xs" and c: "cache ?s = entries (hashTable ?s) xs"
    using ok(1) by (rule table_okE)
  have "card (set xs) \<le> card {..<tsize ?s}" using table_invD(6) [OF inv] by (intro card_mono) auto
  then have len: "length xs \<le> tsize ?s" using table_invD(5) [OF inv] by (simp add: distinct_card)
  have hd: "listHead ?s = (case xs of [] \<Rightarrow> -1 | x # _ \<Rightarrow> int x)"
    using table_invD(1) [OF inv] by (auto simp: linked_def dest: dll_head)
  have "clean_post lk ?s (lru_clean (owners (gs_view (currentView ?s))) (self ?s) (cache ?s))
      (cleanLoop lk (tsize ?s) (listHead ?s) ?s)"
    using cleanLoop_post [of ?s "[]" xs, OF _ ok(2) len] inv unfolding c hd by (simp add: entries_Nil)
  then show ?thesis using False
    by (cases "cleanLoop lk (tsize ?s) (listHead ?s) ?s")
       (auto simp: cleanHash_def lock_hash_def clean_post_def ctl_def unlock_hash_def)
qed

lemma cleanHash_safe: "kv_inv s \<Longrightarrow> safe id (cleanHash lk s)"
  using cleanHash_post [of s lk] by auto

lemma installView_safe: "kv_inv s \<Longrightarrow> safe id (installView lk v s)"
  by (auto simp: installView_def setView_def lock_view_def Let_def unlock_view_def intro!: cleanHash_safe)

lemma catch_all_safe: "safe id m \<Longrightarrow> safe id (catch_all m)"
  by (auto simp: catch_all_def split: sum.splits)

lemma pingViewService_safe:
  assumes "kv_inv s" "\<And>e. rpc = Inl e \<Longrightarrow> benign e"
  shows "safe id (pingViewService lk rpc s)"
  using assms unfolding pingViewService_def
  by (intro catch_all_safe) (cases rpc, auto intro: installView_safe)

lemma route_safe:
  "kv_inv s \<Longrightarrow> safe snd (bindE (raise_in s (getServer h v)) (\<lambda>supposed. Inr (me \<in> set supposed, s)))"
  by (cases "getServer h v") (auto simp: getServer_error_iff)

lemma checkServer_safe:
  assumes inv: "kv_inv s" and rpc: "\<And>e. rpc = Inl e \<Longrightarrow> benign e"
  shows "safe snd (checkServer lk rpc n k s)"
proof (cases "currentViewMutex s")
  case True
  then show ?thesis using inv by (simp add: checkServer_def lock_view_def)
next
  case False
  let ?s = "s\<lparr>currentViewMutex := False\<rparr>"
  have i: "kv_inv ?s" using inv by simp
  consider "n < gs_viewNum (currentView s)" | "n = gs_viewNum (currentView s)"
    | "n > gs_viewNum (currentView s)" by linarith
  then show ?thesis
  proof cases
    case 1
    then show ?thesis using False i by (simp add: checkServer_def lock_view_def unlock_view_def Let_def)
  next
    case 2
    then show ?thesis using False route_safe [OF i, of "ir_hash k"]
      by (simp add: checkServer_def lock_view_def unlock_view_def Let_def)
  next
    case 3
    have new: "safe snd (if n \<noteq> gs_viewNum v then Inr (False, s3) else
        bindE (raise_in s3 (getServer (ir_hash k) (gs_view v))) (\<lambda>supposed. Inr (self s3 \<in> set supposed, s3)))"
      if "kv_inv s3" for s3 v using that route_safe [OF that] by simp
    have "safe snd (bindE (raise_in ?s rpc) (\<lambda>v. bindE (installView lk v ?s) (\<lambda>s3.
        if n \<noteq> gs_viewNum v then Inr (False, s3) else
        bindE (raise_in s3 (getServer (ir_hash k) (gs_view v))) (\<lambda>supposed.
          Inr (self s3 \<in> set supposed, s3)))))"
    proof (cases rpc)
      case (Inl e)
      then show ?thesis using rpc i by simp
    next
      case (Inr v)
      then show ?thesis by (simp only: raise_in_simps bindE_simps) (rule safe_bindE [OF installView_safe [OF i]], simp only: id_apply new)
    qed
    then show ?thesis using False 3 by (simp add: checkServer_def lock_view_def unlock_view_def Let_def)
  qed
qed

section \<open>Requests\<close>

lemma putAccepted_safe:
  assumes inv: "kv_inv s"
  shows "safe snd (putAccepted q s)"
proof (cases "hashMutex s")
  case True
  then show ?thesis using inv by (simp add: putAccepted_def lock_hash_def)
next
  case False
  let ?s = "s\<lparr>hashMutex := True\<rparr>"
  have ok: "table_ok ?s" using inv by (simp add: kv_inv_def)
  from putTable_refines [OF this, of "pa_key q" "pa_value q"] obtain s2 where
    s2: "putTable (pa_key q) (pa_value q) ?s = Inr s2" "table_ok s2" "frame_eq ?s s2" by blast
  have k2: "kv_inv s2" using s2 inv frame_eq_kv(1) [OF s2(3)] by (simp add: kv_inv_def)
  have add: "diffs_ok m \<Longrightarrow> diffs_ok (fold (\<lambda>srv m. if srv = me then m else addDiff srv k m) ss m)"
    for m me k ss by (induction ss arbitrary: m) (auto simp: addDiff_ok)
  have "safe snd (bindE (lock_view s2) (\<lambda>s3.
     bindE (raise_in s3 (getServer (ir_hash (pa_key q)) (gs_view (currentView s3)))) (\<lambda>servers.
     let s4 = unlock_view s3;
         s5 = s4\<lparr>diffs := fold (\<lambda>srv m. if srv = self s4 then m else addDiff srv (pa_key q) m)
                          servers (diffs s4)\<rparr>
     in Inr (\<lparr>pr_status = OK\<rparr>, unlock_hash s5))))"
  proof (rule safe_bindE [OF lock_view_safe [OF k2]])
    fix s3 assume "kv_inv (id s3)"
    then have i3: "kv_inv s3" by simp
    then have "kv_inv (unlock_view s3\<lparr>diffs := fold (\<lambda>srv m. if srv = me then m else
        addDiff srv (pa_key q) m) ss (diffs (unlock_view s3))\<rparr>)" for me ss
      by (simp add: kv_inv_def unlock_view_def add)
    with i3 show "safe snd (bindE (raise_in s3 (getServer (ir_hash (pa_key q)) (gs_view (currentView s3)))) (\<lambda>servers.
     let s4 = unlock_view s3;
         s5 = s4\<lparr>diffs := fold (\<lambda>srv m. if srv = self s4 then m else addDiff srv (pa_key q) m)
                          servers (diffs s4)\<rparr>
     in Inr (\<lparr>pr_status = OK\<rparr>, unlock_hash s5)))"
      by (cases "getServer (ir_hash (pa_key q)) (gs_view (currentView s3))")
         (auto simp: getServer_error_iff Let_def)
  qed
  then show ?thesis using False s2(1) by (simp add: putAccepted_def lock_hash_def)
qed

lemma put_safe:
  assumes "kv_inv s" "\<And>e. rpc = Inl e \<Longrightarrow> benign e"
  shows "safe snd (put lk rpc q s)"
  unfolding put_def
  by (rule safe_bindE [OF checkServer_safe [OF assms]]) (auto simp: putAccepted_safe)

lemma getAccepted_safe:
  assumes inv: "kv_inv s"
  shows "safe snd (getAccepted q s)"
proof (cases "hashMutex s")
  case True
  then show ?thesis using inv by (simp add: getAccepted_def lock_hash_def)
next
  case False
  let ?s = "s\<lparr>hashMutex := True\<rparr>"
  have "table_ok ?s" using inv by (simp add: kv_inv_def)
  from getTable_refines [OF this, of "ga_key q"] obtain r s2 where
    s2: "getTable (ga_key q) ?s = Inr (r, s2)" "table_ok s2" "frame_eq ?s s2" by blast
  then show ?thesis using False inv frame_eq_kv(1) [OF s2(3)]
    by (simp add: getAccepted_def lock_hash_def kv_inv_def unlock_hash_def)
qed

lemma get_safe:
  assumes "kv_inv s" "\<And>e. rpc = Inl e \<Longrightarrow> benign e"
  shows "safe snd (get lk rpc q s)"
  unfolding get_def
  by (rule safe_bindE [OF checkServer_safe [OF assms]]) (auto simp: getAccepted_safe)

lemma getStatistics_inv: "kv_inv (snd (getStatistics z s)) = kv_inv s"
  by (simp add: getStatistics_def Let_def kv_inv_def)

section \<open>Anti-entropy\<close>

text \<open>A whole batch: the cache is trimmed and merged entry by entry; conflicting keys are reported.\<close>

fun lru_merge_all :: "Entry list \<Rightarrow> lru \<times> string list \<Rightarrow> lru \<times> string list" where
  "lru_merge_all [] st = st"
| "lru_merge_all (e # es) (c, ks) =
     (let (c', conflict) = lru_merge (en_key e) (en_value e) (version_of_entry (en_version e)) (lru_trim c)
      in lru_merge_all es (c', if conflict then ks @ [en_key e] else ks))"

lemma propagate_all:
  assumes "table_ok t"
  shows "\<exists>t'. foldE propagate es (t, ks) = Inr (t', snd (lru_merge_all es (cache t, ks))) \<and> table_ok t' \<and>
    cache t' = fst (lru_merge_all es (cache t, ks)) \<and> frame_eq t t'"
  using assms
proof (induction es arbitrary: t ks)
  case Nil
  then show ?case by (simp add: frame_eq_def)
next
  case (Cons e es)
  let ?m = "lru_merge (en_key e) (en_value e) (version_of_entry (en_version e)) (lru_trim (cache t))"
  from propagate_refines [OF Cons.prems, of e ks] obtain t1 where
    t1: "propagate e (t, ks) = Inr (t1, if snd ?m then ks @ [en_key e] else ks)" "table_ok t1"
      "cache t1 = fst ?m" "frame_eq t t1" by blast
  from Cons.IH [OF t1(2), of "if snd ?m then ks @ [en_key e] else ks"] t1 show ?case
    by (auto simp: Let_def case_prod_unfold intro: frame_eq_trans)
qed

lemma antiEntropy_safe:
  assumes inv: "kv_inv s"
  shows "safe snd (antiEntropy q s)"
proof (cases "currentViewMutex s \<or> gs_viewNum (currentView s) \<noteq> ae_viewNum q \<or> hashMutex s")
  case True
  then show ?thesis using inv
    by (auto simp: antiEntropy_def lock_view_def lock_hash_def unlock_view_def Let_def)
next
  case False
  let ?s = "s\<lparr>currentViewMutex := False, hashMutex := True\<rparr>"
  have "table_ok ?s" using inv by (simp add: kv_inv_def)
  from propagate_all [OF this, of "ae_entries q" "[]"] obtain s2 ks where
    s2: "foldE propagate (ae_entries q) (?s, []) = Inr (s2, ks)" "table_ok s2" "frame_eq ?s s2" by blast
  then show ?thesis using False inv frame_eq_kv(1) [OF s2(3)]
    by (simp add: antiEntropy_def lock_view_def lock_hash_def unlock_view_def unlock_hash_def Let_def kv_inv_def)
qed

end
