(* ===== verification/KV_Anti_Entropy.thy ===== *)
theory KV_Anti_Entropy
  imports KV_Handlers
begin

text \<open>
  Anti-entropy between replicas: what a round sends, what its end does to the cache and to the
  pending differences, and what a complete exchange between two servers leaves behind.
\<close>

section \<open>Collecting a batch\<close>

definition lru_entry :: "lru \<Rightarrow> string \<Rightarrow> Entry list" where
  "lru_entry c k = (case lru_find k c of None \<Rightarrow> []
     | Some (v, w) \<Rightarrow> [\<lparr>en_key = k, en_value = v, en_version = entry_of_version w\<rparr>])"

definition lru_collect :: "lru \<Rightarrow> string list \<Rightarrow> Entry list" where
  "lru_collect c ks = concat (map (lru_entry c) ks)"

lemma collectEntry_refines:
  assumes "table_ok t"
  shows "collectEntry k t es = Inr (es @ lru_entry (cache t) k)"
proof (cases "lru_find k (cache t)")
  case None
  from storage.miss [OF assms this] show ?thesis
    using None by (auto simp: collectEntry_def lru_entry_def)
next
  case (Some e)
  obtain v w where e: "e = (v, w)" by (cases e)
  from storage.hit [OF assms Some [unfolded e]] show ?thesis
    using Some e by (auto simp: collectEntry_def lru_entry_def)
qed

lemma collect_refines:
  assumes "table_ok t"
  shows "foldE (\<lambda>key es. collectEntry key t es) ks es = Inr (es @ lru_collect (cache t) ks)"
  by (induction ks arbitrary: es) (simp_all add: collectEntry_refines [OF assms] lru_collect_def)

text \<open>A server at rest: no mutex is held.\<close>

definition quiet :: "kvstate \<Rightarrow> bool" where
  "quiet s = (\<not> hashMutex s \<and> \<not> currentViewMutex s)"

lemma quiet_relock [simp]:
  "quiet s \<Longrightarrow> s\<lparr>hashMutex := False, currentViewMutex := False\<rparr> = s"
  "quiet s \<Longrightarrow> s\<lparr>currentViewMutex := False\<rparr> = s"
  "quiet s \<Longrightarrow> s\<lparr>hashMutex := False\<rparr> = s"
  by (cases s; simp add: quiet_def)+

lemma antiEntropyBegin_refines:
  assumes q: "quiet s" and inv: "kv_inv s"
  shows "antiEntropyBegin s = Inr (map_option (\<lambda>it. (fst it,
      \<lparr>ae_entries = lru_collect (cache s) (snd it), ae_viewNum = gs_viewNum (currentView s)\<rparr>))
      (List.find (\<lambda>it. snd it \<noteq> []) (diffs s)), s)"
proof -
  let ?s = "s\<lparr>hashMutex := True, currentViewMutex := False\<rparr>"
  have ok: "table_ok ?s" using inv by (simp add: kv_inv_def)
  from q have m: "\<not> hashMutex s" "\<not> currentViewMutex s" by (simp_all add: quiet_def)
  have r: "s\<lparr>hashMutex := False, currentViewMutex := False\<rparr> = s"
    "s\<lparr>currentViewMutex := False, hashMutex := False\<rparr> = s" "s\<lparr>hashMutex := False\<rparr> = s"
    using m by simp_all
  show ?thesis using m
    by (cases "List.find (\<lambda>it. snd it \<noteq> []) (diffs s)")
       (simp_all add: antiEntropyBegin_def lock_hash_def lock_view_def unlock_hash_def unlock_view_def
        Let_def collect_refines [OF ok] r)
qed

lemma antiEntropyBegin_safe:
  assumes inv: "kv_inv s"
  shows "safe snd (antiEntropyBegin s)"
proof -
  have "safe snd (antiEntropyBegin s)" if "hashMutex s \<or> currentViewMutex s"
    using inv that
    by (auto simp: antiEntropyBegin_def lock_hash_def lock_view_def split: option.splits)
  moreover have "safe snd (antiEntropyBegin s)" if "quiet s"
    using inv antiEntropyBegin_refines [OF that inv] by simp
  ultimately show ?thesis by (auto simp: quiet_def)
qed

section \<open>The end of a round\<close>

lemma removeIfAlive_all:
  assumes "table_ok t"
  shows "\<exists>t'. foldE removeIfAlive ks t = Inr t' \<and> table_ok t' \<and>
    cache t' = filter (\<lambda>e. fst e \<notin> set ks) (cache t) \<and> frame_eq t t'"
proof -
  have "foldE removeIfAlive ks t = foldE (\<lambda>k s. bindE (getPosition k s) (\<lambda>p. bindE (readRec p s) (\<lambda>r.
      if rstate r \<noteq> ALIVE then Inr s else removeEntry p s))) ks t"
    by (rule arg_cong [where f = "\<lambda>f. foldE f ks t"]) (simp add: fun_eq_iff removeIfAlive_def)
  with storage.remove_all [OF assms, of ks] show ?thesis by (auto simp: frame_eq_def)
qed

definition invalidated :: "AntiEntropyReply res \<Rightarrow> string list option" where
  "invalidated rpc = (case rpc of Inl _ \<Rightarrow> None
     | Inr r \<Rightarrow> if ar_status r = OK then Some (ar_invalidatedEntries r) else None)"

lemma antiEntropyEnd_refines:
  assumes inv: "kv_inv s" and free: "\<not> hashMutex s"
  shows "case invalidated rpc of
      None \<Rightarrow> antiEntropyEnd erased replica rpc s = Inr s
    | Some ks \<Rightarrow>
        if erased \<or> smap_find (diffs s) replica = None
        then antiEntropyEnd erased replica rpc s = Inl (InvalidIterator, s\<lparr>hashMutex := True\<rparr>)
        else \<exists>s'. antiEntropyEnd erased replica rpc s = Inr s' \<and> kv_inv s' \<and> ctl s' = ctl s \<and>
          cache s' = filter (\<lambda>e. fst e \<notin> set ks) (cache s) \<and> diffs s' = smap_erase replica (diffs s)"
proof (cases "invalidated rpc")
  case None
  have "s\<lparr>hashMutex := False\<rparr> = s" using free by simp
  with None show ?thesis using free
    by (auto simp: invalidated_def antiEntropyEnd_def new_AntiEntropyReply_def lock_hash_def unlock_hash_def
        split: sum.splits if_splits)
next
  case (Some ks)
  then obtain r where r: "rpc = Inr r" "ar_status r = OK" "ar_invalidatedEntries r = ks"
    by (auto simp: invalidated_def split: sum.splits if_splits)
  let ?s = "s\<lparr>hashMutex := True, diffs := smap_erase replica (diffs s)\<rparr>"
  have "table_ok ?s" using inv by (simp add: kv_inv_def)
  from removeIfAlive_all [OF this, of ks] obtain s' where
    s': "foldE removeIfAlive ks ?s = Inr s'" "table_ok s'"
      "cache s' = filter (\<lambda>e. fst e \<notin> set ks) (cache s)" "frame_eq ?s s'" by auto
  note f = frame_eq_kv [OF s'(4)]
  have "kv_inv (unlock_hash s')" using inv s' f(1) by (simp add: kv_inv_def smap_erase_filter unlock_hash_def)
  moreover have "ctl (unlock_hash s') = ctl s" using f(2) free by (simp add: ctl_def unlock_hash_def)
  ultimately show ?thesis using free Some r s' f(1)
    by (auto simp: antiEntropyEnd_def lock_hash_def guardE_def unlock_hash_def)
qed

lemma antiEntropyEnd_safe:
  assumes inv: "kv_inv s"
  shows "safe id (antiEntropyEnd erased replica rpc s)"
proof (cases "hashMutex s")
  case True
  then show ?thesis using inv by (simp add: antiEntropyEnd_def lock_hash_def)
next
  case False
  show ?thesis
  proof (cases "invalidated rpc")
    case None
    then show ?thesis using antiEntropyEnd_refines [OF inv False, where rpc = rpc and replica = replica and erased = erased] inv by simp
  next
    case (Some ks)
    then show ?thesis using antiEntropyEnd_refines [OF inv False, where rpc = rpc and replica = replica and erased = erased] inv
      by (auto split: if_splits)
  qed
qed

section \<open>A complete exchange\<close>

text \<open>What merging makes of the stored value and version of the key.\<close>

definition merge_value :: "(string \<times> version) option \<Rightarrow> string \<Rightarrow> version \<Rightarrow> (string \<times> version) option" where
  "merge_value old v w =
     (case old of
        None \<Rightarrow> Some (v, w)
      | Some (v0, w0) \<Rightarrow>
          if atMost w w0 then Some (v0, w0)
          else if atMost w0 w then Some (v, w)
          else if v = v0 then Some (v, maximumVersion w w0)
          else None)"

lemma lru_find_assign:
  "lru_find k es \<noteq> None \<Longrightarrow> lru_find k' (lru_assign k v w es) = (if k' = k then Some (v, w) else lru_find k' es)"
proof -
  have "map_of (lru_assign k v w es) k' = map_of es k'" if "k' \<noteq> k"
    using that by (induction es) (auto simp: lru_assign_def)
  moreover have "k \<in> fst ` set es \<Longrightarrow> map_of (lru_assign k v w es) k = Some (v, w)"
    by (induction es) (auto simp: lru_assign_def)
  moreover assume "lru_find k es \<noteq> None"
  ultimately show ?thesis by (auto simp: lru_find_def map_of_eq_None_iff)
qed

lemma lru_keys_assign [simp]: "lru_keys (lru_assign k v w es) = lru_keys es"
  by (induction es) (auto simp: lru_keys_def lru_assign_def)

lemma lru_bytes_assign:
  "distinct (lru_keys es) \<Longrightarrow> lru_find k es = Some (v, w0) \<Longrightarrow> lru_bytes (lru_assign k v w es) = lru_bytes es"
proof (induction es)
  case (Cons e es)
  have "lru_assign k v w es = es" if "k \<notin> fst ` set es"
    using that by (force simp: lru_assign_def intro!: map_idI)
  with Cons show ?case
    by (cases "fst e = k") (auto simp: lru_bytes_simps lru_assign_def lru_find_def lru_keys_def entry_bytes_def)
qed (simp add: lru_find_def)

lemma lru_bytes_remove_found:
  "distinct (lru_keys es) \<Longrightarrow> lru_find k es = Some (v, w) \<Longrightarrow>
   lru_bytes (lru_remove k es) + length k + length v = lru_bytes es"
proof (induction es)
  case (Cons e es)
  have "lru_remove k es = es" if "k \<notin> fst ` set es"
    using that by (intro lru_remove_absent) (simp add: lru_keys_def)
  with Cons show ?case
    by (cases "fst e = k") (auto simp: lru_bytes_simps lru_remove_def lru_find_def lru_keys_def entry_bytes_def)
qed (simp add: lru_find_def)

lemma lru_merge_find:
  "lru_find k' (fst (lru_merge k v w es)) = (if k' = k then merge_value (lru_find k es) v w else lru_find k' es)"
  by (auto simp: lru_merge_def merge_value_def lru_find_store lru_find_remove lru_find_assign
      split: option.splits)

lemma lru_merge_conflict:
  "snd (lru_merge k v w es) \<longleftrightarrow> merge_value (lru_find k es) v w = None"
  by (auto simp: lru_merge_def merge_value_def split: option.splits)

lemma lru_merge_distinct: "distinct (lru_keys es) \<Longrightarrow> distinct (lru_keys (fst (lru_merge k v w es)))"
  by (auto simp: lru_merge_def lru_keys_store lru_keys_remove split: option.splits)

lemma lru_merge_bytes:
  assumes "distinct (lru_keys es)"
  shows "lru_bytes (fst (lru_merge k v w es)) \<le> lru_bytes es + length k + length v"
  using assms lru_bytes_remove_le [of k es]
  by (auto simp: lru_merge_def lru_store_def lru_bytes_simps entry_bytes_def lru_bytes_assign
      split: option.splits)

definition batch_bytes :: "Entry list \<Rightarrow> nat" where
  "batch_bytes es = sum_list (map (\<lambda>e. length (en_key e) + length (en_value e)) es)"

definition batch_find :: "string \<Rightarrow> Entry list \<Rightarrow> Entry option" where
  "batch_find k es = map_of (map (\<lambda>e. (en_key e, e)) es) k"

lemma batch_find_None: "k \<notin> en_key ` set es \<Longrightarrow> batch_find k es = None"
  by (force simp: batch_find_def map_of_eq_None_iff)

text \<open>A batch without eviction and with distinct keys merges key by key.\<close>

lemma lru_merge_all_find:
  assumes "distinct (lru_keys c)" "distinct (map en_key es)"
    and "lru_bytes c + batch_bytes es \<le> nat MEMORY_LIMIT"
  defines "new \<equiv> \<lambda>k. case batch_find k es of None \<Rightarrow> lru_find k c
     | Some e \<Rightarrow> merge_value (lru_find k c) (en_value e) (version_of_entry (en_version e))"
  shows "lru_find k (fst (lru_merge_all es (c, ks))) = new k"
    and "set (snd (lru_merge_all es (c, ks))) = set ks \<union> {k. batch_find k es \<noteq> None \<and> new k = None}"
  using assms(1-3) unfolding new_def
proof (induction es arbitrary: c ks)
  case Nil
  case 1 show ?case by (simp add: batch_find_def)
  case 2 show ?case by (simp add: batch_find_def)
next
  case (Cons e es)
  let ?w = "version_of_entry (en_version e)"
  let ?m = "\<lambda>c. lru_merge (en_key e) (en_value e) ?w c"
  have step: "lru_merge_all (e # es) (c, ks) =
      lru_merge_all es (fst (?m c), if snd (?m c) then ks @ [en_key e] else ks)"
    if "lru_bytes c + batch_bytes (e # es) \<le> nat MEMORY_LIMIT" for c ks
    using that lru_trim_small [of c] by (simp add: Let_def case_prod_unfold)
  have prem: "distinct (lru_keys (fst (?m c)))" "lru_bytes (fst (?m c)) + batch_bytes es \<le> nat MEMORY_LIMIT"
    if "distinct (lru_keys c)" "lru_bytes c + batch_bytes (e # es) \<le> nat MEMORY_LIMIT" for c
    using that lru_merge_distinct [of c] lru_merge_bytes [of c "en_key e" "en_value e" ?w]
    by (auto simp: batch_bytes_def)
  have nil: "batch_find (en_key e) es = None" if "distinct (map en_key (e # es))"
    using that by (intro batch_find_None) auto
  have bf: "batch_find k (e # es) = (if k = en_key e then Some e else batch_find k es)" for k
    by (simp add: batch_find_def)
  have d: "distinct (map en_key es)" if "distinct (map en_key (e # es))" using that by simp
  {
    case (1 c ks)
    show ?case
      unfolding step [OF 1(3)] Cons.IH(1) [OF prem(1) [OF 1(1,3)] d [OF 1(2)] prem(2) [OF 1(1,3)]]
      using nil [OF 1(2)] by (simp add: bf lru_merge_find split: option.split)
  next
    case (2 c ks)
    show ?case
      unfolding step [OF 2(3)] Cons.IH(2) [OF prem(1) [OF 2(1,3)] d [OF 2(2)] prem(2) [OF 2(1,3)]]
      using nil [OF 2(2)] by (auto simp: bf lru_merge_find lru_merge_conflict split: if_splits)
  }
qed

lemma lru_collect_keys: "map en_key (lru_collect c ks) = filter (\<lambda>k. lru_find k c \<noteq> None) ks"
  by (induction ks) (auto simp: lru_collect_def lru_entry_def split: option.splits)

lemma batch_find_collect:
  "batch_find k (lru_collect c ks) =
     (if k \<in> set ks then map_option (\<lambda>(v, w). \<lparr>en_key = k, en_value = v, en_version = entry_of_version w\<rparr>)
        (lru_find k c) else None)"
  by (induction ks) (auto simp: lru_collect_def lru_entry_def batch_find_def split: option.splits)

lemma antiEntropy_refines:
  assumes q: "quiet s" and inv: "kv_inv s" and view: "gs_viewNum (currentView s) = ae_viewNum query"
  defines "m \<equiv> lru_merge_all (ae_entries query) (cache s, [])"
  shows "\<exists>s'. antiEntropy query s = Inr (\<lparr>ar_status = OK, ar_invalidatedEntries = snd m\<rparr>, s') \<and> kv_inv s' \<and>
    ctl s' = ctl s \<and> cache s' = fst m \<and> diffs s' = diffs s"
proof -
  let ?s = "s\<lparr>currentViewMutex := False, hashMutex := True\<rparr>"
  have "table_ok ?s" using inv by (simp add: kv_inv_def)
  from propagate_all [OF this, of "ae_entries query" "[]"] obtain s2 where
    s2: "foldE propagate (ae_entries query) (?s, []) = Inr (s2, snd m)" "table_ok s2" "cache s2 = fst m"
      "frame_eq ?s s2" by (auto simp: m_def)
  note f = frame_eq_kv [OF s2(4)]
  show ?thesis using q view inv s2 f(1,2)
    by (auto simp: antiEntropy_def lock_view_def lock_hash_def unlock_view_def unlock_hash_def Let_def
        kv_inv_def quiet_def ctl_def)
qed

text \<open>
  A round of \<open>antiEntropyHandler\<close> at \<open>a\<close> whose remote call reaches \<open>b\<close>, with no other step at \<open>a\<close>
  while the call is under way.
\<close>

definition exchange :: "kvstate \<Rightarrow> kvstate \<Rightarrow> (kvstate \<times> kvstate) outcome" where
  "exchange a b =
     bindE (antiEntropyBegin a) (\<lambda>(round, a1).
     case round of
       None \<Rightarrow> Inr (a1, b)
     | Some (replica, args) \<Rightarrow>
         bindE (antiEntropy args b) (\<lambda>(reply, b1).
         bindE (antiEntropyEnd False replica (Inr reply) a1) (\<lambda>a2. Inr (a2, b1))))"

lemma find_smap:
  assumes "List.find P m = Some (r, ks)" "smap_ok m"
  shows "smap_find m r = Some ks" "(r, ks) \<in> set m" "P (r, ks)"
proof -
  from assms(1) show "(r, ks) \<in> set m" "P (r, ks)" by (auto simp: find_Some_iff)
  with assms(2) show "smap_find m r = Some ks" by (simp add: smap_find_ok)
qed

lemma exchange_refines:
  assumes a: "quiet a" "kv_inv a" and b: "quiet b" "kv_inv b"
    and view: "gs_viewNum (currentView a) = gs_viewNum (currentView b)"
    and pend: "List.find (\<lambda>it. snd it \<noteq> []) (diffs a) = Some (r, ks)"
  defines "m \<equiv> lru_merge_all (lru_collect (cache a) ks) (cache b, [])"
  shows "\<exists>a' b'. exchange a b = Inr (a', b') \<and> kv_inv a' \<and> kv_inv b' \<and> ctl a' = ctl a \<and> ctl b' = ctl b \<and>
    diffs a' = smap_erase r (diffs a) \<and> diffs b' = diffs b \<and>
    cache a' = filter (\<lambda>e. fst e \<notin> set (snd m)) (cache a) \<and> cache b' = fst m"
proof -
  let ?q = "\<lparr>ae_entries = lru_collect (cache a) ks, ae_viewNum = gs_viewNum (currentView a)\<rparr>"
  have beg: "antiEntropyBegin a = Inr (Some (r, ?q), a)"
    using antiEntropyBegin_refines [OF a] pend by simp
  from antiEntropy_refines [OF b, of ?q] view obtain b' where
    b': "antiEntropy ?q b = Inr (\<lparr>ar_status = OK, ar_invalidatedEntries = snd m\<rparr>, b')" "kv_inv b'"
      "ctl b' = ctl b" "cache b' = fst m" "diffs b' = diffs b" by (auto simp: m_def)
  have "smap_find (diffs a) r \<noteq> None"
    using find_smap(1) [OF pend] a(2) by (simp add: kv_inv_def diffs_ok_def)
  moreover have "\<not> hashMutex a" using a(1) by (simp add: quiet_def)
  ultimately obtain a' where
    "antiEntropyEnd False r (Inr \<lparr>ar_status = OK, ar_invalidatedEntries = snd m\<rparr>) a = Inr a'" "kv_inv a'"
    "ctl a' = ctl a" "cache a' = filter (\<lambda>e. fst e \<notin> set (snd m)) (cache a)"
    "diffs a' = smap_erase r (diffs a)"
    using antiEntropyEnd_refines [OF a(2), where erased = False and replica = r and
        rpc = "Inr \<lparr>ar_status = OK, ar_invalidatedEntries = snd m\<rparr>"] by (auto simp: invalidated_def)
  with b' show ?thesis by (simp add: exchange_def beg)
qed

lemma lru_find_filter: "lru_find k (filter (\<lambda>e. fst e \<notin> S) c) = (if k \<in> S then None else lru_find k c)"
  by (induction c) (auto simp: lru_find_def)

text \<open>What the exchange does to one pending key.\<close>

lemma exchange_key:
  assumes a: "quiet a" "kv_inv a" and b: "quiet b" "kv_inv b"
    and view: "gs_viewNum (currentView a) = gs_viewNum (currentView b)"
    and pend: "List.find (\<lambda>it. snd it \<noteq> []) (diffs a) = Some (r, ks)"
    and mem: "lru_bytes (cache b) + batch_bytes (lru_collect (cache a) ks) \<le> nat MEMORY_LIMIT"
    and k: "k \<in> set ks"
  shows "\<exists>a' b'. exchange a b = Inr (a', b') \<and> kv_inv a' \<and> kv_inv b' \<and> ctl a' = ctl a \<and> ctl b' = ctl b \<and>
    diffs b' = diffs b \<and>
    (case lru_find k (cache a) of
       None \<Rightarrow> lru_find k (cache a') = None \<and> lru_find k (cache b') = lru_find k (cache b)
     | Some (v, w) \<Rightarrow>
         lru_find k (cache b') = merge_value (lru_find k (cache b)) v w \<and>
         lru_find k (cache a') = (if lru_find k (cache b') = None then None else Some (v, w)))"
proof -
  let ?es = "lru_collect (cache a) ks"
  have "(r, ks) \<in> set (diffs a)" using find_smap(2) [OF pend] a(2) by (simp add: kv_inv_def diffs_ok_def)
  then have "sorted_wrt (<) ks" using a(2) by (auto simp: kv_inv_def diffs_ok_def list_all_iff)
  then have d: "distinct (map en_key ?es)" by (simp add: lru_collect_keys strict_sorted_iff)
  have db: "distinct (lru_keys (cache b))" using b(2) by (simp add: kv_inv_def cache_keys_distinct)
  note f = lru_merge_all_find [OF db d mem]
  from exchange_refines [OF a b view pend] obtain a' b' where e: "exchange a b = Inr (a', b')"
    "cache a' = filter (\<lambda>e. fst e \<notin> set (snd (lru_merge_all ?es (cache b, [])))) (cache a)"
    "cache b' = fst (lru_merge_all ?es (cache b, []))"
    "kv_inv a'" "kv_inv b'" "ctl a' = ctl a" "ctl b' = ctl b" "diffs b' = diffs b" by blast
  have nb: "lru_find k (cache b') = (case batch_find k ?es of None \<Rightarrow> lru_find k (cache b)
     | Some e \<Rightarrow> merge_value (lru_find k (cache b)) (en_value e) (version_of_entry (en_version e)))"
    unfolding e(3) by (rule f(1))
  have na: "lru_find k (cache a') = (if batch_find k ?es \<noteq> None \<and> lru_find k (cache b') = None then None
      else lru_find k (cache a))"
    unfolding e(2) lru_find_filter f(2) nb by simp
  show ?thesis using e(1,4-) na nb k
    by - (rule exI [of _ a'], rule exI [of _ b'], auto simp: batch_find_collect split: option.splits)
qed

end
