(* ===== verification/KV_Runs.thy ===== *)
theory KV_Runs
  imports KV_Anti_Entropy
begin

text \<open>
  Runs of a server: the events that threads and callers can cause, one step per critical section
  group, and what holds in every reachable state; the behaviour of \<open>put\<close> and \<open>get\<close> as a caller sees
  it; and the state in which a purge leaves the server when the ring is empty.
\<close>

section \<open>Events\<close>

text \<open>What a remote call to the view service gives: a view, or an exception (\<open>None\<close>).\<close>

definition rpc_of :: "'a option \<Rightarrow> 'a res" where
  "rpc_of r = (case r of None \<Rightarrow> Inl TTransportException | Some x \<Rightarrow> Inr x)"

lemma rpc_of_benign: "rpc_of r = Inl e \<Longrightarrow> benign e"
  by (auto simp: rpc_of_def split: option.splits)

text \<open>
  \<open>put\<close> and \<open>get\<close> are two events each, since \<open>checkServer\<close> and the body are separate critical
  sections between which the background threads may run; so is a round of anti-entropy. The ping
  thread and a \<open>checkServer\<close> that refreshes the view can also be interrupted between the installation
  of the view and the purge: these are the events \<open>EvSetView\<close> and \<open>EvClean\<close>.
\<close>

datatype event =
    EvCheck int string "GetServersReply option"
  | EvPut PutArgs
  | EvGet GetArgs
  | EvStatistics int
  | EvAntiEntropy AntiEntropyArgs
  | EvPing "GetServersReply option"
  | EvRoundBegin
  | EvRoundEnd bool Server "AntiEntropyReply option"
  | EvSetView GetServersReply
  | EvClean

definition to_state :: "('a \<times> kvstate) outcome \<Rightarrow> kvstate outcome" where
  "to_state m = bindE m (\<lambda>(_, s). Inr s)"

fun run_event :: "bool \<Rightarrow> event \<Rightarrow> kvstate \<Rightarrow> kvstate outcome" where
  "run_event lk (EvCheck n k r) s = to_state (checkServer lk (rpc_of r) n k s)"
| "run_event lk (EvPut q) s = to_state (putAccepted q s)"
| "run_event lk (EvGet q) s = to_state (getAccepted q s)"
| "run_event lk (EvStatistics z) s = Inr (snd (getStatistics z s))"
| "run_event lk (EvAntiEntropy q) s = to_state (antiEntropy q s)"
| "run_event lk (EvPing r) s = pingViewService lk (rpc_of r) s"
| "run_event lk EvRoundBegin s = to_state (antiEntropyBegin s)"
| "run_event lk (EvRoundEnd erased srv r) s = antiEntropyEnd erased srv (rpc_of r) s"
| "run_event lk (EvSetView v) s = to_state (setView v s)"
| "run_event lk EvClean s = cleanHash lk s"

text \<open>The contract of a handler: it keeps the invariant, and its failures are benign.\<close>

locale kv_handler =
  fixes run :: "kvstate \<Rightarrow> 'a outcome" and st :: "'a \<Rightarrow> kvstate"
  assumes run_safe: "kv_inv s \<Longrightarrow> safe st (run s)"
begin

lemma result_inv: "kv_inv s \<Longrightarrow> run s = Inr x \<Longrightarrow> kv_inv (st x)"
  using run_safe [of s] by simp

lemma failure_inv: "kv_inv s \<Longrightarrow> run s = Inl (e, s') \<Longrightarrow> benign e \<and> kv_inv s'"
  using run_safe [of s] by simp

lemma no_panic: "kv_inv s \<Longrightarrow> run s \<noteq> Inl (AssertFailed, s') \<and> run s \<noteq> Inl (OutOfRange, s') \<and>
    run s \<noteq> Inl (DivByZero, s') \<and> run s \<noteq> Inl (Diverges, s')"
  using failure_inv by fastforce

lemma to_safe: "kv_inv s \<Longrightarrow> safe id (bindE (run s) (\<lambda>x. Inr (st x)))"
  using run_safe [of s] by (cases "run s") auto

end

interpretation put_handler: kv_handler "put lk (rpc_of r) q" snd
  by unfold_locales (rule put_safe [OF _ rpc_of_benign])

interpretation get_handler: kv_handler "get lk (rpc_of r) q" snd
  by unfold_locales (rule get_safe [OF _ rpc_of_benign])

interpretation check_handler: kv_handler "checkServer lk (rpc_of r) n k" snd
  by unfold_locales (rule checkServer_safe [OF _ rpc_of_benign])

interpretation put_body: kv_handler "putAccepted q" snd
  by unfold_locales (rule putAccepted_safe)

interpretation get_body: kv_handler "getAccepted q" snd
  by unfold_locales (rule getAccepted_safe)

interpretation merge_handler: kv_handler "antiEntropy q" snd
  by unfold_locales (rule antiEntropy_safe)

interpretation ping_thread: kv_handler "pingViewService lk (rpc_of r)" id
  by unfold_locales (rule pingViewService_safe [OF _ rpc_of_benign])

interpretation round_begin: kv_handler antiEntropyBegin snd
  by unfold_locales (rule antiEntropyBegin_safe)

interpretation round_end: kv_handler "antiEntropyEnd erased srv rpc" id
  by unfold_locales (rule antiEntropyEnd_safe)

interpretation set_view: kv_handler "setView v" snd
  by unfold_locales (auto simp: setView_def lock_view_def unlock_view_def)

interpretation purge: kv_handler "cleanHash lk" id
  by unfold_locales (rule cleanHash_safe)

lemma to_state_snd: "to_state m = bindE m (\<lambda>x. Inr (snd x))"
  by (simp add: to_state_def case_prod_unfold)

interpretation any_event: kv_handler "run_event lk ev" id
proof
  fix s assume "kv_inv s"
  then show "safe id (run_event lk ev s)"
    by (cases ev)
       (simp_all add: to_state_snd check_handler.to_safe put_body.to_safe get_body.to_safe
         merge_handler.to_safe ping_thread.run_safe round_begin.to_safe round_end.run_safe set_view.to_safe purge.run_safe
         getStatistics_inv)
qed

section \<open>Steps and reachability\<close>

text \<open>
  The server goes on after an event that returns and after one that throws: the processor and the
  \<open>catch (...)\<close> of the background threads swallow exceptions. After the other failures it does not.
\<close>

definition continues :: "kvstate outcome \<Rightarrow> kvstate option" where
  "continues m = (case m of Inr s \<Rightarrow> Some s | Inl (e, s) \<Rightarrow> if is_exception e then Some s else None)"

inductive kv_step :: "bool \<Rightarrow> event \<Rightarrow> kvstate \<Rightarrow> kvstate \<Rightarrow> bool" for lk where
  step: "continues (run_event lk ev s) = Some s' \<Longrightarrow> kv_step lk ev s s'"

inductive kv_reach :: "bool \<Rightarrow> kvstate \<Rightarrow> bool" for lk where
  init: "new_KVStorageHandler (rpc_of r) address port vsAddr vsP = Inr s \<Longrightarrow> kv_reach lk s"
| step: "kv_reach lk s \<Longrightarrow> kv_step lk ev s s' \<Longrightarrow> kv_reach lk s'"

inductive_simps kv_step_iff: "kv_step lk ev s s'"

lemma init_table_ok: "table_ok (init_table srv)" "cache (init_table srv) = []"
proof -
  have "table_inv (init_table srv) []"
    by (auto simp: table_inv_def init_table_def linked_def counts_ok_def load_ok_def deadCount_def
        new_Record_def lru_bytes_def entries_Nil tsize_def intro!: slots_okI)
  then show "table_ok (init_table srv)" "cache (init_table srv) = []"
    by (simp_all add: table_inv_cache entries_Nil)
qed

lemma new_KVStorageHandler_inv:
  assumes "new_KVStorageHandler rpc address port vsAddr vsP = Inr s"
  shows "kv_inv s" "quiet s" "cache s = []" "self s = Server address port"
proof -
  let ?t = "init_table (Server address port)"
  have s: "s = table.extend ?t (kvstate.fields new_GetServersReply [] False False vsAddr vsP)"
    using assms by (auto simp: new_KVStorageHandler_def elim!: bindE_InrE)
  have "table_ok s = table_ok ?t" "cache s = cache ?t"
    unfolding s
    by (simp_all add: table_ok_def cache_def lru_positions_def table_inv_def linked_def counts_ok_def
        load_ok_def table.defs init_table_def tsize_def)
  then show "kv_inv s" "cache s = []"
    using init_table_ok by (simp_all add: kv_inv_def diffs_ok_def s table.defs kvstate.defs)
  show "quiet s" "self s = Server address port"
    by (simp_all add: quiet_def s table.defs kvstate.defs init_table_def)
qed

lemma kv_reach_inv: "kv_reach lk s \<Longrightarrow> kv_inv s"
proof (induction rule: kv_reach.induct)
  case (init r address port vsAddr vsP s)
  then show ?case by (rule new_KVStorageHandler_inv)
next
  case (step s ev s')
  then show ?case
    using any_event.run_safe [of s lk ev]
    by (auto simp: kv_step_iff continues_def split: sum.splits if_splits)
qed

section \<open>Requests as a caller sees them\<close>

text \<open>\<open>checkServer\<close> at a server at rest, when the caller's view is not newer than the server's.\<close>

lemma checkServer_known:
  assumes q: "quiet s" and n: "n \<le> gs_viewNum (currentView s)"
    and ring: "hashToServer (gs_view (currentView s)) \<noteq> []"
  shows "checkServer lk rpc n k s =
    Inr (n = gs_viewNum (currentView s) \<and> self s \<in> set (owners (gs_view (currentView s)) k), s)"
  using q n getServer_owners [OF ring, of k]
  by (auto simp: checkServer_def lock_view_def unlock_view_def quiet_def Let_def)

definition putDiffs :: "Server \<Rightarrow> Server list \<Rightarrow> string \<Rightarrow> (Server, string list) smap \<Rightarrow>
    (Server, string list) smap" where
  "putDiffs me servers k m = fold (\<lambda>srv m. if srv = me then m else addDiff srv k m) servers m"

lemma addDiff_find:
  assumes "smap_ok m"
  shows "smap_find (addDiff srv k m) srv' =
    (if srv' = srv then Some (sset_insert k (case smap_find m srv of None \<Rightarrow> [] | Some ks \<Rightarrow> ks))
     else smap_find m srv')"
  using assms by (simp add: addDiff_def smap_find_modify split: option.splits)

lemma putDiffs_find:
  assumes "smap_ok m"
  shows "smap_find (putDiffs me servers k m) srv =
    (if srv \<noteq> me \<and> srv \<in> set servers
     then Some (sset_insert k (case smap_find m srv of None \<Rightarrow> [] | Some ks \<Rightarrow> ks)) else smap_find m srv)"
  using assms unfolding putDiffs_def
proof (induction servers arbitrary: m)
  case (Cons a servers)
  have ok: "smap_ok (addDiff a k m)" using Cons.prems by (simp add: addDiff_def smap_modify_def smap_put_ok)
  show ?case
    by (cases "a = me") (simp_all add: Cons.IH [OF ok] Cons.IH [OF Cons.prems] addDiff_find [OF Cons.prems])
qed simp

lemma putAccepted_refines:
  assumes q: "quiet s" and inv: "kv_inv s" and ring: "hashToServer (gs_view (currentView s)) \<noteq> []"
  shows "\<exists>s'. putAccepted query s = Inr (\<lparr>pr_status = OK\<rparr>, s') \<and> kv_inv s' \<and> ctl s' = ctl s \<and>
    cache s' = lru_put (self s) (pa_key query) (pa_value query) (lru_trim (cache s)) \<and>
    diffs s' = putDiffs (self s) (owners (gs_view (currentView s)) (pa_key query)) (pa_key query) (diffs s)"
proof -
  let ?s = "s\<lparr>hashMutex := True\<rparr>"
  have "table_ok ?s" using inv by (simp add: kv_inv_def)
  from putTable_refines [OF this, of "pa_key query" "pa_value query"] obtain s2 where
    s2: "putTable (pa_key query) (pa_value query) ?s = Inr s2" "table_ok s2" "frame_eq ?s s2"
      "cache s2 = lru_put (self s) (pa_key query) (pa_value query) (lru_trim (cache s))" by auto
  note f = frame_eq_kv [OF s2(3)]
  let ?D = "putDiffs (self s) (owners (gs_view (currentView s)) (pa_key query)) (pa_key query) (diffs s)"
  let ?s' = "s2\<lparr>currentViewMutex := False, diffs := ?D, hashMutex := False\<rparr>"
  have r: "putAccepted query s = Inr (\<lparr>pr_status = OK\<rparr>, ?s')"
    using q f(1) getServer_owners [OF ring, of "pa_key query"]
    by (simp add: putAccepted_def lock_hash_def quiet_def s2(1) lock_view_def f unlock_view_def
        unlock_hash_def Let_def putDiffs_def)
  have i: "kv_inv ?s'" using putAccepted_safe [OF inv, of query] r by simp
  have "ctl ?s' = ctl s" using f(2) q by (simp add: ctl_def quiet_def)
  with r i s2(4) show ?thesis by simp
qed

text \<open>What a \<open>get\<close> writes: links of the list of use, and one counter.\<close>

lemma accessEntry_frame:
  assumes "accessEntry p t = Inr t'"
  shows "t' = t\<lparr>hashTable := hashTable t', listHead := listHead t', listTail := listTail t'\<rparr>"
  using assms
  by (auto simp: accessEntry_def removeFromList_def addToFront_def modRec_def Let_def elim!: bindE_InrE split: if_splits)

definition count_get :: "bool \<Rightarrow> GetStatisticsReply \<Rightarrow> GetStatisticsReply" where
  "count_get good st = (if good then st\<lparr>numGoodGets := numGoodGets st + 1\<rparr> else st\<lparr>numFailedGets := numFailedGets st + 1\<rparr>)"

lemma getTable_frame:
  assumes "getTable k t = Inr (r, t')"
  shows "t' = t\<lparr>hashTable := hashTable t', listHead := listHead t', listTail := listTail t',
    statistics := count_get (r \<noteq> None) (statistics t)\<rparr>"
proof -
  let ?u = "t\<lparr>statistics := (statistics t)\<lparr>numGoodGets := numGoodGets (statistics t) + 1\<rparr>\<rparr>"
  from assms consider p where "accessEntry p ?u = Inr t'" "r \<noteq> None"
    | "t' = t\<lparr>statistics := (statistics t)\<lparr>numFailedGets := numFailedGets (statistics t) + 1\<rparr>\<rparr>" "r = None"
    by (auto simp: getTable_def elim!: bindE_InrE split: if_splits)
  then show ?thesis
  proof cases
    case (1 p)
    have "?u\<lparr>hashTable := h, listHead := i, listTail := j\<rparr> = t\<lparr>hashTable := h, listHead := i, listTail := j,
      statistics := (statistics t)\<lparr>numGoodGets := numGoodGets (statistics t) + 1\<rparr>\<rparr>" for h i j by simp
    from trans [OF accessEntry_frame [OF 1(1)] this] 1(2) show ?thesis by (simp only: count_get_def if_True refl simp_thms)
  next
    case 2
    then show ?thesis by (simp add: count_get_def)
  qed
qed

lemma getAccepted_refines:
  assumes q: "quiet s" and inv: "kv_inv s"
  shows "\<exists>s'. getAccepted query s = Inr (case lru_find (ga_key query) (cache s) of
        Some (v, _) \<Rightarrow> \<lparr>gr_status = OK, gr_value = v\<rparr> | None \<Rightarrow> \<lparr>gr_status = NO_KEY, gr_value = []\<rparr>, s') \<and>
    kv_inv s' \<and> ctl s' = ctl s \<and> cache s' = lru_touch (ga_key query) (cache s) \<and> diffs s' = diffs s \<and>
    s' = s\<lparr>hashTable := hashTable s', listHead := listHead s', listTail := listTail s',
      statistics := count_get (lru_find (ga_key query) (cache s) \<noteq> None) (statistics s)\<rparr>"
proof -
  let ?s = "s\<lparr>hashMutex := True\<rparr>"
  have "table_ok ?s" using inv by (simp add: kv_inv_def)
  from getTable_refines [OF this, of "ga_key query"] obtain s2 where
    s2: "getTable (ga_key query) ?s = Inr (map_option fst (lru_find (ga_key query) (cache s)), s2)" "table_ok s2"
      "cache s2 = lru_touch (ga_key query) (cache s)" "frame_eq ?s s2" by auto
  note f = frame_eq_kv [OF s2(4)]
  let ?r = "case lru_find (ga_key query) (cache s) of
        Some (v, _) \<Rightarrow> \<lparr>gr_status = OK, gr_value = v\<rparr> | None \<Rightarrow> \<lparr>gr_status = NO_KEY, gr_value = []\<rparr>"
  have r: "getAccepted query s = Inr (?r, s2\<lparr>hashMutex := False\<rparr>)"
    using q s2(1)
    by (simp add: getAccepted_def lock_hash_def quiet_def unlock_hash_def new_GetReply_def split: option.splits)
  have i: "kv_inv (s2\<lparr>hashMutex := False\<rparr>)" using getAccepted_safe [OF inv, of query] r by simp
  have c: "ctl (s2\<lparr>hashMutex := False\<rparr>) = ctl s" using f(2) q by (simp add: ctl_def quiet_def)
  let ?u = "\<lambda>s'. s'\<lparr>hashTable := hashTable s2, listHead := listHead s2, listTail := listTail s2,
      statistics := count_get (lru_find (ga_key query) (cache s) \<noteq> None) (statistics s)\<rparr>"
  have h: "hashTable (s2\<lparr>hashMutex := False\<rparr>) = hashTable s2" "listHead (s2\<lparr>hashMutex := False\<rparr>) = listHead s2"
    "listTail (s2\<lparr>hashMutex := False\<rparr>) = listTail s2" by simp_all
  have "s2 = ?u ?s" using getTable_frame [OF s2(1)] by simp
  then have "s2\<lparr>hashMutex := False\<rparr> = (?u ?s)\<lparr>hashMutex := False\<rparr>" by (rule arg_cong)
  also have "\<dots> = ?u s" using q by (simp add: quiet_def)
  finally have "s2\<lparr>hashMutex := False\<rparr> = ?u s" .
  then have u: "s2\<lparr>hashMutex := False\<rparr> = s\<lparr>hashTable := hashTable (s2\<lparr>hashMutex := False\<rparr>),
      listHead := listHead (s2\<lparr>hashMutex := False\<rparr>), listTail := listTail (s2\<lparr>hashMutex := False\<rparr>),
      statistics := count_get (lru_find (ga_key query) (cache s) \<noteq> None) (statistics s)\<rparr>"
    unfolding h .
  have "cache (s2\<lparr>hashMutex := False\<rparr>) = lru_touch (ga_key query) (cache s)" "diffs (s2\<lparr>hashMutex := False\<rparr>) = diffs s"
    using s2(3) f(1) by simp_all
  with r i c u show ?thesis by blast
qed

lemma quiet_ctl: "ctl s' = ctl s \<Longrightarrow> quiet s' = quiet s"
  by (simp add: ctl_def quiet_def)

lemma put_then_get:
  assumes q: "quiet s" and inv: "kv_inv s" and ring: "hashToServer (gs_view (currentView s)) \<noteq> []"
    and view: "pa_viewNum q = gs_viewNum (currentView s)"
    and put: "put lk rpc q s = Inr (\<lparr>pr_status = OK\<rparr>, s')"
  shows "kv_inv s' \<and> ctl s' = ctl s \<and> (\<exists>s''. get lk' rpc' \<lparr>ga_key = pa_key q, ga_viewNum = pa_viewNum q\<rparr> s'
    = Inr (\<lparr>gr_status = OK, gr_value = pa_value q\<rparr>, s''))"
proof -
  have n: "pa_viewNum q \<le> gs_viewNum (currentView s)" using view by simp
  have own: "self s \<in> set (owners (gs_view (currentView s)) (pa_key q))"
    using put checkServer_known [OF q n ring, of lk rpc "pa_key q"] by (auto simp: put_def split: if_splits)
  have s': "kv_inv s'" "ctl s' = ctl s"
    "cache s' = lru_put (self s) (pa_key q) (pa_value q) (lru_trim (cache s))"
    using putAccepted_refines [OF q inv ring, of q] checkServer_known [OF q n ring] put view own
    by (auto simp: put_def)
  then have c: "self s' = self s" "currentView s' = currentView s" "quiet s'"
    using q by (simp_all add: ctl_def quiet_def)
  let ?g = "\<lparr>ga_key = pa_key q, ga_viewNum = pa_viewNum q\<rparr>"
  have "lru_find (pa_key q) (cache s') = Some (pa_value q, bumpVersion (self s)
      (case lru_find (pa_key q) (lru_trim (cache s)) of None \<Rightarrow> [] | Some (_, ver) \<Rightarrow> ver))"
    by (simp add: s'(3) lru_put_def lru_find_store)
  with getAccepted_refines [OF c(3) s'(1), of ?g] view own ring c
    checkServer_known [OF c(3), of "pa_viewNum q" lk' rpc' "pa_key q"]
  show ?thesis using s'(1,2) by (auto simp: get_def)
qed

section \<open>A lock that is never released\<close>

definition keeps_hash :: "('a \<Rightarrow> kvstate) \<Rightarrow> 'a outcome \<Rightarrow> bool" where
  "keeps_hash st m = (case m of Inr x \<Rightarrow> hashMutex (st x) | Inl (e, s) \<Rightarrow> hashMutex s)"

lemma keeps_hash_simps [simp]:
  "keeps_hash st (Inr x) = hashMutex (st x)" "keeps_hash st (Inl (e, s)) = hashMutex s"
  by (simp_all add: keeps_hash_def)

lemma cleanHash_blocked: "hashMutex s \<Longrightarrow> cleanHash lk s = Inl (Blocked, s)"
  by (simp add: cleanHash_def lock_hash_def)

lemma installView_blocked: "hashMutex s \<Longrightarrow> keeps_hash id (installView lk v s)"
  by (simp add: installView_def setView_def lock_view_def unlock_view_def cleanHash_blocked)

lemma catch_all_keeps: "keeps_hash id m \<Longrightarrow> keeps_hash id (catch_all m)"
  by (auto simp: catch_all_def split: sum.splits)

lemma keeps_hash_bind:
  "keeps_hash st m \<Longrightarrow> (\<And>x. hashMutex (st x) \<Longrightarrow> keeps_hash st' (f x)) \<Longrightarrow> keeps_hash st' (bindE m f)"
  by (cases m) auto

lemma raise_keeps: "hashMutex s \<Longrightarrow> keeps_hash (\<lambda>_. s) (raise_in s m)"
  by (cases m) auto

lemma checkServer_keeps:
  assumes h: "hashMutex s"
  shows "keeps_hash snd (checkServer lk rpc n k s)"
proof -
  have route: "keeps_hash snd (bindE (raise_in s (getServer (ir_hash k) v))
      (\<lambda>supposed. Inr (self s \<in> set supposed, s)))" if "hashMutex s" for s v
    using that by (intro keeps_hash_bind [OF raise_keeps]) auto
  have lv: "keeps_hash id (lock_view s)" using h by (simp add: lock_view_def)
  have fresh: "keeps_hash snd (bindE (raise_in s rpc) (\<lambda>v. bindE (installView lk v s) (\<lambda>s3.
        if n \<noteq> gs_viewNum v then Inr (False, s3) else
        bindE (raise_in s3 (getServer (ir_hash k) (gs_view v))) (\<lambda>supposed.
          Inr (self s3 \<in> set supposed, s3)))))" if "hashMutex s" for s
    using that
    by (intro keeps_hash_bind [OF raise_keeps] keeps_hash_bind [OF installView_blocked])
       (auto intro: route)
  have "keeps_hash snd
     (let cv = currentView s1; s2 = unlock_view s1 in
     if n < gs_viewNum cv then Inr (False, s2)
     else if n > gs_viewNum cv
     then bindE (raise_in s2 rpc) (\<lambda>v.
          bindE (installView lk v s2) (\<lambda>s3.
          if n \<noteq> gs_viewNum v then Inr (False, s3)
          else bindE (raise_in s3 (getServer (ir_hash k) (gs_view v))) (\<lambda>supposed.
               Inr (self s3 \<in> set supposed, s3))))
     else bindE (raise_in s2 (getServer (ir_hash k) (gs_view cv))) (\<lambda>supposed.
          Inr (self s2 \<in> set supposed, s2)))" if "hashMutex s1" for s1
    using that fresh [of "unlock_view s1"] route [of "unlock_view s1"]
    by (simp add: unlock_view_def Let_def)
  with lv show ?thesis unfolding checkServer_def by (intro keeps_hash_bind [OF lv]) auto
qed

lemma body_blocked:
  assumes "hashMutex s"
  shows "putAccepted q s = Inl (Blocked, s)" "getAccepted g s = Inl (Blocked, s)"
    "antiEntropyBegin s = Inl (Blocked, s)" "antiEntropyEnd erased srv rpc s = Inl (Blocked, s)"
  using assms by (simp_all add: putAccepted_def getAccepted_def antiEntropyBegin_def antiEntropyEnd_def
      lock_hash_def)

lemma run_event_keeps:
  assumes h: "hashMutex s"
  shows "keeps_hash id (run_event lk ev s)"
proof (cases ev)
  case (EvCheck n k r)
  then show ?thesis using checkServer_keeps [OF h, of lk "rpc_of r" n k]
    by (cases "checkServer lk (rpc_of r) n k s") (auto simp: to_state_def)
next
  case (EvAntiEntropy q)
  then show ?thesis using h
    by (auto simp: antiEntropy_def lock_view_def lock_hash_def unlock_view_def Let_def to_state_def)
next
  case (EvPing r)
  then show ?thesis using h installView_blocked [OF h]
    by (cases "rpc_of r") (auto simp: pingViewService_def intro!: catch_all_keeps)
qed (use h in \<open>simp_all add: body_blocked to_state_def getStatistics_def Let_def setView_def lock_view_def unlock_view_def cleanHash_blocked\<close>)

lemma kv_step_keeps: "kv_step lk ev s s' \<Longrightarrow> hashMutex s \<Longrightarrow> hashMutex s'"
  using run_event_keeps [of s lk ev]
  by (auto simp: kv_step_iff continues_def split: sum.splits if_splits)

text \<open>A purge under an empty ring throws with the mutex held, and the ping thread swallows it.\<close>

lemma ping_empty_ring:
  assumes q: "quiet s" and inv: "kv_inv s" and c: "cache s \<noteq> []"
    and v: "hashToServer (gs_view v) = []" "gs_viewNum v \<noteq> gs_viewNum (currentView s)"
  shows "\<exists>s'. pingViewService lk (Inr v) s = Inr s' \<and> hashMutex s' \<and> kv_inv s'"
proof -
  let ?s = "s\<lparr>currentView := v, currentViewMutex := False\<rparr>"
  let ?h = "?s\<lparr>hashMutex := True\<rparr>"
  have i: "kv_inv ?s" using inv by simp
  then have ok: "table_ok ?h" by (simp add: kv_inv_def)
  have "cache ?h \<noteq> []" using c by simp
  moreover obtain xs where xs: "table_inv ?h xs" "cache ?h = entries (hashTable ?h) xs"
    using ok by (rule table_okE)
  ultimately obtain x zs where t: "table_inv ?h (x # zs)"
    by (cases xs) (simp_all add: entries_Nil)
  have hd: "listHead ?h = int x" "0 < tsize ?h"
    using table_invD(1,8) [OF t] by (auto simp: linked_def)
  then obtain n where n: "tsize ?h = Suc n" by (cases "tsize ?h") auto
  have "cleanLoop lk (Suc n) (int x) ?h = Inl (EmptyRingException, ?h)"
    using table_inv_next(1) [of ?h "[]" x zs] t v(1)
    by (subst cleanLoop.simps) (simp add: getServer_def)
  then have "cleanHash lk ?s = Inl (EmptyRingException, ?h)"
    using q hd(1) n by (simp add: cleanHash_def lock_hash_def quiet_def tsize_def)
  then have "pingViewService lk (Inr v) s = Inr ?h"
    using q v(2)
    by (simp add: pingViewService_def installView_def setView_def lock_view_def unlock_view_def quiet_def Let_def
        catch_all_def is_exception_def)
  then show ?thesis using i by (intro exI [of _ ?h]) simp
qed

end
