(* ===== verification/KV_Spec.thy ===== *)
theory KV_Spec
  imports KV_Runs
begin

text \<open>
  What a cache server promises, stated over the operations of \<open>server.cpp\<close>. Each property stands
  after its description; the witnesses use a server with one entry in a one-server view.
\<close>

section \<open>Concrete states\<close>

definition demo_self :: Server where
  "demo_self = Server ''a'' 1"

definition demo_peer :: Server where
  "demo_peer = Server ''b'' 2"

definition demo_view :: GetServersReply where
  "demo_view = \<lparr>gs_view = \<lparr>hashToServer = [(0, [demo_self, demo_peer])]\<rparr>, gs_viewNum = 3\<rparr>"

text \<open>The state the constructor builds, after the first ping.\<close>

definition demo_fresh :: kvstate where
  "demo_fresh = (table.extend (init_table demo_self)
     (kvstate.fields new_GetServersReply [] False False ''vs'' 9))\<lparr>currentView := demo_view\<rparr>"

text \<open>The same server after one \<open>put\<close>.\<close>

definition demo_full :: kvstate where
  "demo_full = (case putAccepted \<lparr>pa_key = ''k'', pa_value = ''v'', pa_viewNum = 3\<rparr> demo_fresh of
     Inr (_, s) \<Rightarrow> s | Inl (_, s) \<Rightarrow> s)"

lemma demo_fresh_ok: "kv_inv demo_fresh" "quiet demo_fresh" "cache demo_fresh = []" "self demo_fresh = demo_self"
  "currentView demo_fresh = demo_view" "diffs demo_fresh = []"
proof -
  let ?s = "table.extend (init_table demo_self) (kvstate.fields new_GetServersReply [] False False ''vs'' 9)"
  have "new_KVStorageHandler (Inr ()) ''a'' 1 ''vs'' 9 = Inr ?s"
    by (simp add: new_KVStorageHandler_def demo_self_def)
  note i = new_KVStorageHandler_inv [OF this]
  from i show "kv_inv demo_fresh" "quiet demo_fresh" "cache demo_fresh = []" "self demo_fresh = demo_self"
    "currentView demo_fresh = demo_view"
    by (simp_all add: demo_fresh_def quiet_def demo_self_def)
  show "diffs demo_fresh = []" by (simp add: demo_fresh_def table.defs kvstate.defs)
qed

lemma demo_owners: "owners (gs_view demo_view) k = [demo_self, demo_peer]"
  by (simp add: owners_def getServer_def demo_view_def split: option.splits)

lemma demo_full_ok: "kv_inv demo_full" "quiet demo_full" "cache demo_full = [(''k'', ''v'', [(demo_self, 1)])]"
  "self demo_full = demo_self" "currentView demo_full = demo_view" "diffs demo_full = [(demo_peer, [''k''])]"
proof -
  let ?q = "\<lparr>pa_key = ''k'', pa_value = ''v'', pa_viewNum = 3\<rparr>"
  have ring: "hashToServer (gs_view (currentView demo_fresh)) \<noteq> []"
    by (simp add: demo_fresh_ok demo_view_def)
  from putAccepted_refines [OF demo_fresh_ok(2,1) ring, of ?q] obtain s where
    s: "putAccepted ?q demo_fresh = Inr (\<lparr>pr_status = OK\<rparr>, s)" "kv_inv s" "ctl s = ctl demo_fresh"
      "cache s = lru_put demo_self ''k'' ''v'' (lru_trim [])"
      "diffs s = putDiffs demo_self [demo_self, demo_peer] ''k'' []"
    by (auto simp: demo_fresh_ok demo_owners)
  have full: "demo_full = s" by (simp add: demo_full_def s(1))
  show "kv_inv demo_full" "cache demo_full = [(''k'', ''v'', [(demo_self, 1)])]"
    using s by (simp_all add: full lru_trim_small lru_bytes_simps lru_put_def lru_store_def lru_find_def lru_remove_def)
  show "quiet demo_full" using quiet_ctl [OF s(3)] demo_fresh_ok by (simp add: full)
  show "self demo_full = demo_self" "currentView demo_full = demo_view"
    using s(3) demo_fresh_ok by (simp_all add: full ctl_def)
  show "diffs demo_full = [(demo_peer, [''k''])]"
    by (simp add: full s(5) putDiffs_def addDiff_def smap_modify_def demo_self_def demo_peer_def
        smap_put.simps)
qed

text \<open>After a second \<open>put\<close>, and a view in which only the other server is left.\<close>

definition demo_two :: kvstate where
  "demo_two = (case putAccepted \<lparr>pa_key = ''x'', pa_value = ''y'', pa_viewNum = 3\<rparr> demo_full of
     Inr (_, s) \<Rightarrow> s | Inl (_, s) \<Rightarrow> s)"

definition demo_away :: GetServersReply where
  "demo_away = \<lparr>gs_view = \<lparr>hashToServer = [(0, [demo_peer])]\<rparr>, gs_viewNum = 4\<rparr>"

lemma demo_away_owners: "owners (gs_view demo_away) k = [demo_peer]"
  by (simp add: owners_def getServer_def demo_away_def split: option.splits)

lemma demo_two_ok: "kv_inv demo_two" "quiet demo_two" "self demo_two = demo_self"
  "cache demo_two = [(''x'', ''y'', [(demo_self, 1)]), (''k'', ''v'', [(demo_self, 1)])]"
proof -
  let ?q = "\<lparr>pa_key = ''x'', pa_value = ''y'', pa_viewNum = 3\<rparr>"
  have ring: "hashToServer (gs_view (currentView demo_full)) \<noteq> []"
    by (simp add: demo_full_ok demo_view_def)
  from putAccepted_refines [OF demo_full_ok(2,1) ring, of ?q] obtain s where
    s: "putAccepted ?q demo_full = Inr (\<lparr>pr_status = OK\<rparr>, s)" "kv_inv s" "ctl s = ctl demo_full"
      "cache s = lru_put demo_self ''x'' ''y'' (lru_trim [(''k'', ''v'', [(demo_self, 1)])])"
    by (auto simp: demo_full_ok)
  have two: "demo_two = s" by (simp add: demo_two_def s(1))
  show "kv_inv demo_two" using s by (simp add: two)
  show "cache demo_two = [(''x'', ''y'', [(demo_self, 1)]), (''k'', ''v'', [(demo_self, 1)])]"
    using s(4) by (simp add: two lru_trim_small lru_bytes_simps entry_bytes_def MEMORY_LIMIT_def lru_put_def
        lru_store_def lru_find_def lru_remove_def)
  show "quiet demo_two" using quiet_ctl [OF s(3)] demo_full_ok by (simp add: two)
  show "self demo_two = demo_self" using s(3) demo_full_ok by (simp add: two ctl_def)
qed



section \<open>Storage\<close>

text \<open>
  C30. Finding a key: on a well-formed table \<open>getPosition\<close> ends, and the slot it gives is the live slot
  of the key with its value and version if the key is stored, and a free slot otherwise.
\<close>

theorem getPosition_correct:
  assumes "table_ok t"
  shows "\<exists>p r. getPosition k t = Inr p \<and> readRec p t = Inr r \<and>
    (case lru_find k (cache t) of
       None \<Rightarrow> rstate r = EMPTY
     | Some (v, w) \<Rightarrow> rstate r = ALIVE \<and> rkey r = k \<and> rvalue r = v \<and> rversion r = w)"
proof (cases "lru_find k (cache t)")
  case None
  then show ?thesis using storage.miss [OF assms] by auto
next
  case (Some e)
  then show ?thesis using storage.hit [OF assms, of k "fst e" "snd e"] by (auto simp: case_prod_unfold)
qed

theorem getPosition_correct_witness:
  "\<exists>p r. getPosition ''k'' demo_full = Inr p \<and> readRec p demo_full = Inr r \<and> rvalue r = ''v''"
  using getPosition_correct [of demo_full "''k''"] demo_full_ok by (auto simp: kv_inv_def lru_find_def)

text \<open>
  The probe loop of \<open>getPosition\<close> runs forever exactly when no slot is free and none holds the
  key: one round through the table is enough to tell, so the bound on the number of probes loses
  nothing.
\<close>

theorem getPosition_diverges_iff:
  assumes "hashTable t \<noteq> []"
  shows "getPosition k t = Inl Diverges \<longleftrightarrow>
    (\<forall>r. r \<in> set (hashTable t) \<longrightarrow> rstate r \<noteq> EMPTY \<and> \<not> (rstate r = ALIVE \<and> rkey r = k))"
proof -
  let ?stop = "\<lambda>r. rstate r = EMPTY \<or> rstate r = ALIVE \<and> rkey r = k"
  let ?tab = "hashTable t"
  have lt: "unat (hash k) mod length ?tab < length ?tab" using assms by simp
  show ?thesis
  proof (cases "\<exists>r\<in>set ?tab. ?stop r")
    case True
    then obtain p where "p < length ?tab" "?stop (?tab ! p)" by (auto simp: in_set_conv_nth)
    from probe_finds [of p ?tab ?stop k, OF this] assms True show ?thesis
      by (auto simp: getPosition_def startPos_def tsize_def)
  next
    case False
    then have "probe (length ?tab) ?stop (unat (hash k) mod length ?tab) ?tab = Inl Diverges"
      using assms by (intro probe_exhausted [OF lt]) auto
    with assms False show ?thesis by (auto simp: getPosition_def startPos_def tsize_def)
  qed
qed

theorem getPosition_diverges_iff_witness:
  "getPosition ''k'' ((init_table demo_self)\<lparr>hashTable := [new_Record\<lparr>rstate := DEAD\<rparr>]\<rparr>) = Inl Diverges"
  using getPosition_diverges_iff [of "(init_table demo_self)\<lparr>hashTable := [new_Record\<lparr>rstate := DEAD\<rparr>]\<rparr>" "''k''"]
  by (simp add: new_Record_def)

text \<open>
  C11. \<open>normalizeTable\<close> succeeds, evicts from the least recently used end and no more than the memory
  limit needs, keeps the order of the rest, and leaves the table at most half full.
\<close>

theorem normalizeTable_correct:
  assumes "table_ok t"
  shows "\<exists>t' n. normalizeTable t = Inr t' \<and> table_ok t' \<and> cache t' = take n (cache t) \<and>
    getUsedMemory t' \<le> MEMORY_LIMIT \<and>
    (\<forall>m. n < m \<longrightarrow> m \<le> length (cache t) \<longrightarrow>
       MEMORY_LIMIT < sint (of_nat (lru_bytes (take m (cache t))) :: 32 word)) \<and>
    2 * (numEntries t' + numDeadEntries t') \<le> int (tsize t')"
proof -
  from normalize_refines [OF assms] obtain t' where t': "normalizeTable t = Inr t'" "table_ok t'"
    "cache t' = lru_trim (cache t)" "getUsedMemory t' \<le> MEMORY_LIMIT"
    "2 * (numEntries t' + numDeadEntries t') \<le> int (tsize t')" by blast
  obtain n where n: "lru_trim (cache t) = take n (cache t)"
    "\<forall>m. n < m \<longrightarrow> m \<le> length (cache t) \<longrightarrow>
       MEMORY_LIMIT < sint (of_nat (lru_bytes (take m (cache t))) :: 32 word)"
    using lru_trim_minimal [of "cache t"] by blast
  with t' show ?thesis by (intro exI [of _ t'] exI [of _ n]) simp
qed

theorem normalizeTable_correct_witness:
  "\<exists>t' n. normalizeTable demo_full = Inr t' \<and> table_ok t' \<and> cache t' = take n (cache demo_full)"
  using normalizeTable_correct [of demo_full] demo_full_ok(1) by (auto simp: kv_inv_def)

text \<open>
  The 32-bit byte counter is exact: as long as no entry is larger than a gigabyte the stored bytes
  stay below \<open>2 ^ 31\<close> after every \<open>put\<close>, the counter read as a signed integer is their number, and
  what was stored before the new entry fits into the memory limit.
\<close>

theorem putTable_bytes:
  assumes ok: "table_ok t" and small: "lru_bytes (cache t) < 2 ^ 31"
    and entry: "length k + length v < 2 ^ 30"
  shows "\<exists>t'. putTable k v t = Inr t' \<and> lru_bytes (cache t') < 2 ^ 31 \<and>
    getUsedMemory t' = int (lru_bytes (cache t')) \<and>
    int (lru_bytes (cache t')) \<le> MEMORY_LIMIT + int (length k + length v)"
proof -
  from putTable_refines [OF ok, of k v] obtain t' where t': "putTable k v t = Inr t'" "table_ok t'"
    "cache t' = lru_put (self t) k v (lru_trim (cache t))" by blast
  have b: "int (lru_bytes (cache t')) \<le> MEMORY_LIMIT + int (length k + length v)"
    using lru_trim_bytes [OF small] lru_bytes_remove_le [of k "lru_trim (cache t)"]
    by (simp add: t'(3) lru_put_def lru_store_def lru_bytes_simps entry_bytes_def)
  then have "lru_bytes (cache t') < 2 ^ 31" using entry by (simp add: MEMORY_LIMIT_def)
  with t' b show ?thesis by (simp add: getUsedMemory_cache)
qed

theorem putTable_bytes_witness:
  "\<exists>t'. putTable ''k'' ''w'' demo_full = Inr t' \<and> getUsedMemory t' = int (lru_bytes (cache t'))"
  using putTable_bytes [of demo_full "''k''" "''w''"] demo_full_ok(1,3)
  by (auto simp: kv_inv_def lru_bytes_simps entry_bytes_def)

text \<open>
  C20. Rebuilding the table into any size that holds the live entries keeps the entries, their versions
  and their order of use, and leaves no dead slot.
\<close>

theorem rehash_correct:
  assumes ok: "table_ok t" and size: "10 \<le> n" "2 * length (cache t) \<le> n"
  shows "\<exists>t'. rehash n t = Inr t' \<and> table_ok t' \<and> cache t' = cache t \<and> numDeadEntries t' = 0 \<and> tsize t' = n"
proof -
  obtain xs where inv: "table_inv t xs" and c: "cache t = entries (hashTable t) xs"
    using ok by (rule table_okE)
  from rehash_inv [OF inv, of n] size c show ?thesis
    by (auto simp: table_inv_cache)
qed

theorem rehash_correct_witness:
  "\<exists>t'. rehash 20 demo_full = Inr t' \<and> table_ok t' \<and> cache t' = [(''k'', ''v'', [(demo_self, 1)])]"
  using rehash_correct [of demo_full 20] demo_full_ok(1,3) by (auto simp: kv_inv_def)

section \<open>Requests\<close>

text \<open>
  C7. A \<open>put\<close> whose caller and server agree on the view, at a server that owns the key: it is
  acknowledged, the table becomes the trimmed cache with the new entry as the most recently used one
  and this server's counter in its version increased, the key becomes pending for every other owner
  and for nobody else, and no lock stays held.
\<close>

theorem put_accepted:
  assumes q: "quiet s" and inv: "kv_inv s" and ring: "hashToServer (gs_view (currentView s)) \<noteq> []"
    and view: "pa_viewNum q = gs_viewNum (currentView s)"
    and own: "self s \<in> set (owners (gs_view (currentView s)) (pa_key q))"
  shows "\<exists>s'. put lk rpc q s = Inr (\<lparr>pr_status = OK\<rparr>, s') \<and> kv_inv s' \<and> quiet s' \<and>
    cache s' = lru_put (self s) (pa_key q) (pa_value q) (lru_trim (cache s)) \<and>
    (\<forall>srv. smap_find (diffs s') srv =
       (if srv \<noteq> self s \<and> srv \<in> set (owners (gs_view (currentView s)) (pa_key q))
        then Some (sset_insert (pa_key q) (case smap_find (diffs s) srv of None \<Rightarrow> [] | Some ks \<Rightarrow> ks))
        else smap_find (diffs s) srv))"
proof -
  have d: "smap_ok (diffs s)" using inv by (simp add: kv_inv_def diffs_ok_def)
  have n: "pa_viewNum q \<le> gs_viewNum (currentView s)" using view by simp
  have chk: "checkServer lk rpc (pa_viewNum q) (pa_key q) s = Inr (True, s)"
    using checkServer_known [OF q n ring] view own by simp
  from putAccepted_refines [OF assms(1-3), of q] obtain s' where
    s': "putAccepted q s = Inr (\<lparr>pr_status = OK\<rparr>, s')" "kv_inv s'" "ctl s' = ctl s"
      "cache s' = lru_put (self s) (pa_key q) (pa_value q) (lru_trim (cache s))"
      "diffs s' = putDiffs (self s) (owners (gs_view (currentView s)) (pa_key q)) (pa_key q) (diffs s)"
    by blast
  have "quiet s'" using quiet_ctl [OF s'(3)] q by simp
  with s'(1,2,4) chk show ?thesis
    by (intro exI [of _ s']) (simp add: put_def s'(5) putDiffs_find [OF d])
qed

theorem put_accepted_witness:
  "\<exists>s'. put True (Inl TTransportException) \<lparr>pa_key = ''k'', pa_value = ''w'', pa_viewNum = 3\<rparr> demo_full
      = Inr (\<lparr>pr_status = OK\<rparr>, s') \<and> cache s' = [(''k'', ''w'', [(demo_self, 2)])]"
  using put_accepted [of demo_full "\<lparr>pa_key = ''k'', pa_value = ''w'', pa_viewNum = 3\<rparr>" True "Inl TTransportException"]
    demo_full_ok demo_owners
  by (auto simp: demo_view_def lru_trim_small lru_bytes_simps entry_bytes_def MEMORY_LIMIT_def
      lru_put_def lru_store_def lru_find_def lru_remove_def)

text \<open>
  A \<open>put\<close> with an outdated view number, or for a key this server does not own, is refused with
  \<open>WRONG_SERVER\<close> and changes nothing.
\<close>

theorem put_refused:
  assumes q: "quiet s" and ring: "hashToServer (gs_view (currentView s)) \<noteq> []"
    and n: "pa_viewNum q \<le> gs_viewNum (currentView s)"
    and no: "pa_viewNum q < gs_viewNum (currentView s) \<or>
      self s \<notin> set (owners (gs_view (currentView s)) (pa_key q))"
  shows "put lk rpc q s = Inr (\<lparr>pr_status = WRONG_SERVER\<rparr>, s)"
  using no by (auto simp: put_def checkServer_known [OF q n ring])

theorem put_refused_witness:
  "put True (Inl TTransportException) \<lparr>pa_key = ''k'', pa_value = ''w'', pa_viewNum = 2\<rparr> demo_full
     = Inr (\<lparr>pr_status = WRONG_SERVER\<rparr>, demo_full)"
  using put_refused [of demo_full "\<lparr>pa_key = ''k'', pa_value = ''w'', pa_viewNum = 2\<rparr>" True "Inl TTransportException"]
    demo_full_ok by (simp add: demo_view_def)

text \<open>
  C21. A \<open>get\<close> whose caller and server agree on the view, at an owner of the key: \<open>OK\<close> with the stored
  value, which becomes the most recently used entry, or \<open>NO_KEY\<close>. The entries, their values and
  versions stay; what is written are the links of the list of use in the table and one counter of
  the statistics, \<open>numGoodGets\<close> or \<open>numFailedGets\<close>, which goes up by one. Every other field keeps its
  value.
\<close>

theorem get_accepted:
  assumes q: "quiet s" and inv: "kv_inv s" and ring: "hashToServer (gs_view (currentView s)) \<noteq> []"
    and view: "ga_viewNum q = gs_viewNum (currentView s)"
    and own: "self s \<in> set (owners (gs_view (currentView s)) (ga_key q))"
  shows "\<exists>s'. get lk rpc q s = Inr (case lru_find (ga_key q) (cache s) of
        Some (v, _) \<Rightarrow> \<lparr>gr_status = OK, gr_value = v\<rparr> | None \<Rightarrow> \<lparr>gr_status = NO_KEY, gr_value = []\<rparr>, s') \<and>
    kv_inv s' \<and> quiet s' \<and> cache s' = lru_touch (ga_key q) (cache s) \<and> diffs s' = diffs s \<and>
    s' = s\<lparr>hashTable := hashTable s', listHead := listHead s', listTail := listTail s',
      statistics := count_get (lru_find (ga_key q) (cache s) \<noteq> None) (statistics s)\<rparr>"
proof -
  have n: "ga_viewNum q \<le> gs_viewNum (currentView s)" using view by simp
  have chk: "checkServer lk rpc (ga_viewNum q) (ga_key q) s = Inr (True, s)"
    using checkServer_known [OF q n ring] view own by simp
  from getAccepted_refines [OF q inv, of q] obtain s' where
    s': "getAccepted q s = Inr (case lru_find (ga_key q) (cache s) of
        Some (v, _) \<Rightarrow> \<lparr>gr_status = OK, gr_value = v\<rparr> | None \<Rightarrow> \<lparr>gr_status = NO_KEY, gr_value = []\<rparr>, s')"
      "kv_inv s'" "ctl s' = ctl s" "cache s' = lru_touch (ga_key q) (cache s)" "diffs s' = diffs s"
      "s' = s\<lparr>hashTable := hashTable s', listHead := listHead s', listTail := listTail s',
        statistics := count_get (lru_find (ga_key q) (cache s) \<noteq> None) (statistics s)\<rparr>"
    by blast
  have "quiet s'" using quiet_ctl [OF s'(3)] q by simp
  moreover have "get lk rpc q s = getAccepted q s" using chk by (simp add: get_def)
  ultimately show ?thesis using s' by (simp only:) blast
qed

theorem get_accepted_witness:
  "\<exists>s'. get True (Inl TTransportException) \<lparr>ga_key = ''k'', ga_viewNum = 3\<rparr> demo_full
      = Inr (\<lparr>gr_status = OK, gr_value = ''v''\<rparr>, s')"
  using get_accepted [of demo_full "\<lparr>ga_key = ''k'', ga_viewNum = 3\<rparr>" True "Inl TTransportException"]
    demo_full_ok demo_owners
  by (auto simp: demo_view_def lru_find_def)

text \<open>
  Reading one's own write: a \<open>get\<close> right after an acknowledged \<open>put\<close> of the same key returns the
  value put, whatever the cache had to evict.
\<close>

theorem get_after_put:
  assumes q: "quiet s" and inv: "kv_inv s" and ring: "hashToServer (gs_view (currentView s)) \<noteq> []"
    and view: "pa_viewNum q = gs_viewNum (currentView s)"
    and put: "put lk rpc q s = Inr (\<lparr>pr_status = OK\<rparr>, s')"
  shows "\<exists>s''. get lk' rpc' \<lparr>ga_key = pa_key q, ga_viewNum = pa_viewNum q\<rparr> s'
    = Inr (\<lparr>gr_status = OK, gr_value = pa_value q\<rparr>, s'')"
  using put_then_get [OF assms] by blast

theorem get_after_put_witness:
  "\<exists>s'. put True (Inl TTransportException) \<lparr>pa_key = ''x'', pa_value = ''y'', pa_viewNum = 3\<rparr> demo_full
      = Inr (\<lparr>pr_status = OK\<rparr>, s') \<and>
    (\<exists>s''. get True (Inl TTransportException) \<lparr>ga_key = ''x'', ga_viewNum = 3\<rparr> s'
      = Inr (\<lparr>gr_status = OK, gr_value = ''y''\<rparr>, s''))"
proof -
  let ?q = "\<lparr>pa_key = ''x'', pa_value = ''y'', pa_viewNum = 3\<rparr>" and ?r = "Inl TTransportException"
  have v: "hashToServer (gs_view (currentView demo_full)) \<noteq> []" "pa_viewNum ?q = gs_viewNum (currentView demo_full)"
    by (simp_all add: demo_full_ok demo_view_def)
  from putAccepted_refines [OF demo_full_ok(2,1) v(1), of ?q] obtain s' where
    "put True ?r ?q demo_full = Inr (\<lparr>pr_status = OK\<rparr>, s')"
    using checkServer_known [OF demo_full_ok(2) _ v(1), of 3 True ?r "''x''"]
    by (auto simp: put_def demo_full_ok demo_owners) (auto simp: demo_view_def)
  with get_after_put [OF demo_full_ok(2,1) v this, of True ?r] show ?thesis by auto
qed

section \<open>Runs\<close>

text \<open>
  C2. In every state a server can reach from its constructor, by any interleaving of requests and
  background threads, the invariant holds, and no event trips an assertion, indexes the table out of
  range, divides by zero or loops forever.
\<close>

theorem reachable_safe:
  assumes "kv_reach lk s"
  shows "kv_inv s \<and> run_event lk ev s \<noteq> Inl (AssertFailed, s') \<and> run_event lk ev s \<noteq> Inl (OutOfRange, s') \<and>
    run_event lk ev s \<noteq> Inl (DivByZero, s') \<and> run_event lk ev s \<noteq> Inl (Diverges, s')"
  using kv_reach_inv [OF assms] any_event.no_panic [of s lk ev s'] by simp

theorem reachable_safe_witness:
  "\<exists>s. new_KVStorageHandler (rpc_of (Some ())) ''a'' 1 ''vs'' 9 = Inr s \<and>
     run_event True (EvPing (Some demo_view)) s \<noteq> Inl (AssertFailed, demo_full)"
proof -
  obtain s where s: "new_KVStorageHandler (rpc_of (Some ())) ''a'' 1 ''vs'' 9 = Inr s"
    by (simp add: new_KVStorageHandler_def rpc_of_def)
  from reachable_safe [OF kv_reach.init [OF s, of True], of "EvPing (Some demo_view)" demo_full] s
  show ?thesis by blast
qed

text \<open>
  C32. A view with an empty ring wedges a server that holds data: the purge throws while it holds
  \<open>hashMutex\<close>, the ping thread swallows the exception, and from then on, through every further event,
  the mutex stays locked and every \<open>put\<close>, \<open>get\<close> and anti-entropy round blocks.
\<close>

theorem empty_ring_wedges:
  assumes "quiet s" "kv_inv s" "cache s \<noteq> []" "hashToServer (gs_view v) = []"
    and "gs_viewNum v \<noteq> gs_viewNum (currentView s)"
  shows "\<exists>s'. pingViewService lk (Inr v) s = Inr s' \<and>
    (\<forall>s''. (\<lambda>x y. \<exists>ev. kv_step lk ev x y)\<^sup>*\<^sup>* s' s'' \<longrightarrow>
       putAccepted q s'' = Inl (Blocked, s'') \<and> getAccepted g s'' = Inl (Blocked, s'') \<and>
       antiEntropyBegin s'' = Inl (Blocked, s''))"
proof -
  from ping_empty_ring [OF assms] obtain s' where s': "pingViewService lk (Inr v) s = Inr s'" "hashMutex s'"
    by blast
  have "hashMutex s''" if "(\<lambda>x y. \<exists>ev. kv_step lk ev x y)\<^sup>*\<^sup>* s' s''" for s''
    using that s'(2) by (induction rule: rtranclp_induct) (auto dest: kv_step_keeps)
  then show ?thesis using s'(1) body_blocked by blast
qed

theorem empty_ring_wedges_witness:
  "\<exists>s'. pingViewService True (Inr \<lparr>gs_view = \<lparr>hashToServer = []\<rparr>, gs_viewNum = 4\<rparr>) demo_full = Inr s' \<and>
     getAccepted \<lparr>ga_key = ''k'', ga_viewNum = 4\<rparr> s' = Inl (Blocked, s')"
  using empty_ring_wedges [of demo_full "\<lparr>gs_view = \<lparr>hashToServer = []\<rparr>, gs_viewNum = 4\<rparr>" True
      "\<lparr>pa_key = [], pa_value = [], pa_viewNum = 4\<rparr>" "\<lparr>ga_key = ''k'', ga_viewNum = 4\<rparr>"] demo_full_ok
  by (auto simp: demo_view_def)

text \<open>
  C31. \<open>cleanHash\<close> purges one entry only: the entries used more recently than the first foreign one
  get their version restricted, the first foreign one is dropped, and every entry after it is left
  as it is, whoever owns it, because the loop goes on with the link of the slot it has just reset. So
  it is if a freed node of \<open>std::map\<close> still leads on (\<open>lk\<close>), which \<open>adjustVersion\<close> relies on when it
  increments an iterator it has erased; if it does not, this is what happens or the purge ends at
  such an iterator.
\<close>

theorem cleanHash_first_foreign:
  assumes q: "quiet s" and inv: "kv_inv s" and ring: "hashToServer (gs_view (currentView s)) \<noteq> []"
    and c: "cache s = es @ (k, v, w) # fs"
    and own: "list_all (\<lambda>e. self s \<in> set (owners (gs_view (currentView s)) (fst e))) es"
    and foreign: "self s \<notin> set (owners (gs_view (currentView s)) k)"
  shows "(\<exists>s'. cleanHash lk s = Inr s' \<and> kv_inv s' \<and> quiet s' \<and>
      cache s' = map (\<lambda>(k, v, w). (k, v, restrictVersion (owners (gs_view (currentView s)) k) w)) es @ fs) \<or>
    \<not> lk \<and> (\<exists>s'. cleanHash lk s = Inl (InvalidIterator, s') \<and> kv_inv s' \<and> hashMutex s')"
proof -
  have l: "lru_clean (owners (gs_view (currentView s))) (self s) (es @ (k, v, w) # fs) =
    map (\<lambda>(k, v, w). (k, v, restrictVersion (owners (gs_view (currentView s)) k) w)) es @ fs"
    using own foreign by (induction es) auto
  have "\<not> hashMutex s" using q by (simp add: quiet_def)
  then consider s' where "cleanHash lk s = Inr s'" "kv_inv s'" "ctl s' = ctl s"
      "cache s' = lru_clean (owners (gs_view (currentView s))) (self s) (cache s)"
    | s' where "cleanHash lk s = Inl (InvalidIterator, s')" "kv_inv s'" "hashMutex s'" "\<not> lk"
    using cleanHash_post [OF inv, of lk] ring by blast
  then show ?thesis
  proof cases
    case (1 s')
    moreover have "quiet s'" using quiet_ctl [OF 1(3)] q by simp
    ultimately show ?thesis using c l by simp
  qed blast
qed

theorem cleanHash_first_foreign_witness:
  "\<exists>s'. cleanHash True (demo_two\<lparr>currentView := demo_away\<rparr>) = Inr s' \<and>
     cache s' = [(''k'', ''v'', [(demo_self, 1)])]"
proof -
  let ?s = "demo_two\<lparr>currentView := demo_away\<rparr>"
  have "(\<exists>s'. cleanHash True ?s = Inr s' \<and> kv_inv s' \<and> quiet s' \<and>
    cache s' = map (\<lambda>(k, v, w). (k, v, restrictVersion (owners (gs_view (currentView ?s)) k) w)) [] @
      [(''k'', ''v'', [(demo_self, 1)])]) \<or>
    \<not> True \<and> (\<exists>s'. cleanHash True ?s = Inl (InvalidIterator, s') \<and> kv_inv s' \<and> hashMutex s')"
    by (rule cleanHash_first_foreign)
       (use demo_two_ok in \<open>simp_all add: quiet_def demo_away_owners\<close>, simp_all add: demo_away_def demo_self_def demo_peer_def)
  then show ?thesis by auto
qed

section \<open>Replicas\<close>








end
