(* ===== verification/View_Service.thy ===== *)
theory View_Service
  imports Consistent_Hashing
begin

text \<open>
  The view service (\<open>class ViewServiceHandler\<close> in \<open>prototype/view.cpp\<close>): the history of views and
  rings, the last ping of every server, and the operations on them. The clock and the random numbers
  are arguments: \<open>now\<close> is what \<open>local_time()\<close> returned, in microseconds, and \<open>g\<close> what \<open>gen()\<close> drew.
  Every critical section is one definition; the threads interleave between them.
\<close>

section \<open>State\<close>

text \<open>A ping time is \<open>None\<close> when it is \<open>not_a_date_time\<close>, the value a default-constructed entry has.\<close>

type_synonym pingmap = "(Server, int option) smap"

record vstate =
  viewNum :: int
  views :: "Server list list"
  rings :: "ring list"
  pings :: pingmap

definition WAIT_CHECK_TIME :: int where "WAIT_CHECK_TIME = 500"
definition DEAD_TIME :: int where "DEAD_TIME = 1000"

definition new_ViewServiceHandler :: vstate where
  "new_ViewServiceHandler = \<lparr>viewNum = 0, views = [[]], rings = [[]], pings = []\<rparr>"

text \<open>\<open>v[i]\<close> on a vector.\<close>

definition atE :: "int \<Rightarrow> 'a list \<Rightarrow> 'a res" where
  "atE i xs = (if 0 \<le> i \<and> i < int (length xs) then Inr (xs ! nat i) else Inl OutOfRange)"

section \<open>Operations\<close>

definition getView :: "vstate \<Rightarrow> GetServersReply res" where
  "getView s =
     bindE (atE (viewNum s) (rings s)) (\<lambda>r.
     Inr \<lparr>gs_view = \<lparr>hashToServer = r\<rparr>, gs_viewNum = viewNum s\<rparr>)"

text \<open>The two critical sections of \<open>addServer\<close>, and the whole handler.\<close>

definition addServer_ping :: "int \<Rightarrow> Server \<Rightarrow> vstate \<Rightarrow> vstate" where
  "addServer_ping now srv s = s\<lparr>pings := smap_put srv (Some now) (pings s)\<rparr>"

definition addServer_view :: "32 word \<Rightarrow> Server \<Rightarrow> vstate \<Rightarrow> vstate res" where
  "addServer_view g srv s =
     bindE (atE (viewNum s) (views s)) (\<lambda>v.
     bindE (atE (viewNum s) (rings s)) (\<lambda>r.
     Inr (s\<lparr>views := views s @ [v @ [srv]],
            rings := rings s @ [smap_put (sint g) [srv] r],
            viewNum := viewNum s + 1\<rparr>)))"

definition addServer :: "int \<Rightarrow> 32 word \<Rightarrow> Server \<Rightarrow> vstate \<Rightarrow> vstate res" where
  "addServer now g srv s = addServer_view g srv (addServer_ping now srv s)"

text \<open>The loop of \<open>addReplica\<close>: the first site that lists the master gets the replica.\<close>

fun replicaLoop :: "Server \<Rightarrow> Server \<Rightarrow> ring \<Rightarrow> ring \<Rightarrow> ring" where
  "replicaLoop srv master [] newHash = newHash"
| "replicaLoop srv master (it # rest) newHash =
     (if master \<in> set (snd it) then smap_modify [] (\<lambda>ss. ss @ [srv]) (fst it) newHash
      else replicaLoop srv master rest newHash)"

definition addReplica :: "int \<Rightarrow> Server \<Rightarrow> Server \<Rightarrow> vstate \<Rightarrow> vstate res" where
  "addReplica now srv master s =
     bindE (atE (viewNum s) (views s)) (\<lambda>v.
     if master \<notin> set v then Inr s
     else bindE (atE (viewNum s) (rings s)) (\<lambda>r.
          Inr (s\<lparr>views := views s @ [v @ [srv]],
                 rings := rings s @ [replicaLoop srv master r r],
                 viewNum := viewNum s + 1,
                 pings := smap_put srv (Some now) (pings s)\<rparr>)))"

definition receivePing :: "int \<Rightarrow> Server \<Rightarrow> vstate \<Rightarrow> (GetServersReply \<times> vstate) res" where
  "receivePing now srv s =
     (let s1 = (if smap_find (pings s) srv \<noteq> None
                then s\<lparr>pings := smap_put srv (Some now) (pings s)\<rparr> else s) in
      bindE (getView s1) (\<lambda>reply. Inr (reply, s1)))"

text \<open>
  One round of \<open>checkPings\<close>. Its diagnostic loop reads \<open>pings[*it2]\<close>, which inserts a default entry
  for a server that has none.
\<close>

definition touchPing :: "Server \<Rightarrow> pingmap \<Rightarrow> pingmap" where
  "touchPing srv m = (if smap_find m srv = None then smap_put srv None m else m)"

definition checkPings_print :: "vstate \<Rightarrow> vstate res" where
  "checkPings_print s =
     bindE (atE (viewNum s) (rings s)) (\<lambda>r.
     Inr (s\<lparr>pings := fold (\<lambda>it m. fold touchPing (snd it) m) r (pings s)\<rparr>))"

text \<open>\<open>iter->second < now - milliseconds(DEAD_TIME)\<close>; comparing \<open>not_a_date_time\<close> gives false.\<close>

definition expired :: "int \<Rightarrow> int option \<Rightarrow> bool" where
  "expired now t = (case t of None \<Rightarrow> False | Some x \<Rightarrow> x < now - 1000 * DEAD_TIME)"

text \<open>
  The scan erases entries and goes on with \<open>++iter\<close> from the erased one; as in \<open>server.cpp\<close>,
  \<open>links_kept\<close> says whether the freed node still leads on.
\<close>

fun scanLoop :: "bool \<Rightarrow> int \<Rightarrow> pingmap \<Rightarrow> Server list \<times> pingmap \<Rightarrow> (Server list \<times> pingmap) res" where
  "scanLoop links_kept now [] st = Inr st"
| "scanLoop links_kept now (it # rest) (toRemove, m) =
     (if expired now (snd it)
      then (if links_kept then scanLoop links_kept now rest (toRemove @ [fst it], smap_erase (fst it) m)
            else Inl InvalidIterator)
      else scanLoop links_kept now rest (toRemove, m))"

definition checkPings_scan :: "bool \<Rightarrow> int \<Rightarrow> vstate \<Rightarrow> (Server list \<times> vstate) res" where
  "checkPings_scan links_kept now s =
     bindE (scanLoop links_kept now (pings s) ([], pings s)) (\<lambda>(toRemove, m).
     Inr (toRemove, s\<lparr>pings := m\<rparr>))"

definition rebuildSite :: "Server list \<Rightarrow> int \<times> Server list \<Rightarrow> ring \<Rightarrow> ring" where
  "rebuildSite toRemove it newHash =
     fold (\<lambda>srv m. if srv \<in> set toRemove then m else smap_modify [] (\<lambda>ss. ss @ [srv]) (fst it) m)
       (snd it) newHash"

definition checkPings_rebuild :: "Server list \<Rightarrow> vstate \<Rightarrow> vstate res" where
  "checkPings_rebuild toRemove s =
     bindE (atE (viewNum s) (views s)) (\<lambda>oldView.
     bindE (atE (viewNum s) (rings s)) (\<lambda>r.
     Inr (s\<lparr>rings := rings s @ [fold (rebuildSite toRemove) r []],
            views := views s @ [filter (\<lambda>srv. srv \<notin> set toRemove) oldView],
            viewNum := viewNum s + 1\<rparr>)))"

definition checkPings :: "bool \<Rightarrow> int \<Rightarrow> vstate \<Rightarrow> vstate res" where
  "checkPings links_kept now s =
     bindE (checkPings_print s) (\<lambda>s1.
     bindE (checkPings_scan links_kept now s1) (\<lambda>(toRemove, s2).
     if toRemove \<noteq> [] then checkPings_rebuild toRemove s2 else Inr s2))"

definition aggregateStatistics :: "GetStatisticsReply \<Rightarrow> GetStatisticsReply \<Rightarrow> GetStatisticsReply" where
  "aggregateStatistics a b =
     \<lparr>numInsertions = numInsertions a + numInsertions b,
      numUpdates = numUpdates a + numUpdates b,
      numGoodGets = numGoodGets a + numGoodGets b,
      numFailedGets = numFailedGets a + numFailedGets b,
      dataSize = dataSize a + dataSize b,
      memoryOverhead = memoryOverhead a + memoryOverhead b,
      numEvictions = numEvictions a + numEvictions b,
      numPurges = numPurges a + numPurges b\<rparr>"

text \<open>\<open>rpc srv\<close> is what the \<open>getStatistics\<close> call to that server returned; failures are skipped.\<close>

definition vs_getStatistics :: "(Server \<Rightarrow> GetStatisticsReply res) \<Rightarrow> vstate \<Rightarrow> GetStatisticsReply res" where
  "vs_getStatistics rpc s =
     bindE (atE (viewNum s) (views s)) (\<lambda>view.
     Inr (foldl (\<lambda>result srv. case rpc srv of Inl _ \<Rightarrow> result | Inr loc \<Rightarrow> aggregateStatistics result loc)
            new_GetStatisticsReply view))"

section \<open>Invariant\<close>

definition current_view :: "vstate \<Rightarrow> Server list" where
  "current_view s = last (views s)"

definition current_ring :: "vstate \<Rightarrow> ring" where
  "current_ring s = last (rings s)"

definition ring_servers :: "ring \<Rightarrow> Server set" where
  "ring_servers r = (\<Union>it\<in>set r. set (snd it))"

definition ring_ok :: "Server list \<Rightarrow> ring \<Rightarrow> bool" where
  "ring_ok v r = (smap_ok r \<and> list_all (\<lambda>it. snd it \<noteq> []) r \<and> ring_servers r \<subseteq> set v)"

definition vs_inv :: "vstate \<Rightarrow> bool" where
  "vs_inv s = (0 \<le> viewNum s \<and> int (length (views s)) = viewNum s + 1 \<and>
     int (length (rings s)) = viewNum s + 1 \<and> list_all2 ring_ok (views s) (rings s) \<and> smap_ok (pings s))"

lemma vs_inv_current:
  assumes "vs_inv s"
  shows "atE (viewNum s) (views s) = Inr (current_view s)" "atE (viewNum s) (rings s) = Inr (current_ring s)"
    "ring_ok (current_view s) (current_ring s)"
proof -
  have n: "nat (viewNum s) = length (views s) - 1" "nat (viewNum s) = length (rings s) - 1"
    "views s \<noteq> []" "rings s \<noteq> []" using assms by (auto simp: vs_inv_def)
  show "atE (viewNum s) (views s) = Inr (current_view s)" "atE (viewNum s) (rings s) = Inr (current_ring s)"
    using assms n by (auto simp: vs_inv_def atE_def current_view_def current_ring_def last_conv_nth)
  show "ring_ok (current_view s) (current_ring s)"
    using assms n by (auto simp: vs_inv_def current_view_def current_ring_def last_conv_nth
        dest!: list_all2_nthD [where p = "length (views s) - 1"])
qed

text \<open>Appending a view and its ring.\<close>

lemma vs_inv_append:
  assumes "vs_inv s" "ring_ok v r" "smap_ok p"
  shows "vs_inv (s\<lparr>views := views s @ [v], rings := rings s @ [r], viewNum := viewNum s + 1, pings := p\<rparr>)"
  using assms by (auto simp: vs_inv_def list_all2_appendI)

lemma ring_servers_simps [simp]:
  "ring_servers [] = {}" "ring_servers (it # r) = set (snd it) \<union> ring_servers r"
  by (auto simp: ring_servers_def)

section \<open>Rings\<close>

lemma smap_put_elems: "set (smap_put k v m) \<subseteq> insert (k, v) (set m)"
  by (induction k v m rule: smap_put.induct) auto

lemma ring_ok_put:
  assumes "ring_ok v r" "ss \<noteq> []" "set ss \<subseteq> set w" "set v \<subseteq> set w"
  shows "ring_ok w (smap_put p ss r)"
proof -
  have sub: "it = (p, ss) \<or> it \<in> set r" if "it \<in> set (smap_put p ss r)" for it
    using that smap_put_elems [of p ss r] by blast
  have "snd it \<noteq> [] \<and> set (snd it) \<subseteq> set w" if "it \<in> set (smap_put p ss r)" for it
    using sub [OF that]
  proof
    assume "it \<in> set r"
    with assms(1,4) show ?thesis by (auto simp: ring_ok_def list_all_iff ring_servers_def)
  qed (use assms(2,3) in simp)
  then show ?thesis using assms(1) unfolding ring_ok_def list_all_iff ring_servers_def
    by (intro conjI) (simp_all add: smap_put_ok UN_least)
qed

lemma ring_ok_modify:
  assumes "ring_ok v r"
  shows "ring_ok (v @ [srv]) (smap_modify [] (\<lambda>ss. ss @ [srv]) p r)"
proof -
  have "set ss \<subseteq> set v" if "smap_find r p = Some ss" for ss
    using smap_find_in [OF that] assms by (force simp: ring_ok_def ring_servers_def)
  then show ?thesis unfolding smap_modify_def
    by (intro ring_ok_put [OF assms]) (cases "smap_find r p", auto)+
qed

lemma ring_ok_widen: "ring_ok v r \<Longrightarrow> set v \<subseteq> set w \<Longrightarrow> ring_ok w r"
  by (auto simp: ring_ok_def)

lemma replicaLoop_ok: "ring_ok v n \<Longrightarrow> ring_ok (v @ [srv]) (replicaLoop srv master r n)"
  by (induction r) (auto intro: ring_ok_modify ring_ok_widen)

lemma replicaLoop_first:
  "master \<in> set ss \<Longrightarrow> master \<notin> ring_servers r1 \<Longrightarrow>
   replicaLoop srv master (r1 @ (p, ss) # r2) n = smap_modify [] (\<lambda>ss. ss @ [srv]) p n"
  by (induction r1) auto

lemma modify_site:
  "smap_ok (r1 @ (p, ss) # r2) \<Longrightarrow> smap_modify d f p (r1 @ (p, ss) # r2) = r1 @ (p, f ss) # r2"
  by (induction r1) (auto simp: smap_modify_def)

lemma smap_put_last:
  "\<forall>k\<in>fst ` set m. k < p \<Longrightarrow> smap_put p v m = m @ [(p, v)]"
  "\<forall>k\<in>fst ` set m. k < p \<Longrightarrow> smap_put p v (m @ [(p, w)]) = m @ [(p, v)]"
  by (induction m) auto

lemma smap_find_above: "\<forall>k\<in>fst ` set m. k < (p :: 'k::linorder) \<Longrightarrow> smap_find m p = None"
  unfolding smap_find_None_iff by (metis less_irrefl)

text \<open>Copying one site of the old ring, without the removed servers.\<close>

definition keep_site :: "Server list \<Rightarrow> int \<times> Server list \<Rightarrow> ring" where
  "keep_site rm it = (let ss = filter (\<lambda>srv. srv \<notin> set rm) (snd it) in if ss = [] then [] else [(fst it, ss)])"

lemma rebuildSite_keep:
  assumes "\<forall>k\<in>fst ` set m. k < fst it"
  shows "rebuildSite rm it m = m @ keep_site rm it"
proof -
  let ?f = "\<lambda>srv n. if srv \<in> set rm then n else smap_modify [] (\<lambda>ss. ss @ [srv]) (fst it) n"
  have app: "smap_find (m @ [(fst it, as)]) (fst it) = Some as" for as
    using smap_find_above [OF assms] by (simp add: smap_find_def map_add_def)
  have more: "fold ?f ss (m @ [(fst it, as)]) = m @ [(fst it, as @ filter (\<lambda>srv. srv \<notin> set rm) ss)]" for ss as
    by (induction ss arbitrary: as) (auto simp: smap_modify_def app smap_put_last(2) [OF assms])
  have "fold ?f ss m = m @ keep_site rm (fst it, ss)" for ss
  proof (induction ss)
    case (Cons srv ss)
    then show ?case
      by (cases "srv \<in> set rm")
         (simp_all add: keep_site_def smap_modify_def smap_find_above [OF assms] smap_put_last(1) [OF assms] more Let_def)
  qed (simp add: keep_site_def)
  from this [of "snd it"] show ?thesis by (simp add: rebuildSite_def)
qed

lemma keep_site_keys: "fst ` set (keep_site rm it) \<subseteq> {fst it}"
  by (auto simp: keep_site_def Let_def)

lemma rebuild_keep:
  assumes "smap_ok r"
  shows "fold (rebuildSite rm) r [] = concat (map (keep_site rm) r)"
proof -
  have "fold (rebuildSite rm) r m = m @ concat (map (keep_site rm) r)"
    if "smap_ok r" "\<forall>k\<in>fst ` set m. \<forall>k'\<in>fst ` set r. k < k'" for m r
    using that
  proof (induction r arbitrary: m)
    case (Cons it r)
    have lt: "\<forall>k\<in>fst ` set m. k < fst it" using Cons.prems(2) by auto
    have "\<forall>k\<in>fst ` set (m @ keep_site rm it). \<forall>k'\<in>fst ` set r. k < k'"
      using Cons.prems keep_site_keys [of rm it] by fastforce
    with Cons.IH [of "m @ keep_site rm it"] Cons.prems(1) show ?case
      by (simp add: rebuildSite_keep [OF lt])
  qed simp
  from this [OF assms, of "[]"] show ?thesis by simp
qed

lemma keep_ring_ok:
  assumes "ring_ok v r"
  shows "ring_ok (filter (\<lambda>srv. srv \<notin> set rm) v) (concat (map (keep_site rm) r))"
  using assms
proof (induction r)
  case (Cons it r)
  then have IH: "ring_ok (filter (\<lambda>srv. srv \<notin> set rm) v) (concat (map (keep_site rm) r))"
    by (auto simp: ring_ok_def)
  have "fst ` set (concat (map (keep_site rm) r)) \<subseteq> fst ` set r"
    by (induction r) (auto simp: keep_site_def Let_def split: if_splits)
  moreover have "\<forall>k\<in>fst ` set r. fst it < k" using Cons.prems by (simp add: ring_ok_def)
  ultimately have lt: "\<forall>k\<in>fst ` set (concat (map (keep_site rm) r)). fst it < k" by blast
  have "set (filter (\<lambda>srv. srv \<notin> set rm) (snd it)) \<subseteq> set (filter (\<lambda>srv. srv \<notin> set rm) v)"
    using Cons.prems by (auto simp: ring_ok_def)
  with IH lt show ?case
    by (simp add: ring_ok_def keep_site_def [of rm it] Let_def)
qed (simp add: ring_ok_def)

lemma keep_ring_servers: "ring_servers (concat (map (keep_site rm) r)) = ring_servers r - set rm"
proof -
  have "ring_servers (keep_site rm it) = set (snd it) - set rm" for it
    by (auto simp: keep_site_def Let_def filter_empty_conv)
  moreover have "ring_servers (xs @ ys) = ring_servers xs \<union> ring_servers ys" for xs ys
    by (auto simp: ring_servers_def)
  ultimately show ?thesis by (induction r) auto
qed

section \<open>The operations keep the invariant\<close>

lemma getView_ok:
  "vs_inv s \<Longrightarrow> getView s = Inr \<lparr>gs_view = \<lparr>hashToServer = current_ring s\<rparr>, gs_viewNum = viewNum s\<rparr>"
  by (simp add: getView_def vs_inv_current)

lemma vs_inv_pings: "vs_inv s \<Longrightarrow> smap_ok p \<Longrightarrow> vs_inv (s\<lparr>pings := p\<rparr>)"
  by (simp add: vs_inv_def)

lemma vs_inv_pings_ok: "vs_inv s \<Longrightarrow> smap_ok (pings s)"
  by (simp add: vs_inv_def)

lemma addServer_ping_inv: "vs_inv s \<Longrightarrow> vs_inv (addServer_ping now srv s)"
  by (simp add: addServer_ping_def vs_inv_pings smap_put_ok vs_inv_pings_ok)

lemma addServer_view_inv:
  assumes "vs_inv s"
  shows "\<exists>s'. addServer_view g srv s = Inr s' \<and> vs_inv s' \<and> viewNum s' = viewNum s + 1 \<and> pings s' = pings s \<and>
    current_view s' = current_view s @ [srv] \<and> current_ring s' = smap_put (sint g) [srv] (current_ring s)"
  using vs_inv_append [OF assms ring_ok_put [OF vs_inv_current(3) [OF assms]], of "[srv]" "current_view s @ [srv]"
      "pings s" "sint g"] vs_inv_current(1,2) [OF assms] vs_inv_pings_ok [OF assms]
  by (simp add: addServer_view_def current_view_def current_ring_def subset_insertI)

lemma addReplica_inv:
  assumes "vs_inv s"
  shows "master \<notin> set (current_view s) \<and> addReplica now srv master s = Inr s \<or>
    master \<in> set (current_view s) \<and> (\<exists>s'. addReplica now srv master s = Inr s' \<and> vs_inv s' \<and>
      viewNum s' = viewNum s + 1 \<and> pings s' = smap_put srv (Some now) (pings s) \<and>
      current_view s' = current_view s @ [srv] \<and>
      current_ring s' = replicaLoop srv master (current_ring s) (current_ring s))"
  using vs_inv_append [OF assms replicaLoop_ok [OF vs_inv_current(3) [OF assms]], of
      "smap_put srv (Some now) (pings s)" srv master "current_ring s"]
    vs_inv_current(1,2) [OF assms] smap_put_ok [OF vs_inv_pings_ok [OF assms]]
  by (simp add: addReplica_def current_view_def current_ring_def)

definition pinged :: "int \<Rightarrow> Server \<Rightarrow> pingmap \<Rightarrow> pingmap" where
  "pinged now srv p = (if smap_find p srv \<noteq> None then smap_put srv (Some now) p else p)"

lemma receivePing_inv:
  assumes "vs_inv s"
  shows "receivePing now srv s =
      Inr (\<lparr>gs_view = \<lparr>hashToServer = current_ring s\<rparr>, gs_viewNum = viewNum s\<rparr>,
        s\<lparr>pings := pinged now srv (pings s)\<rparr>)" (is ?eq)
    and "vs_inv (s\<lparr>pings := pinged now srv (pings s)\<rparr>)" (is ?inv)
proof -
  show i: ?inv using assms by (auto simp: vs_inv_def pinged_def smap_put_ok)
  have "(if smap_find (pings s) srv \<noteq> None then s\<lparr>pings := smap_put srv (Some now) (pings s)\<rparr> else s)
      = s\<lparr>pings := pinged now srv (pings s)\<rparr>" by (simp add: pinged_def)
  with getView_ok [OF i] show ?eq by (simp add: receivePing_def Let_def current_ring_def)
qed

text \<open>The scan: on a platform where it survives, it takes out exactly the expired servers.\<close>

definition stale :: "int \<Rightarrow> pingmap \<Rightarrow> Server list" where
  "stale now p = map fst (filter (\<lambda>it. expired now (snd it)) p)"

lemma scanLoop_kept:
  "scanLoop True now es (rm, m) =
     Inr (rm @ stale now es, filter (\<lambda>it. fst it \<notin> set (stale now es)) m)"
proof (induction es arbitrary: rm m)
  case (Cons it es)
  have "filter (\<lambda>e. fst e \<notin> S) (smap_erase k m) = filter (\<lambda>e. fst e \<notin> insert k S) m" for S k
    unfolding smap_erase_def filter_filter by (intro filter_cong) auto
  with Cons show ?case by (simp add: stale_def)
qed (simp add: stale_def)

lemma scanLoop_freed:
  "scanLoop False now es (rm, m) = (if stale now es = [] then Inr (rm, m) else Inl InvalidIterator)"
  by (induction es) (auto simp: stale_def)

lemma checkPings_scan_kept:
  assumes "vs_inv s"
  shows "checkPings_scan True now s =
      Inr (stale now (pings s), s\<lparr>pings := filter (\<lambda>it. \<not> expired now (snd it)) (pings s)\<rparr>)"
proof -
  have "expired now (snd it)" if "it \<in> set (pings s)" "fst it \<in> set (stale now (pings s))" for it
  proof -
    from that(2) obtain jt where j: "jt \<in> set (pings s)" "fst jt = fst it" "expired now (snd jt)"
      by (auto simp: stale_def)
    have "snd jt = snd it"
      using that(1) j(1,2) smap_find_ok [OF vs_inv_pings_ok [OF assms]] by (metis option.inject prod.collapse)
    with j(3) show ?thesis by simp
  qed
  then have "filter (\<lambda>it. fst it \<notin> set (stale now (pings s))) (pings s)
      = filter (\<lambda>it. \<not> expired now (snd it)) (pings s)"
    by (intro filter_cong) (auto simp: stale_def)
  then show ?thesis by (simp add: checkPings_scan_def scanLoop_kept)
qed

lemma smap_filter: "smap_ok m \<Longrightarrow> smap_ok (filter P m)"
  by (induction m) auto

lemma checkPings_rebuild_inv:
  assumes "vs_inv s"
  shows "\<exists>s'. checkPings_rebuild rm s = Inr s' \<and> vs_inv s' \<and> viewNum s' = viewNum s + 1 \<and> pings s' = pings s \<and>
    current_view s' = filter (\<lambda>srv. srv \<notin> set rm) (current_view s) \<and>
    current_ring s' = concat (map (keep_site rm) (current_ring s))"
proof -
  have r: "ring_ok (current_view s) (current_ring s)" using vs_inv_current(3) [OF assms] .
  then have "smap_ok (current_ring s)" by (simp add: ring_ok_def)
  note k = rebuild_keep [OF this, of rm]
  have swap: "s\<lparr>rings := r', views := v', viewNum := n\<rparr> = s\<lparr>views := v', rings := r', viewNum := n, pings := pings s\<rparr>"
    for r' v' n by (cases s) simp
  from vs_inv_append [OF assms keep_ring_ok [OF r, of rm] vs_inv_pings_ok [OF assms]]
    vs_inv_current(1,2) [OF assms] show ?thesis
    unfolding checkPings_rebuild_def swap by (simp add: k) (simp add: current_view_def current_ring_def)
qed

lemma touchPing_ok: "smap_ok m \<Longrightarrow> smap_ok (touchPing srv m)"
  by (simp add: touchPing_def smap_put_ok)

lemma fold_touch_ok: "smap_ok m \<Longrightarrow> smap_ok (fold touchPing ss m)"
  by (induction ss arbitrary: m) (simp_all add: touchPing_ok)

text \<open>The diagnostic loop adds entries without a time only.\<close>

definition printed :: "ring \<Rightarrow> pingmap \<Rightarrow> pingmap" where
  "printed r m = fold (\<lambda>it m. fold touchPing (snd it) m) r m"

lemma printed_ok: "smap_ok m \<Longrightarrow> smap_ok (printed r m)"
  unfolding printed_def by (induction r arbitrary: m) (simp_all add: fold_touch_ok)

lemma touchPing_time:
  "smap_find (touchPing srv m) srv' = Some (Some t) \<longleftrightarrow> smap_find m srv' = Some (Some t)"
  by (auto simp: touchPing_def smap_find_put)

lemma fold_touch_time:
  "smap_find (fold touchPing ss m) srv' = Some (Some t) \<longleftrightarrow> smap_find m srv' = Some (Some t)"
  by (induction ss arbitrary: m) (simp_all add: touchPing_time)

lemma printed_time: "smap_find (printed r m) srv = Some (Some t) \<longleftrightarrow> smap_find m srv = Some (Some t)"
  unfolding printed_def by (induction r arbitrary: m) (simp_all add: fold_touch_time)

lemma checkPings_print_inv:
  assumes "vs_inv s"
  shows "checkPings_print s = Inr (s\<lparr>pings := printed (current_ring s) (pings s)\<rparr>)"
    "vs_inv (s\<lparr>pings := printed (current_ring s) (pings s)\<rparr>)"
  using assms
  by (simp_all add: checkPings_print_def vs_inv_current printed_def [symmetric] vs_inv_pings printed_ok vs_inv_pings_ok)

lemma stale_iff:
  assumes "smap_ok p"
  shows "srv \<in> set (stale now p) \<longleftrightarrow> (\<exists>t. smap_find p srv = Some (Some t) \<and> t < now - 1000 * DEAD_TIME)"
proof
  assume "srv \<in> set (stale now p)"
  then obtain t where "(srv, Some t) \<in> set p" "t < now - 1000 * DEAD_TIME"
    by (auto simp: stale_def expired_def split: option.splits)
  then show "\<exists>t. smap_find p srv = Some (Some t) \<and> t < now - 1000 * DEAD_TIME"
    using smap_find_ok [OF assms] by blast
next
  assume "\<exists>t. smap_find p srv = Some (Some t) \<and> t < now - 1000 * DEAD_TIME"
  then show "srv \<in> set (stale now p)"
    by (auto simp: stale_def expired_def dest!: smap_find_in intro!: rev_image_eqI)
qed

section \<open>Steps\<close>

text \<open>
  The request thread may be between the two critical sections of \<open>addServer\<close> (with the server it
  adds), the checking thread between its scan and its rebuild (with the servers it removes).
\<close>

record vsys =
  vs :: vstate
  adding :: "Server option"
  removing :: "Server list option"

inductive vs_step :: "bool \<Rightarrow> vsys \<Rightarrow> vsys \<Rightarrow> bool" for lk where
  add_ping: "adding x = None \<Longrightarrow>
    vs_step lk x (x\<lparr>vs := addServer_ping now srv (vs x), adding := Some srv\<rparr>)"
| add_view: "adding x = Some srv \<Longrightarrow> addServer_view g srv (vs x) = Inr s \<Longrightarrow>
    vs_step lk x (x\<lparr>vs := s, adding := None\<rparr>)"
| replica: "adding x = None \<Longrightarrow> addReplica now srv master (vs x) = Inr s \<Longrightarrow> vs_step lk x (x\<lparr>vs := s\<rparr>)"
| ping: "adding x = None \<Longrightarrow> receivePing now srv (vs x) = Inr (reply, s) \<Longrightarrow> vs_step lk x (x\<lparr>vs := s\<rparr>)"
| touch: "removing x = None \<Longrightarrow> checkPings_print (vs x) = Inr s \<Longrightarrow> vs_step lk x (x\<lparr>vs := s\<rparr>)"
| scan: "removing x = None \<Longrightarrow> checkPings_scan lk now (vs x) = Inr (rm, s) \<Longrightarrow>
    vs_step lk x (x\<lparr>vs := s, removing := (if rm = [] then None else Some rm)\<rparr>)"
| rebuild: "removing x = Some rm \<Longrightarrow> checkPings_rebuild rm (vs x) = Inr s \<Longrightarrow>
    vs_step lk x (x\<lparr>vs := s, removing := None\<rparr>)"

inductive_cases vs_stepE: "vs_step lk x y"

definition vs_init :: vsys where
  "vs_init = \<lparr>vs = new_ViewServiceHandler, adding = None, removing = None\<rparr>"

definition vs_reach :: "bool \<Rightarrow> vsys \<Rightarrow> bool" where
  "vs_reach lk x = (vs_step lk)\<^sup>*\<^sup>* vs_init x"

lemma checkPings_scan_inv:
  assumes "vs_inv s" "checkPings_scan lk now s = Inr (rm, s')"
  shows "vs_inv s'" "viewNum s' = viewNum s" "rings s' = rings s" "views s' = views s"
proof -
  have "lk \<or> stale now (pings s) = []" using assms(2)
    by (cases lk) (auto simp: checkPings_scan_def scanLoop_freed split: if_splits)
  then have "s' = s\<lparr>pings := filter (\<lambda>it. \<not> expired now (snd it)) (pings s)\<rparr> \<or> s' = s"
  proof
    assume lk
    with assms checkPings_scan_kept [OF assms(1), of now] show ?thesis by auto
  next
    assume "stale now (pings s) = []"
    with assms(2) show ?thesis by (cases lk) (auto simp: checkPings_scan_def scanLoop_freed scanLoop_kept)
  qed
  then show "vs_inv s'" "viewNum s' = viewNum s" "rings s' = rings s" "views s' = views s"
    using assms(1) vs_inv_pings [OF assms(1) smap_filter [OF vs_inv_pings_ok [OF assms(1)]]] by auto
qed

text \<open>What a step may do to the history: nothing, or append one view and its ring.\<close>

definition extends :: "vstate \<Rightarrow> vstate \<Rightarrow> bool" where
  "extends s s' = (viewNum s' = viewNum s \<and> rings s' = rings s \<and> views s' = views s \<or>
     viewNum s' = viewNum s + 1 \<and> (\<exists>v r. views s' = views s @ [v] \<and> rings s' = rings s @ [r]))"

lemma extends_ops:
  "addServer_view g srv s = Inr s' \<Longrightarrow> extends s s'"
  "addReplica now srv master s = Inr s' \<Longrightarrow> extends s s'"
  "checkPings_rebuild rm s = Inr s' \<Longrightarrow> extends s s'"
  "extends s (s\<lparr>pings := p\<rparr>)" "extends s (addServer_ping now srv s)"
  by (auto simp: extends_def addServer_view_def addReplica_def checkPings_rebuild_def addServer_ping_def
      elim!: bindE_InrE split: if_splits)

lemma addReplica_ok:
  assumes "vs_inv s" "addReplica now srv master s = Inr s'"
  shows "vs_inv s'"
  using addReplica_inv [OF assms(1), of master now srv] assms by auto

lemma vs_step_extends:
  assumes step: "vs_step lk x y" and inv: "vs_inv (vs x)"
  shows "vs_inv (vs y) \<and> extends (vs x) (vs y)"
  using step
proof (cases rule: vs_step.cases)
  case (add_ping now srv)
  then show ?thesis using addServer_ping_inv [OF inv] by (simp add: extends_ops)
next
  case (add_view srv g s)
  then show ?thesis using addServer_view_inv [OF inv, of g srv] by (auto simp: extends_ops)
next
  case (replica now srv master s)
  then show ?thesis using addReplica_ok [OF inv] by (simp add: extends_ops)
next
  case (ping now srv reply s)
  then show ?thesis using receivePing_inv [OF inv, of now srv] by (auto simp: extends_ops)
next
  case (touch s)
  then show ?thesis using checkPings_print_inv [OF inv] by (auto simp: extends_ops)
next
  case (scan now rm s)
  then show ?thesis using checkPings_scan_inv [OF inv, of lk now rm s] by (simp add: extends_def)
next
  case (rebuild rm s)
  then show ?thesis using checkPings_rebuild_inv [OF inv, of rm] by (auto simp: extends_ops)
qed

lemma new_ViewServiceHandler_inv: "vs_inv new_ViewServiceHandler"
  by (simp add: vs_inv_def new_ViewServiceHandler_def ring_ok_def)

lemma vs_reach_inv: "vs_reach lk x \<Longrightarrow> vs_inv (vs x)"
  unfolding vs_reach_def
  by (induction rule: rtranclp_induct) (auto simp: vs_init_def new_ViewServiceHandler_inv dest: vs_step_extends)

end
