(* ===== verification/View_Spec.thy ===== *)
theory View_Spec
  imports View_Service
begin

text \<open>
  What the view service promises: the contract clients and servers rely on when they cache a view
  (locale \<open>view_provider\<close>), interpreted on the steps of the service, and the properties of its
  operations.
\<close>

section \<open>The contract of a view provider\<close>

text \<open>The view changes only together with its number, which only grows.\<close>

locale view_provider =
  fixes step :: "'s \<Rightarrow> 's \<Rightarrow> bool"
    and ok :: "'s \<Rightarrow> bool"
    and reply :: "'s \<Rightarrow> GetServersReply"
  assumes ok_step: "ok s \<Longrightarrow> step s s' \<Longrightarrow> ok s'"
    and reply_step: "ok s \<Longrightarrow> step s s' \<Longrightarrow>
      reply s' = reply s \<or> gs_viewNum (reply s) < gs_viewNum (reply s')"
begin

lemma ok_steps: "step\<^sup>*\<^sup>* s s' \<Longrightarrow> ok s \<Longrightarrow> ok s'"
  by (induction rule: rtranclp_induct) (auto intro: ok_step)

lemma reply_steps:
  "step\<^sup>*\<^sup>* s s' \<Longrightarrow> ok s \<Longrightarrow> reply s' = reply s \<or> gs_viewNum (reply s) < gs_viewNum (reply s')"
proof (induction rule: rtranclp_induct)
  case (step y z)
  then have "ok y" using ok_steps by blast
  with step reply_step [of y z] show ?case by auto
qed simp

lemma number_grows: "step\<^sup>*\<^sup>* s s' \<Longrightarrow> ok s \<Longrightarrow> gs_viewNum (reply s) \<le> gs_viewNum (reply s')"
  using reply_steps by fastforce

text \<open>A view number names one view.\<close>

lemma same_number: "step\<^sup>*\<^sup>* s s' \<Longrightarrow> ok s \<Longrightarrow> gs_viewNum (reply s) = gs_viewNum (reply s') \<Longrightarrow> reply s = reply s'"
  using reply_steps by fastforce

end

definition vs_reply :: "vsys \<Rightarrow> GetServersReply" where
  "vs_reply x = \<lparr>gs_view = \<lparr>hashToServer = current_ring (vs x)\<rparr>, gs_viewNum = viewNum (vs x)\<rparr>"

interpretation service: view_provider "vs_step lk" "\<lambda>x. vs_inv (vs x)" vs_reply
proof
  fix x y assume "vs_inv (vs x)" "vs_step lk x y"
  then show "vs_inv (vs y)" "vs_reply y = vs_reply x \<or> gs_viewNum (vs_reply x) < gs_viewNum (vs_reply y)"
    using vs_step_extends [of lk x y] by (auto simp: extends_def vs_reply_def current_ring_def)
qed

section \<open>Concrete states\<close>

definition demo_srv :: Server where "demo_srv = Server ''a'' 1"
definition demo_new :: Server where "demo_new = Server ''b'' 2"

definition demo_one :: vstate where
  "demo_one = \<lparr>viewNum = 1, views = [[], [demo_srv]], rings = [[], [(7, [demo_srv])]],
     pings = [(demo_srv, Some 1000)]\<rparr>"

lemma demo_one_inv: "vs_inv demo_one"
  by (simp add: vs_inv_def demo_one_def ring_ok_def)

lemma demo_one_current: "current_view demo_one = [demo_srv]" "current_ring demo_one = [(7, [demo_srv])]"
  by (simp_all add: demo_one_def current_view_def current_ring_def)

section \<open>Views\<close>

text \<open>
  C34. In every reachable state of the service, whatever its threads interleave, \<open>getView\<close> succeeds
  and returns the current number with a sorted ring whose sites all have servers, all of them members
  of the current view.
\<close>

theorem getView_reachable:
  assumes "vs_reach lk x"
  shows "\<exists>r. getView (vs x) = Inr \<lparr>gs_view = \<lparr>hashToServer = r\<rparr>, gs_viewNum = viewNum (vs x)\<rparr> \<and>
    smap_ok r \<and> list_all (\<lambda>it. snd it \<noteq> []) r \<and> ring_servers r \<subseteq> set (current_view (vs x))"
  using getView_ok [OF vs_reach_inv [OF assms]] vs_inv_current(3) [OF vs_reach_inv [OF assms]]
  by (simp add: ring_ok_def)

theorem getView_reachable_witness:
  "\<exists>r. getView (vs vs_init) = Inr \<lparr>gs_view = \<lparr>hashToServer = r\<rparr>, gs_viewNum = viewNum (vs vs_init)\<rparr>"
  using getView_reachable [of True vs_init] by (auto simp: vs_reach_def)

text \<open>
  C9. A view number names one view for good: two replies of the service, however many steps lie
  between them, either are the same or have different numbers, the later one the larger.
\<close>

theorem view_numbers_agree:
  assumes "vs_reach lk x" "(vs_step lk)\<^sup>*\<^sup>* x y" "getView (vs x) = Inr r" "getView (vs y) = Inr r'"
  shows "r = r' \<or> gs_viewNum r < gs_viewNum r'"
proof -
  have i: "vs_inv (vs x)" using vs_reach_inv [OF assms(1)] .
  have "vs_reply x = r" "vs_reply y = r'"
    using assms(3,4) getView_ok [OF i] getView_ok [OF service.ok_steps [OF assms(2) i]]
    by (simp_all add: vs_reply_def)
  with service.reply_steps [OF assms(2) i] show ?thesis by auto
qed

theorem view_numbers_agree_witness:
  "\<exists>r y r'. (vs_step True)\<^sup>*\<^sup>* vs_init y \<and> getView (vs vs_init) = Inr r \<and> getView (vs y) = Inr r' \<and>
     (r = r' \<or> gs_viewNum r < gs_viewNum r')"
proof -
  have i: "vs_inv (vs vs_init)" by (simp add: vs_init_def new_ViewServiceHandler_inv)
  let ?y = "vs_init\<lparr>vs := addServer_ping 5 demo_srv (vs vs_init), adding := Some demo_srv\<rparr>"
  have st: "(vs_step True)\<^sup>*\<^sup>* vs_init ?y" by (intro r_into_rtranclp vs_step.add_ping) (simp add: vs_init_def)
  have j: "vs_inv (vs ?y)" using addServer_ping_inv [OF i] by simp
  show ?thesis
    using view_numbers_agree [OF _ st getView_ok [OF i] getView_ok [OF j]] st getView_ok [OF i] getView_ok [OF j]
    by (metis vs_reach_def rtranclp.rtrancl_refl)
qed

definition dead_at :: "int \<Rightarrow> vstate \<Rightarrow> Server \<Rightarrow> bool" where
  "dead_at now s srv = (case smap_find (pings s) srv of
     Some (Some t) \<Rightarrow> t < now - 1000 * DEAD_TIME | _ \<Rightarrow> False)"

text \<open>
  C26. A round of \<open>checkPings\<close> that nothing interrupts removes exactly the servers whose last ping is
  older than \<open>DEAD_TIME\<close>, from the view and from every site of the ring, and every ping time left is
  recent; the view number changes only if some server is removed. The scan increments an iterator of
  \<open>std::map\<close> that it has just erased: if a freed node does not lead on (\<open>lk\<close> is false), a round that
  finds a dead server ends at that iterator instead.
\<close>

theorem checkPings_removes_dead:
  assumes inv: "vs_inv s"
  shows "if \<not> lk \<and> (\<exists>srv. dead_at now s srv) then checkPings lk now s = Inl InvalidIterator
    else \<exists>s'. checkPings lk now s = Inr s' \<and> vs_inv s' \<and>
    current_view s' = filter (\<lambda>srv. \<not> dead_at now s srv) (current_view s) \<and>
    ring_servers (current_ring s') = {srv \<in> ring_servers (current_ring s). \<not> dead_at now s srv} \<and>
    list_all (\<lambda>it. \<not> expired now (snd it)) (pings s') \<and>
    viewNum s' = (if \<exists>srv. dead_at now s srv then viewNum s + 1 else viewNum s)"
proof -
  define p where "p = printed (current_ring s) (pings s)"
  have p: "checkPings_print s = Inr (s\<lparr>pings := p\<rparr>)" "vs_inv (s\<lparr>pings := p\<rparr>)"
    "\<And>srv t. smap_find p srv = Some (Some t) \<longleftrightarrow> smap_find (pings s) srv = Some (Some t)"
    using checkPings_print_inv [OF inv] by (simp_all add: p_def printed_time)
  let ?s1 = "s\<lparr>pings := p\<rparr>" and ?q = "filter (\<lambda>it. \<not> expired now (snd it)) p"
  let ?s2 = "s\<lparr>pings := ?q\<rparr>"
  have pok: "smap_ok p" using vs_inv_pings_ok [OF p(2)] by simp
  have rm: "srv \<in> set (stale now p) \<longleftrightarrow> dead_at now s srv" for srv
    unfolding stale_iff [OF pok] p(3) by (simp add: dead_at_def split: option.split)
  have dead: "(\<exists>srv. dead_at now s srv) \<longleftrightarrow> stale now p \<noteq> []" using rm by (metis list.set_intros(1) neq_Nil_conv emptyE list.set(1))
  have sc: "checkPings_scan lk now ?s1 = (if \<not> lk \<and> stale now p \<noteq> [] then Inl InvalidIterator else Inr (stale now p, ?s2))"
  proof (cases lk)
    case True
    then show ?thesis using checkPings_scan_kept [OF p(2)] by simp
  next
    case False
    have "?q = p" if "stale now p = []" using that by (auto simp: stale_def filter_empty_conv)
    with False show ?thesis by (auto simp: checkPings_scan_def scanLoop_freed)
  qed
  have i2: "vs_inv ?s2" using vs_inv_pings [OF inv smap_filter [OF pok]] .
  have fresh: "list_all (\<lambda>it. \<not> expired now (snd it)) ?q" by (simp add: list_all_iff)
  consider "\<not> lk" "stale now p \<noteq> []" | "stale now p = []" | "lk" "stale now p \<noteq> []" by blast
  then show ?thesis
  proof cases
    case 1
    with p(1) sc dead show ?thesis by (simp add: checkPings_def)
  next
    case True: 2
    then have "\<not> dead_at now s srv" for srv using rm [of srv] by simp
    with True p(1) sc i2 fresh show ?thesis
      by (simp add: checkPings_def current_view_def current_ring_def)
  next
    case False: 3
    then have ex: "\<exists>srv. dead_at now s srv" using dead by simp
    have f: "filter (\<lambda>srv. srv \<notin> set (stale now p)) v = filter (\<lambda>srv. \<not> dead_at now s srv) v" for v
      by (intro filter_cong) (simp_all add: rm)
    from checkPings_rebuild_inv [OF i2, of "stale now p"] obtain s' where
      s': "checkPings_rebuild (stale now p) ?s2 = Inr s'" "vs_inv s'" "viewNum s' = viewNum s + 1" "pings s' = ?q"
        "current_view s' = filter (\<lambda>srv. \<not> dead_at now s srv) (current_view s)"
        "current_ring s' = concat (map (keep_site (stale now p)) (current_ring s))"
      by (auto simp: f current_view_def current_ring_def)
    have "ring_servers (current_ring s') = {srv \<in> ring_servers (current_ring s). \<not> dead_at now s srv}"
      unfolding s'(6) keep_ring_servers using rm by blast
    moreover have "checkPings lk now s = Inr s'" using False sc by (simp add: checkPings_def p(1) s'(1))
    ultimately have "\<exists>s'. checkPings lk now s = Inr s' \<and> vs_inv s' \<and>
        current_view s' = filter (\<lambda>srv. \<not> dead_at now s srv) (current_view s) \<and>
        ring_servers (current_ring s') = {srv \<in> ring_servers (current_ring s). \<not> dead_at now s srv} \<and>
        list_all (\<lambda>it. \<not> expired now (snd it)) (pings s') \<and>
        viewNum s' = (if \<exists>srv. dead_at now s srv then viewNum s + 1 else viewNum s)"
      using s'(2-5) ex fresh by (intro exI [of _ s']) simp
    then show ?thesis using False(1) by simp
  qed
qed

theorem checkPings_removes_dead_witness:
  "\<exists>s'. checkPings True 2000000 demo_one = Inr s' \<and> current_view s' = [] \<and> viewNum s' = 2"
proof -
  have d: "dead_at 2000000 demo_one demo_srv" by (simp add: dead_at_def demo_one_def DEAD_TIME_def)
  then have "\<exists>srv. dead_at 2000000 demo_one srv" by blast
  moreover obtain s' where "checkPings True 2000000 demo_one = Inr s'"
    "current_view s' = filter (\<lambda>srv. \<not> dead_at 2000000 demo_one srv) (current_view demo_one)"
    "viewNum s' = (if \<exists>srv. dead_at 2000000 demo_one srv then viewNum demo_one + 1 else viewNum demo_one)"
    using checkPings_removes_dead [OF demo_one_inv, of True 2000000] by auto
  ultimately show ?thesis using d by (simp add: demo_one_current) (simp add: demo_one_def)
qed

text \<open>
  Registration takes effect at once: the new server is in the view and is the one \<open>getServer\<close>
  gives for the position of its site, every other site stays, and the number grows by one.
\<close>

theorem addServer_registers:
  assumes inv: "vs_inv s"
  shows "\<exists>s' reply. addServer now g srv s = Inr s' \<and> vs_inv s' \<and> getView s' = Inr reply \<and>
    gs_viewNum reply = viewNum s + 1 \<and> srv \<in> set (current_view s') \<and>
    getServer (sint g) (gs_view reply) = Inr [srv] \<and> smap_find (pings s') srv = Some (Some now) \<and>
    (\<forall>p. p \<noteq> sint g \<longrightarrow> smap_find (current_ring s') p = smap_find (current_ring s) p)"
proof -
  let ?s1 = "addServer_ping now srv s"
  have i1: "vs_inv ?s1" using addServer_ping_inv [OF inv] .
  from addServer_view_inv [OF i1, of g srv] obtain s' where s': "addServer_view g srv ?s1 = Inr s'" "vs_inv s'"
    "viewNum s' = viewNum s + 1" "pings s' = smap_put srv (Some now) (pings s)"
    "current_view s' = current_view s @ [srv]" "current_ring s' = smap_put (sint g) [srv] (current_ring s)"
    by (auto simp: addServer_ping_def current_view_def current_ring_def)
  let ?m = "current_ring s'"
  have ok: "smap_ok ?m" using vs_inv_current(3) [OF s'(2)] by (simp add: ring_ok_def)
  have "clockwise_succ (fst ` set ?m) (sint g) (sint g)" by (auto simp: clockwise_succ_def s'(6))
  then have "getServer (sint g) \<lparr>hashToServer = ?m\<rparr> = Inr [srv]"
    using ok by (intro getServer_eq_succ [where k = "sint g"]) (simp_all add: s'(6) smap_find_put)
  with s' getView_ok [OF s'(2)] show ?thesis
    by (simp add: addServer_def smap_find_put)
qed

theorem addServer_registers_witness:
  "\<exists>s' reply. addServer 9 5 demo_new demo_one = Inr s' \<and> getView s' = Inr reply \<and>
     getServer 5 (gs_view reply) = Inr [demo_new]"
  using addServer_registers [OF demo_one_inv, of 9 5 demo_new] by auto

text \<open>
  A replica joins the ring at the first site of its master and nowhere else: the servers of that
  site are followed by the replica, and the request is ignored when the master is not in the view.
\<close>

theorem addReplica_joins:
  assumes inv: "vs_inv s"
  shows "(master \<notin> set (current_view s) \<longrightarrow> addReplica now srv master s = Inr s) \<and>
    (\<forall>r1 p ss r2. current_ring s = r1 @ (p, ss) # r2 \<longrightarrow> master \<in> set ss \<longrightarrow> master \<notin> ring_servers r1 \<longrightarrow>
      (\<exists>s'. addReplica now srv master s = Inr s' \<and> vs_inv s' \<and> viewNum s' = viewNum s + 1 \<and>
        current_ring s' = r1 @ (p, ss @ [srv]) # r2))"
proof (intro conjI allI impI)
  assume "master \<notin> set (current_view s)"
  then show "addReplica now srv master s = Inr s" using addReplica_inv [OF inv] by blast
next
  fix r1 p ss r2
  assume r: "current_ring s = r1 @ (p, ss) # r2" and m: "master \<in> set ss" "master \<notin> ring_servers r1"
  have ro: "ring_ok (current_view s) (current_ring s)" using vs_inv_current(3) [OF inv] .
  then have "master \<in> set (current_view s)" using m(1) r by (auto simp: ring_ok_def ring_servers_def)
  moreover have "replicaLoop srv master (current_ring s) (current_ring s) = r1 @ (p, ss @ [srv]) # r2"
    unfolding r replicaLoop_first [OF m] using ro r by (intro modify_site) (simp add: ring_ok_def)
  ultimately show "\<exists>s'. addReplica now srv master s = Inr s' \<and> vs_inv s' \<and> viewNum s' = viewNum s + 1 \<and>
        current_ring s' = r1 @ (p, ss @ [srv]) # r2"
    using addReplica_inv [OF inv, of master now srv] by auto
qed

theorem addReplica_joins_witness:
  "\<exists>s'. addReplica 9 demo_new demo_srv demo_one = Inr s' \<and> current_ring s' = [(7, [demo_srv, demo_new])]"
proof -
  have "current_ring demo_one = [] @ (7, [demo_srv]) # []" "demo_srv \<in> set [demo_srv]"
    "demo_srv \<notin> ring_servers []" by (simp_all add: demo_one_current)
  from conjunct2 [OF addReplica_joins [OF demo_one_inv, of demo_srv 9 demo_new], rule_format, OF this]
  show ?thesis by auto
qed

section \<open>Lost servers\<close>

text \<open>
  C35. The site of a new server is a random number that is not checked against the ring: if it hits an
  existing site, the servers that have no other site are dropped from the ring although they stay in
  the view and go on pinging.
\<close>

theorem addServer_collision:
  assumes inv: "vs_inv s" and hit: "smap_find (current_ring s) (sint g) = Some ss" "old \<in> set ss" "old \<noteq> srv"
    and only: "list_all (\<lambda>it. fst it = sint g \<or> old \<notin> set (snd it)) (current_ring s)"
  shows "\<exists>s'. addServer now g srv s = Inr s' \<and> vs_inv s' \<and> old \<in> set (current_view s') \<and>
    old \<notin> ring_servers (current_ring s')"
proof -
  let ?s1 = "addServer_ping now srv s"
  have i1: "vs_inv ?s1" using addServer_ping_inv [OF inv] .
  from addServer_view_inv [OF i1, of g srv] obtain s' where s': "addServer_view g srv ?s1 = Inr s'" "vs_inv s'"
    "current_view s' = current_view s @ [srv]" "current_ring s' = smap_put (sint g) [srv] (current_ring s)"
    by (auto simp: addServer_ping_def current_view_def current_ring_def)
  have "old \<in> set (current_view s)"
    using vs_inv_current(3) [OF inv] smap_find_in [OF hit(1)] hit(2) by (force simp: ring_ok_def ring_servers_def)
  moreover have "old \<notin> set (snd it)" if "it \<in> set (current_ring s')" for it
  proof (cases "fst it = sint g")
    case True
    have "smap_ok (current_ring s')" using vs_inv_current(3) [OF s'(2)] by (simp add: ring_ok_def)
    then have "smap_find (current_ring s') (fst it) = Some (snd it)"
      using that by (cases it) (simp add: smap_find_ok)
    with True have "snd it = [srv]" by (simp add: s'(4) smap_find_put)
    with hit(3) show ?thesis by simp
  next
    case False
    then have "it \<in> set (current_ring s)"
      using that smap_put_elems [of "sint g" "[srv]" "current_ring s"] by (cases it) (auto simp: s'(4) subset_iff)
    with only False show ?thesis by (auto simp: list_all_iff)
  qed
  ultimately show ?thesis using s'(1-3) by (auto simp: addServer_def ring_servers_def)
qed

theorem addServer_collision_witness:
  "\<exists>s'. addServer 9 7 demo_new demo_one = Inr s' \<and> demo_srv \<in> set (current_view s') \<and>
     demo_srv \<notin> ring_servers (current_ring s')"
  using addServer_collision [OF demo_one_inv, of 7 "[demo_srv]" demo_srv demo_new 9]
  by (auto simp: demo_one_current demo_srv_def demo_new_def)

text \<open>
  C36. A server that the scan of the checking thread has found dead, and that registers again before
  the thread gets to its rebuild, can be lost: the registration succeeds and its ping time is the
  current one, and it is nevertheless out of the view and of the ring when the rebuild is done.
\<close>

theorem rebuild_drops_registration:
  assumes inv: "vs_inv (vs x)" and st: "removing x = Some rm" "srv \<in> set rm" "adding x = None"
  shows "\<exists>y. (vs_step lk)\<^sup>*\<^sup>* x y \<and> adding y = None \<and> removing y = None \<and>
    smap_find (pings (vs y)) srv = Some (Some now) \<and> srv \<notin> set (current_view (vs y)) \<and>
    srv \<notin> ring_servers (current_ring (vs y))"
proof -
  let ?x1 = "x\<lparr>vs := addServer_ping now srv (vs x), adding := Some srv\<rparr>"
  have i1: "vs_inv (addServer_ping now srv (vs x))" using addServer_ping_inv [OF inv] .
  from addServer_view_inv [OF i1, of 0 srv] obtain s2 where s2: "addServer_view 0 srv (vs ?x1) = Inr s2" "vs_inv s2"
    "pings s2 = pings (addServer_ping now srv (vs x))" by auto
  let ?x2 = "?x1\<lparr>vs := s2, adding := None\<rparr>"
  from checkPings_rebuild_inv [OF s2(2), of rm] obtain s3 where
    s3: "checkPings_rebuild rm (vs ?x2) = Inr s3" "vs_inv s3" "pings s3 = pings s2"
      "current_view s3 = filter (\<lambda>srv. srv \<notin> set rm) (current_view s2)" by auto
  let ?x3 = "?x2\<lparr>vs := s3, removing := None\<rparr>"
  have "vs_step lk x ?x1" using st(3) by (rule vs_step.add_ping)
  moreover have "vs_step lk ?x1 ?x2" by (rule vs_step.add_view [OF _ s2(1)]) simp
  moreover have "vs_step lk ?x2 ?x3" by (rule vs_step.rebuild [OF _ s3(1)]) (simp add: st(1))
  ultimately have "(vs_step lk)\<^sup>*\<^sup>* x ?x3" by (meson converse_rtranclp_into_rtranclp r_into_rtranclp)
  moreover have "srv \<notin> set (current_view s3)" using s3(4) st(2) by simp
  moreover have "srv \<notin> ring_servers (current_ring s3)"
    using vs_inv_current(3) [OF s3(2)] calculation(2) by (auto simp: ring_ok_def)
  ultimately show ?thesis using s3(3) s2(3)
    by (intro exI [of _ ?x3]) (simp add: addServer_ping_def smap_find_put)
qed

theorem rebuild_drops_registration_witness:
  "\<exists>y. (vs_step True)\<^sup>*\<^sup>* \<lparr>vs = demo_one\<lparr>pings := []\<rparr>, adding = None, removing = Some [demo_srv]\<rparr> y \<and>
     smap_find (pings (vs y)) demo_srv = Some (Some 9) \<and> demo_srv \<notin> set (current_view (vs y))"
  using rebuild_drops_registration [of "\<lparr>vs = demo_one\<lparr>pings := []\<rparr>, adding = None, removing = Some [demo_srv]\<rparr>"
      "[demo_srv]" demo_srv True 9] vs_inv_pings [OF demo_one_inv, of "[]"] by auto

section \<open>Statistics\<close>

text \<open>
  The statistics of the service are the sums over the servers of the view that answered.
\<close>

theorem vs_getStatistics_sums:
  fixes rpc :: "Server \<Rightarrow> GetStatisticsReply res" and s :: vstate
  assumes "vs_inv s"
  defines "answers \<equiv> concat (map (\<lambda>srv. case rpc srv of Inl _ \<Rightarrow> [] | Inr r \<Rightarrow> [r]) (current_view s))"
  shows "\<exists>st. vs_getStatistics rpc s = Inr st \<and>
    numInsertions st = sum_list (map numInsertions answers) \<and> numUpdates st = sum_list (map numUpdates answers) \<and>
    numGoodGets st = sum_list (map numGoodGets answers) \<and> numFailedGets st = sum_list (map numFailedGets answers) \<and>
    dataSize st = sum_list (map dataSize answers) \<and> memoryOverhead st = sum_list (map memoryOverhead answers) \<and>
    numEvictions st = sum_list (map numEvictions answers) \<and> numPurges st = sum_list (map numPurges answers)"
proof -
  let ?f = "\<lambda>result srv. case rpc srv of Inl _ \<Rightarrow> result | Inr loc \<Rightarrow> aggregateStatistics result loc"
  have "foldl ?f st v = foldl aggregateStatistics st
      (concat (map (\<lambda>srv. case rpc srv of Inl _ \<Rightarrow> [] | Inr r \<Rightarrow> [r]) v))" for st v
    by (induction v arbitrary: st) (auto split: sum.splits)
  then have "vs_getStatistics rpc s = Inr (foldl aggregateStatistics new_GetStatisticsReply answers)"
    by (simp add: vs_getStatistics_def vs_inv_current [OF assms(1)] answers_def)
  moreover have "numInsertions (foldl aggregateStatistics st as) = numInsertions st + sum_list (map numInsertions as)"
    "numUpdates (foldl aggregateStatistics st as) = numUpdates st + sum_list (map numUpdates as)"
    "numGoodGets (foldl aggregateStatistics st as) = numGoodGets st + sum_list (map numGoodGets as)"
    "numFailedGets (foldl aggregateStatistics st as) = numFailedGets st + sum_list (map numFailedGets as)"
    "dataSize (foldl aggregateStatistics st as) = dataSize st + sum_list (map dataSize as)"
    "memoryOverhead (foldl aggregateStatistics st as) = memoryOverhead st + sum_list (map memoryOverhead as)"
    "numEvictions (foldl aggregateStatistics st as) = numEvictions st + sum_list (map numEvictions as)"
    "numPurges (foldl aggregateStatistics st as) = numPurges st + sum_list (map numPurges as)" for st as
    by (induction as arbitrary: st; simp add: aggregateStatistics_def)+
  ultimately show ?thesis by (simp add: new_GetStatisticsReply_def)
qed

theorem vs_getStatistics_sums_witness:
  "\<exists>st. vs_getStatistics (\<lambda>_. Inr (new_GetStatisticsReply\<lparr>numUpdates := 3\<rparr>)) demo_one = Inr st \<and> numUpdates st = 3"
  using vs_getStatistics_sums [OF demo_one_inv, of "\<lambda>_. Inr (new_GetStatisticsReply\<lparr>numUpdates := 3\<rparr>)"]
  by (auto simp: demo_one_current)

end
