(* ===== verification/Cache_Client.thy ===== *)
theory Cache_Client
  imports Consistent_Hashing
begin

text \<open>
  The client library (\<open>class CacheClient\<close> in \<open>prototype/client.h\<close>) and the programs built on it
  (\<open>console.cpp\<close>, \<open>stress.cpp\<close>, \<open>monitor.cpp\<close>). The number drawn by \<open>gen()\<close> and the outcomes of the
  remote calls are arguments; an operation gives a value or a thrown exception, and in both cases the
  client state it leaves.
\<close>

section \<open>State and exceptions\<close>

record client =
  reply' :: GetServersReply
  viewServer :: Server

text \<open>
  \<open>OtherException\<close> stands for every exception without a clause of its own, \<open>Crashed\<close> for the division
  by zero of \<open>gen() % 0\<close>, which is no exception.
\<close>

datatype cexn =
    EmptyRing
  | ViewServiceException
  | WrongServerException
  | ConnectionFailedException
  | OtherException
  | Crashed

type_synonym 'a cres = "(cexn \<times> client) + ('a \<times> client)"

section \<open>Operations\<close>

definition c_getView :: "GetServersReply res \<Rightarrow> client \<Rightarrow> unit cres" where
  "c_getView view_rpc c =
     (case view_rpc of
        Inl _ \<Rightarrow> Inl (ViewServiceException, c)
      | Inr r \<Rightarrow> Inr ((), c\<lparr>reply' := r\<rparr>))"

definition new_CacheClient :: "GetServersReply res \<Rightarrow> Server \<Rightarrow> unit cres" where
  "new_CacheClient view_rpc srv = c_getView view_rpc \<lparr>reply' = new_GetServersReply, viewServer = srv\<rparr>"

definition getServerID :: "32 word \<Rightarrow> string \<Rightarrow> client \<Rightarrow> Server cres" where
  "getServerID g key c =
     (case getServer (ir_hash key) (gs_view (reply' c)) of
        Inl _ \<Rightarrow> Inl (EmptyRing, c)
      | Inr serversList \<Rightarrow>
          if serversList = [] then Inl (Crashed, c)
          else Inr (serversList ! (unat g mod length serversList), c))"

text \<open>A remote call: an exception of the connection or of the call has no clause of its own.\<close>

definition call :: "'a res \<Rightarrow> client \<Rightarrow> 'a cres" where
  "call rpc c = (case rpc of Inl _ \<Rightarrow> Inl (OtherException, c) | Inr x \<Rightarrow> Inr (x, c))"

text \<open>\<open>getView(); throw e;\<close>\<close>

definition refresh_throw :: "GetServersReply res \<Rightarrow> cexn \<Rightarrow> client \<Rightarrow> 'a cres" where
  "refresh_throw view_rpc e c = bindE (c_getView view_rpc c) (\<lambda>(_, c1). Inl (e, c1))"

text \<open>The catch clauses of \<open>get\<close> and \<open>put\<close>.\<close>

definition handlers :: "GetServersReply res \<Rightarrow> 'a cres \<Rightarrow> 'a cres" where
  "handlers view_rpc m =
     (case m of
        Inr x \<Rightarrow> Inr x
      | Inl (e, c) \<Rightarrow>
          (case e of
             EmptyRing \<Rightarrow> refresh_throw view_rpc EmptyRing c
           | ViewServiceException \<Rightarrow> Inl (ViewServiceException, c)
           | WrongServerException \<Rightarrow> Inl (WrongServerException, c)
           | Crashed \<Rightarrow> Inl (Crashed, c)
           | _ \<Rightarrow> refresh_throw view_rpc ConnectionFailedException c))"

definition client_get :: "32 word \<Rightarrow> GetServersReply res \<Rightarrow> (Server \<Rightarrow> GetArgs \<Rightarrow> GetReply res) \<Rightarrow>
    string \<Rightarrow> client \<Rightarrow> string option cres" where
  "client_get g view_rpc get_rpc key c =
     handlers view_rpc
       (bindE (getServerID g key c) (\<lambda>(srv, c1).
        bindE (call (get_rpc srv \<lparr>ga_key = key, ga_viewNum = gs_viewNum (reply' c1)\<rparr>) c1) (\<lambda>(reply, c2).
        if gr_status reply = OK then Inr (Some (gr_value reply), c2)
        else if gr_status reply = WRONG_SERVER then refresh_throw view_rpc WrongServerException c2
        else Inr (None, c2))))"

definition client_put :: "32 word \<Rightarrow> GetServersReply res \<Rightarrow> (Server \<Rightarrow> PutArgs \<Rightarrow> PutReply res) \<Rightarrow>
    string \<Rightarrow> string \<Rightarrow> client \<Rightarrow> unit cres" where
  "client_put g view_rpc put_rpc key val c =
     handlers view_rpc
       (bindE (getServerID g key c) (\<lambda>(srv, c1).
        bindE (call (put_rpc srv \<lparr>pa_key = key, pa_value = val, pa_viewNum = gs_viewNum (reply' c1)\<rparr>) c1)
          (\<lambda>(reply, c2).
        if pr_status reply = WRONG_SERVER then refresh_throw view_rpc WrongServerException c2
        else Inr ((), c2))))"

section \<open>Programs\<close>

text \<open>
  A command of \<open>console.cpp\<close>: what it prints, or the exception that ends the program. The results of
  the remote calls come with the command.
\<close>

definition console_step :: "32 word \<Rightarrow> GetServersReply res \<Rightarrow> (Server \<Rightarrow> GetArgs \<Rightarrow> GetReply res) \<Rightarrow>
    (Server \<Rightarrow> PutArgs \<Rightarrow> PutReply res) \<Rightarrow> string \<Rightarrow> string \<Rightarrow> string \<Rightarrow> client \<Rightarrow> string list cres" where
  "console_step g view_rpc get_rpc put_rpc cmd key val c =
     (if cmd = ''get''
      then bindE (client_get g view_rpc get_rpc key c) (\<lambda>(v, c1).
           Inr ([case v of None \<Rightarrow> ''no such key'' | Some x \<Rightarrow> x], c1))
      else if cmd = ''put''
      then bindE (client_put g view_rpc put_rpc key val c) (\<lambda>(_, c1). Inr ([], c1))
      else Inr ([], c))"

text \<open>
  An iteration of \<open>stress.cpp\<close> on the numbers \<open>rand()\<close> returns: seven for the key, one for the choice
  and, for a \<open>put\<close>, one per byte of the value. Exceptions are counted, a crash is not caught.
\<close>

definition KEY_LENGTH :: nat where "KEY_LENGTH = 7"
definition PUT_PROPORTION :: nat where "PUT_PROPORTION = 50"
definition VALUE_SIZE :: nat where "VALUE_SIZE = 1024"

definition digits :: "nat list \<Rightarrow> string" where
  "digits rs = map (\<lambda>r. char_of (of_char CHR ''0'' + r mod 10 :: nat)) rs"

record stress =
  cacheClient :: client
  cnt :: int
  numFailedPuts :: int
  numFailedGets' :: int

definition stress_step :: "32 word \<Rightarrow> GetServersReply res \<Rightarrow> (Server \<Rightarrow> GetArgs \<Rightarrow> GetReply res) \<Rightarrow>
    (Server \<Rightarrow> PutArgs \<Rightarrow> PutReply res) \<Rightarrow> nat list \<Rightarrow> stress \<Rightarrow> stress option" where
  "stress_step g view_rpc get_rpc put_rpc rs s =
     (let key = digits (take KEY_LENGTH rs);
          value_rs = take VALUE_SIZE (drop (KEY_LENGTH + 1) rs) in
      if (rs ! KEY_LENGTH) mod PUT_PROPORTION = 0
      then (case client_put g view_rpc put_rpc key (digits value_rs) (cacheClient s) of
              Inr (_, c) \<Rightarrow> Some (s\<lparr>cacheClient := c, cnt := cnt s + 1\<rparr>)
            | Inl (e, c) \<Rightarrow> if e = Crashed then None else
                Some (s\<lparr>cacheClient := c, numFailedPuts := numFailedPuts s + 1, cnt := cnt s + 1\<rparr>))
      else (case client_get g view_rpc get_rpc key (cacheClient s) of
              Inr (_, c) \<Rightarrow> Some (s\<lparr>cacheClient := c, cnt := cnt s + 1\<rparr>)
            | Inl (e, c) \<Rightarrow> if e = Crashed then None else
                Some (s\<lparr>cacheClient := c, numFailedGets' := numFailedGets' s + 1, cnt := cnt s + 1\<rparr>)))"

text \<open>The numbers \<open>monitor.cpp\<close> prints: operations since the last round, then the totals.\<close>

definition getOps :: "GetStatisticsReply \<Rightarrow> int" where
  "getOps s = numInsertions s + numUpdates s + numGoodGets s + numFailedGets s"

definition printStatistics :: "GetStatisticsReply \<Rightarrow> GetStatisticsReply \<Rightarrow> (string \<times> int) list" where
  "printStatistics st prev =
     [(''ops: '', getOps st - getOps prev), (''data size: '', dataSize st),
      (''hash tables sizes: '', memoryOverhead st), (''evictions: '', numEvictions st),
      (''purges: '', numPurges st)]"

section \<open>Lemmas\<close>

lemma getServerID_cases:
  assumes "list_all (\<lambda>it. snd it \<noteq> []) (hashToServer (gs_view (reply' c)))"
  shows "hashToServer (gs_view (reply' c)) = [] \<and> getServerID g key c = Inl (EmptyRing, c) \<or>
    (\<exists>ss. getServer (ir_hash key) (gs_view (reply' c)) = Inr ss \<and> ss \<noteq> [] \<and>
      getServerID g key c = Inr (ss ! (unat g mod length ss), c) \<and> ss ! (unat g mod length ss) \<in> set ss)"
proof (cases "getServer (ir_hash key) (gs_view (reply' c))")
  case (Inl e)
  then show ?thesis by (simp add: getServerID_def getServer_error_iff)
next
  case (Inr ss)
  have "ss \<noteq> []" using getServer_in_ring [OF Inr] assms by (auto simp: list_all_iff)
  with Inr show ?thesis by (simp add: getServerID_def)
qed

text \<open>The catch clauses: whatever goes wrong, the cached view is refreshed or the view service is blamed.\<close>

definition refreshed :: "GetServersReply res \<Rightarrow> client \<Rightarrow> cexn \<Rightarrow> client \<Rightarrow> bool" where
  "refreshed view_rpc c e c' =
     (case view_rpc of
        Inl _ \<Rightarrow> e = ViewServiceException \<and> c' = c
      | Inr r \<Rightarrow> c' = c\<lparr>reply' := r\<rparr> \<and> e \<in> {EmptyRing, WrongServerException, ConnectionFailedException})"

lemma handlers_refresh [simp]:
  "handlers view_rpc (refresh_throw view_rpc WrongServerException c) = refresh_throw view_rpc WrongServerException c"
  by (cases view_rpc) (auto simp: refresh_throw_def c_getView_def handlers_def)

lemma handlers_simps [simp]:
  "handlers view_rpc (Inr x) = Inr x"
  "handlers view_rpc (Inl (EmptyRing, c)) = refresh_throw view_rpc EmptyRing c"
  "handlers view_rpc (Inl (OtherException, c)) = refresh_throw view_rpc ConnectionFailedException c"
  by (simp_all add: handlers_def)

lemma refresh_throw_case:
  assumes "e \<in> {EmptyRing, WrongServerException, ConnectionFailedException}"
  shows "case refresh_throw view_rpc e c of Inr x \<Rightarrow> P x | Inl (e', c') \<Rightarrow> refreshed view_rpc c e' c'"
  using assms by (cases view_rpc) (auto simp: refresh_throw_def c_getView_def refreshed_def)

section \<open>What the client promises\<close>

text \<open>
  Every \<open>get\<close> ends in one of two ways, and never crashes on a ring whose sites have servers: it
  returns what an owner of the key answered to a request with the cached view number (the value for
  \<open>OK\<close>, nothing for \<open>NO_KEY\<close>) and leaves the client as it was; or it throws, and then the cached view
  has been replaced by the one the view service returned, unless that call failed, which is reported
  as \<open>ViewServiceException\<close>.
\<close>

theorem client_get_outcome:
  assumes sites: "list_all (\<lambda>it. snd it \<noteq> []) (hashToServer (gs_view (reply' c)))"
  shows "case client_get g view_rpc get_rpc key c of
      Inr (v, c') \<Rightarrow> c' = c \<and> (\<exists>ss srv reply. getServer (ir_hash key) (gs_view (reply' c)) = Inr ss \<and>
        srv \<in> set ss \<and> get_rpc srv \<lparr>ga_key = key, ga_viewNum = gs_viewNum (reply' c)\<rparr> = Inr reply \<and>
        gr_status reply \<noteq> WRONG_SERVER \<and>
        v = (if gr_status reply = OK then Some (gr_value reply) else None))
    | Inl (e, c') \<Rightarrow> refreshed view_rpc c e c'"
  using getServerID_cases [OF sites, of g key]
proof (elim disjE exE conjE)
  assume "getServerID g key c = Inl (EmptyRing, c)"
  then show ?thesis by (simp add: client_get_def refresh_throw_case)
next
  fix ss :: "Server list"
  let ?srv = "ss ! (unat g mod length ss)" and ?q = "\<lparr>ga_key = key, ga_viewNum = gs_viewNum (reply' c)\<rparr>"
  assume s: "getServer (ir_hash key) (gs_view (reply' c)) = Inr ss" "getServerID g key c = Inr (?srv, c)"
    "?srv \<in> set ss"
  show ?thesis
  proof (cases "get_rpc ?srv ?q")
    case (Inl e)
    then show ?thesis using s by (simp add: client_get_def call_def refresh_throw_case)
  next
    case (Inr reply)
    show ?thesis
    proof (cases "gr_status reply = WRONG_SERVER")
      case True
      then show ?thesis using s Inr by (simp add: client_get_def call_def refresh_throw_case)
    next
      case False
      have "client_get g view_rpc get_rpc key c =
          Inr (if gr_status reply = OK then Some (gr_value reply) else None, c)"
        using s(2) Inr False by (simp add: client_get_def call_def)
      then show ?thesis using s(1,3) Inr False by auto
    qed
  qed
qed

theorem client_get_outcome_witness:
  "client_get 0 (Inl TTransportException) (\<lambda>_ _. Inr \<lparr>gr_status = OK, gr_value = ''v''\<rparr>) ''k''
     \<lparr>reply' = \<lparr>gs_view = \<lparr>hashToServer = [(0, [Server ''a'' 1])]\<rparr>, gs_viewNum = 1\<rparr>, viewServer = Server ''vs'' 9\<rparr>
   \<noteq> Inl (Crashed, \<lparr>reply' = new_GetServersReply, viewServer = Server ''vs'' 9\<rparr>)"
  using client_get_outcome [where g = 0 and view_rpc = "Inl TTransportException" and key = "''k''" and
      c = "\<lparr>reply' = \<lparr>gs_view = \<lparr>hashToServer = [(0, [Server ''a'' 1])]\<rparr>, gs_viewNum = 1\<rparr>,
      viewServer = Server ''vs'' 9\<rparr>" and
      get_rpc = "\<lambda>_ _. Inr \<lparr>gr_status = OK, gr_value = ''v''\<rparr>"]
  by (auto simp: refreshed_def)

text \<open>
  A \<open>put\<close> that returns was accepted by an owner of the key under the cached view number; one that
  throws has refreshed the cached view or reports that the view service failed.
\<close>

theorem client_put_outcome:
  assumes sites: "list_all (\<lambda>it. snd it \<noteq> []) (hashToServer (gs_view (reply' c)))"
  shows "case client_put g view_rpc put_rpc key val c of
      Inr (_, c') \<Rightarrow> c' = c \<and> (\<exists>ss srv reply. getServer (ir_hash key) (gs_view (reply' c)) = Inr ss \<and>
        srv \<in> set ss \<and>
        put_rpc srv \<lparr>pa_key = key, pa_value = val, pa_viewNum = gs_viewNum (reply' c)\<rparr> = Inr reply \<and>
        pr_status reply \<noteq> WRONG_SERVER)
    | Inl (e, c') \<Rightarrow> refreshed view_rpc c e c'"
  using getServerID_cases [OF sites, of g key]
proof (elim disjE exE conjE)
  assume "getServerID g key c = Inl (EmptyRing, c)"
  then show ?thesis by (simp add: client_put_def refresh_throw_case)
next
  fix ss :: "Server list"
  let ?srv = "ss ! (unat g mod length ss)"
    and ?q = "\<lparr>pa_key = key, pa_value = val, pa_viewNum = gs_viewNum (reply' c)\<rparr>"
  assume s: "getServer (ir_hash key) (gs_view (reply' c)) = Inr ss" "getServerID g key c = Inr (?srv, c)"
    "?srv \<in> set ss"
  show ?thesis
  proof (cases "put_rpc ?srv ?q")
    case (Inl e)
    then show ?thesis using s by (simp add: client_put_def call_def refresh_throw_case)
  next
    case (Inr reply)
    then show ?thesis using s
      by (cases "pr_status reply") (auto simp: client_put_def call_def refresh_throw_case)
  qed
qed

theorem client_put_outcome_witness:
  "client_put 0 (Inl TTransportException) (\<lambda>_ _. Inr \<lparr>pr_status = WRONG_SERVER\<rparr>) ''k'' ''v''
     \<lparr>reply' = \<lparr>gs_view = \<lparr>hashToServer = [(0, [Server ''a'' 1])]\<rparr>, gs_viewNum = 1\<rparr>, viewServer = Server ''vs'' 9\<rparr>
   \<noteq> Inl (WrongServerException, \<lparr>reply' = new_GetServersReply, viewServer = Server ''vs'' 9\<rparr>)"
  using client_put_outcome [where g = 0 and val = "''v''" and view_rpc = "Inl TTransportException" and key = "''k''" and
      c = "\<lparr>reply' = \<lparr>gs_view = \<lparr>hashToServer = [(0, [Server ''a'' 1])]\<rparr>, gs_viewNum = 1\<rparr>,
      viewServer = Server ''vs'' 9\<rparr>" and
      put_rpc = "\<lambda>_ _. Inr \<lparr>pr_status = WRONG_SERVER\<rparr>"]
  by (auto simp: refreshed_def)

end
