(* ===== verification/Cluster.thy ===== *)
theory Cluster
  imports KV_Spec View_Spec Cache_Client
begin

text \<open>
  The parts together: a client and a server that cached their views at different times of the same
  view service. The locale \<open>kv_service\<close> is what the client relies on in a server; it is interpreted
  on the handlers of \<open>KV_Server\<close>.
\<close>

section \<open>The contract of a cache server\<close>

locale kv_service =
  fixes me :: "'s \<Rightarrow> Server"
    and view :: "'s \<Rightarrow> GetServersReply"
    and ready :: "'s \<Rightarrow> bool"
    and serve_put :: "PutArgs \<Rightarrow> 's \<Rightarrow> (PutReply \<times> 's) res"
    and serve_get :: "GetArgs \<Rightarrow> 's \<Rightarrow> (GetReply \<times> 's) res"
  assumes put_owner: "ready s \<Longrightarrow> hashToServer (gs_view (view s)) \<noteq> [] \<Longrightarrow>
      pa_viewNum q = gs_viewNum (view s) \<Longrightarrow> me s \<in> set (owners (gs_view (view s)) (pa_key q)) \<Longrightarrow>
      \<exists>s'. serve_put q s = Inr (\<lparr>pr_status = OK\<rparr>, s') \<and> ready s' \<and> me s' = me s \<and> view s' = view s \<and>
        (\<exists>s''. serve_get \<lparr>ga_key = pa_key q, ga_viewNum = pa_viewNum q\<rparr> s'
           = Inr (\<lparr>gr_status = OK, gr_value = pa_value q\<rparr>, s''))"
    and get_owner: "ready s \<Longrightarrow> hashToServer (gs_view (view s)) \<noteq> [] \<Longrightarrow>
      ga_viewNum q' = gs_viewNum (view s) \<Longrightarrow> me s \<in> set (owners (gs_view (view s)) (ga_key q')) \<Longrightarrow>
      \<exists>r s'. serve_get q' s = Inr (r, s') \<and> gr_status r \<in> {OK, NO_KEY} \<and> ready s' \<and> me s' = me s \<and> view s' = view s"
begin

text \<open>A client with the server's view that draws this server: its \<open>put\<close> is accepted and read back.\<close>

lemma client_round_trip:
  assumes ready: "ready s" and view: "reply' c = view s"
    and pick: "getServerID g key c = Inr (me s, c)" "getServerID g' key c = Inr (me s, c)"
  shows "\<exists>s'. serve_put \<lparr>pa_key = key, pa_value = val, pa_viewNum = gs_viewNum (view s)\<rparr> s
      = Inr (\<lparr>pr_status = OK\<rparr>, s') \<and>
    client_put g vr (\<lambda>_ q. map_sum id fst (serve_put q s)) key val c = Inr ((), c) \<and>
    client_get g' vr' (\<lambda>_ q. map_sum id fst (serve_get q s')) key c = Inr (Some val, c)"
proof -
  let ?q = "\<lparr>pa_key = key, pa_value = val, pa_viewNum = gs_viewNum (view s)\<rparr>"
  obtain ss where ss: "getServer (ir_hash key) (gs_view (view s)) = Inr ss" "ss \<noteq> []"
    "me s = ss ! (unat g mod length ss)"
    using pick(1) view by (auto simp: getServerID_def split: sum.splits if_splits)
  then have "me s \<in> set (owners (gs_view (view s)) key)" by (simp add: owners_def)
  moreover have "hashToServer (gs_view (view s)) \<noteq> []" using ss(1) by (auto simp: getServer_def)
  ultimately obtain s' s'' where "serve_put ?q s = Inr (\<lparr>pr_status = OK\<rparr>, s')"
    "serve_get \<lparr>ga_key = key, ga_viewNum = gs_viewNum (view s)\<rparr> s' = Inr (\<lparr>gr_status = OK, gr_value = val\<rparr>, s'')"
    using put_owner [OF ready, of ?q] by auto
  then show ?thesis using pick view by (simp add: client_put_def client_get_def call_def)
qed

end

interpretation cache_server: kv_service self currentView "\<lambda>s. quiet s \<and> kv_inv s"
  "\<lambda>q s. map_sum fst id (put lk rpc q s)" "\<lambda>q s. map_sum fst id (get lk rpc q s)"
proof
  fix s :: kvstate and q' :: GetArgs
  assume "quiet s \<and> kv_inv s"
  then have s: "quiet s" "kv_inv s" by simp_all
  assume ring: "hashToServer (gs_view (currentView s)) \<noteq> []"
    and view: "ga_viewNum q' = gs_viewNum (currentView s)"
    and own: "self s \<in> set (owners (gs_view (currentView s)) (ga_key q'))"
  from getAccepted_refines [OF s, of q'] obtain s' where
    g: "getAccepted q' s = Inr (case lru_find (ga_key q') (cache s) of
        Some (v, _) \<Rightarrow> \<lparr>gr_status = OK, gr_value = v\<rparr> | None \<Rightarrow> \<lparr>gr_status = NO_KEY, gr_value = []\<rparr>, s')"
      "kv_inv s'" "ctl s' = ctl s" by blast
  have "get lk rpc q' s = getAccepted q' s"
    using checkServer_known [OF s(1), of "ga_viewNum q'" lk rpc "ga_key q'"] view ring own by (simp add: get_def)
  with g s(1) show "\<exists>r s'. map_sum fst id (get lk rpc q' s) = Inr (r, s') \<and> gr_status r \<in> {OK, NO_KEY} \<and>
      (quiet s' \<and> kv_inv s') \<and> self s' = self s \<and> currentView s' = currentView s"
    by (auto simp: ctl_def quiet_def split: option.splits)
next
  fix s :: kvstate and q :: PutArgs
  assume "quiet s \<and> kv_inv s"
  then have s: "quiet s" "kv_inv s" by simp_all
  assume ring: "hashToServer (gs_view (currentView s)) \<noteq> []"
    and view: "pa_viewNum q = gs_viewNum (currentView s)"
    and own: "self s \<in> set (owners (gs_view (currentView s)) (pa_key q))"
  from putAccepted_refines [OF s ring, of q] obtain s' where
    p: "putAccepted q s = Inr (\<lparr>pr_status = OK\<rparr>, s')" by blast
  have put: "put lk rpc q s = Inr (\<lparr>pr_status = OK\<rparr>, s')"
    using checkServer_known [OF s(1), of "pa_viewNum q" lk rpc "pa_key q"] view ring own p by (simp add: put_def)
  note pg = put_then_get [OF s ring view put, of lk rpc]
  then have "quiet s'" "self s' = self s" "currentView s' = currentView s"
    using s(1) by (simp_all add: ctl_def quiet_def)
  with pg put show "\<exists>s'. map_sum fst id (put lk rpc q s) = Inr (\<lparr>pr_status = OK\<rparr>, s') \<and> (quiet s' \<and> kv_inv s') \<and>
      self s' = self s \<and> currentView s' = currentView s \<and>
      (\<exists>s''. map_sum fst id (get lk rpc \<lparr>ga_key = pa_key q, ga_viewNum = pa_viewNum q\<rparr> s')
         = Inr (\<lparr>gr_status = OK, gr_value = pa_value q\<rparr>, s''))" by auto
qed

lemma map_sum_Inr: "map_sum f id m = Inr x \<Longrightarrow> m = Inr x"
  by (cases m) simp_all

section \<open>Client, server and view service\<close>

text \<open>
  C1. End to end: a client and a server that fetched their views at different times of the same view
  service, and hold the same view number, agree on the routing: the \<open>put\<close> the client sends to a
  server it draws for the key is accepted, the client's \<open>put\<close> returns, and its next \<open>get\<close> of the key
  from that server returns the value.
\<close>

theorem cluster_put_get:
  assumes reach: "vs_reach lk x" "(vs_step lk)\<^sup>*\<^sup>* x y"
    and views: "reply' c = vs_reply x \<and> currentView s = vs_reply y \<or> reply' c = vs_reply y \<and> currentView s = vs_reply x"
    and num: "gs_viewNum (reply' c) = gs_viewNum (currentView s)"
    and s: "quiet s" "kv_inv s"
    and pick: "getServerID g key c = Inr (self s, c)"
  shows "\<exists>s'. put lk' rpc \<lparr>pa_key = key, pa_value = val, pa_viewNum = gs_viewNum (reply' c)\<rparr> s
      = Inr (\<lparr>pr_status = OK\<rparr>, s') \<and>
    client_put g vr (\<lambda>_ q. map_sum fst fst (put lk' rpc q s)) key val c = Inr ((), c) \<and>
    client_get g vr (\<lambda>_ q. map_sum fst fst (get lk' rpc q s')) key c = Inr (Some val, c)"
proof -
  have "vs_inv (vs x)" using vs_reach_inv [OF reach(1)] .
  with views num have "reply' c = currentView s"
    using service.same_number [OF reach(2)] by auto
  note rt = cache_server.client_round_trip [OF _ this pick pick, of lk' rpc val vr vr]
  from rt s obtain s' where
    s': "map_sum fst id (put lk' rpc \<lparr>pa_key = key, pa_value = val, pa_viewNum = gs_viewNum (currentView s)\<rparr> s)
        = Inr (\<lparr>pr_status = OK\<rparr>, s')"
      "client_put g vr (\<lambda>_ q. map_sum fst fst (put lk' rpc q s)) key val c = Inr ((), c)"
      "client_get g vr (\<lambda>_ q. map_sum fst fst (get lk' rpc q s')) key c = Inr (Some val, c)"
    by (auto simp: sum.map_comp)
  from s'(1) have "put lk' rpc \<lparr>pa_key = key, pa_value = val, pa_viewNum = gs_viewNum (currentView s)\<rparr> s
        = Inr (\<lparr>pr_status = OK\<rparr>, s')" by (rule map_sum_Inr)
  with s' num show ?thesis by auto
qed

text \<open>A service with one registered server, which has pinged it, and a client of that view.\<close>

definition demo_sys :: vsys where
  "demo_sys = vs_init\<lparr>vs := \<lparr>viewNum = 1, views = [[], [demo_self]], rings = [[], [(7, [demo_self])]],
     pings = [(demo_self, Some 5)]\<rparr>\<rparr>"

lemma demo_sys_reach: "vs_reach lk demo_sys"
proof -
  let ?x = "vs_init\<lparr>vs := addServer_ping 5 demo_self (vs vs_init), adding := Some demo_self\<rparr>"
  have "vs_step lk vs_init ?x" by (rule vs_step.add_ping) (simp add: vs_init_def)
  moreover have "vs_step lk ?x (?x\<lparr>vs := vs demo_sys, adding := None\<rparr>)"
    by (rule vs_step.add_view [where g = 7 and srv = demo_self])
       (simp_all add: addServer_view_def addServer_ping_def atE_def vs_init_def new_ViewServiceHandler_def demo_sys_def)
  moreover have "?x\<lparr>vs := vs demo_sys, adding := None\<rparr> = demo_sys" by (simp add: demo_sys_def vs_init_def)
  ultimately show ?thesis unfolding vs_reach_def
    by (metis converse_rtranclp_into_rtranclp rtranclp.rtrancl_refl)
qed

theorem cluster_put_get_witness:
  "\<exists>s'. client_put 3 (Inl TTransportException)
       (\<lambda>_ q. map_sum fst fst (put True (Inl TTransportException) q (demo_fresh\<lparr>currentView := vs_reply demo_sys\<rparr>)))
       ''k'' ''v'' \<lparr>reply' = vs_reply demo_sys, viewServer = demo_peer\<rparr>
     = Inr ((), \<lparr>reply' = vs_reply demo_sys, viewServer = demo_peer\<rparr>) \<and>
     client_get 3 (Inl TTransportException) (\<lambda>_ q. map_sum fst fst (get True (Inl TTransportException) q s'))
       ''k'' \<lparr>reply' = vs_reply demo_sys, viewServer = demo_peer\<rparr>
     = Inr (Some ''v'', \<lparr>reply' = vs_reply demo_sys, viewServer = demo_peer\<rparr>)"
proof -
  let ?s = "demo_fresh\<lparr>currentView := vs_reply demo_sys\<rparr>"
  let ?c = "\<lparr>reply' = vs_reply demo_sys, viewServer = demo_peer\<rparr>"
  have "getServerID 3 ''k'' ?c = Inr (self ?s, ?c)"
    by (simp add: getServerID_def getServer_def vs_reply_def current_ring_def demo_sys_def demo_fresh_ok
        split: option.splits)
  moreover have "quiet ?s" "kv_inv ?s" using demo_fresh_ok by (simp_all add: quiet_def)
  ultimately show ?thesis
    using cluster_put_get [OF demo_sys_reach [of True] rtranclp.rtrancl_refl, of ?c ?s 3 "''k''" True
        "Inl TTransportException" "''v''" "Inl TTransportException"] by auto
qed

end
