(* ===== verification/Java_Client.thy ===== *)
theory Java_Client
  imports Cache_Client
begin

text \<open>
  The Java client of the blog (\<open>SimpleBlog/src/CacheClient.java\<close>, \<open>ConsistentHashing.java\<close>), the page
  code that caches database rows with it (\<open>HTTPServer.java\<close>), and the older \<open>prototype/src/JavaClient.java\<close>.
  The Java client finds the site of a key by scanning the ring in the order of a \<open>HashMap\<close>; it routes
  every key of 7-bit characters as the C++ code does.

  Java serialization and the outcomes of connections, remote calls and database queries are arguments.
\<close>

section \<open>Routing\<close>

text \<open>A Java string is a list of 16-bit units; \<open>result ^= s.charAt(i)\<close> zero-extends the unit.\<close>

definition j_hash_step :: "w32 \<Rightarrow> 16 word \<Rightarrow> w32" where
  "j_hash_step r ch =
     (let x = r XOR ucast ch in
      x + (push_bit 1 x + push_bit 4 x + push_bit 7 x + push_bit 8 x + push_bit 24 x))"

definition j_hash :: "16 word list \<Rightarrow> int" where
  "j_hash s = sint (foldl j_hash_step 0 s)"

record scan =
  find1 :: bool
  minHash :: int
  find2 :: bool
  lb :: int

definition j_scan_step :: "int \<Rightarrow> int \<Rightarrow> scan \<Rightarrow> scan" where
  "j_scan_step hash h s =
     (let s1 = (if \<not> find1 s \<or> h < minHash s then s\<lparr>find1 := True, minHash := h\<rparr> else s) in
      if h < hash then s1
      else if \<not> find2 s1 \<or> h < lb s1 then s1\<lparr>find2 := True, lb := h\<rparr>
      else s1)"

text \<open>\<open>keySet\<close> is the order in which the iterator gives the keys; \<open>None\<close> is \<open>null\<close>.\<close>

definition j_getServer :: "int list \<Rightarrow> int \<Rightarrow> View \<Rightarrow> Server list option res" where
  "j_getServer keySet hash view =
     (if hashToServer view = [] then Inl EmptyRingException
      else (let s = fold (j_scan_step hash) keySet \<lparr>find1 = False, minHash = 0, find2 = False, lb = 0\<rparr> in
            Inr (smap_find (hashToServer view) (if find2 s then lb s else minHash s))))"

section \<open>The client\<close>

datatype jexn =
    JEmptyRingException
  | JViewServiceException
  | JWrongServerException
  | JNoKeyException
  | JInvalidValueException
  | JIOException
  | JClassNotFoundException
  | JTException
  | JRuntimeException

type_synonym 'a jres = "(jexn \<times> client) + ('a \<times> client)"

definition j_getView :: "GetServersReply res \<Rightarrow> client \<Rightarrow> unit jres" where
  "j_getView view_rpc c =
     (case view_rpc of Inl _ \<Rightarrow> Inl (JViewServiceException, c) | Inr r \<Rightarrow> Inr ((), c\<lparr>reply' := r\<rparr>))"

definition j_new_CacheClient :: "GetServersReply res \<Rightarrow> Server \<Rightarrow> unit jres" where
  "j_new_CacheClient view_rpc srv = j_getView view_rpc \<lparr>reply' = new_GetServersReply, viewServer = srv\<rparr>"

text \<open>
  What a call sees of the outside: the order in which a \<open>HashMap\<close> lists the sites of a view, the numbers
  drawn by \<open>nextInt\<close>, whether a connection opens, and what the view service would answer.
\<close>

record jenv =
  keySet :: "View \<Rightarrow> int list"
  nextInt :: "nat \<Rightarrow> nat"
  connects :: "Server \<Rightarrow> bool"
  viewAnswer :: "GetServersReply res"

text \<open>\<open>getServer(String key)\<close>: \<open>nextInt(0)\<close> throws, as does a list that is \<open>null\<close>.\<close>

definition j_pick :: "jenv \<Rightarrow> 16 word list \<Rightarrow> client \<Rightarrow> jexn + Server" where
  "j_pick env key c =
     (let v = gs_view (reply' c) in
      case j_getServer (keySet env v) (j_hash key) v of
        Inl _ \<Rightarrow> Inl JEmptyRingException
      | Inr None \<Rightarrow> Inl JRuntimeException
      | Inr (Some servers) \<Rightarrow>
          if servers = [] then Inl JRuntimeException else Inr (servers ! nextInt env (length servers)))"

text \<open>\<open>getView(); throw e;\<close>\<close>

definition j_refresh :: "jenv \<Rightarrow> jexn \<Rightarrow> client \<Rightarrow> 'a jres" where
  "j_refresh env e c = bindE (j_getView (viewAnswer env) c) (\<lambda>(_, c1). Inl (e, c1))"

text \<open>A Java string of 7-bit characters, as the wire carries it in UTF-8.\<close>

definition j_string :: "string \<Rightarrow> 16 word list" where
  "j_string key = map (\<lambda>ch. of_nat (of_char ch)) key"

text \<open>
  \<open>put\<close>: the body of the \<open>try\<close> block, then its \<open>catch\<close> clauses. \<open>serialize\<close> is \<open>None\<close> when it throws \<open>IOException\<close>.
\<close>

definition j_put_body :: "jenv \<Rightarrow> ('v \<Rightarrow> string option)
    \<Rightarrow> (Server \<Rightarrow> PutArgs \<Rightarrow> PutReply res) \<Rightarrow> string \<Rightarrow> 'v \<Rightarrow> client \<Rightarrow> jexn + unit" where
  "j_put_body env serialize put_rpc key v c =
     bindE (j_pick env (j_string key) c) (\<lambda>srv.
       if \<not> connects env srv then Inl JTException
       else (case serialize v of
               None \<Rightarrow> Inl JIOException
             | Some data \<Rightarrow>
                 (case put_rpc srv \<lparr>pa_key = key, pa_value = data, pa_viewNum = gs_viewNum (reply' c)\<rparr> of
                    Inl _ \<Rightarrow> Inl JTException
                  | Inr reply \<Rightarrow> if pr_status reply = WRONG_SERVER then Inl JWrongServerException else Inr ())))"

definition j_put :: "jenv \<Rightarrow> ('v \<Rightarrow> string option)
    \<Rightarrow> (Server \<Rightarrow> PutArgs \<Rightarrow> PutReply res) \<Rightarrow> string \<Rightarrow> 'v \<Rightarrow> client \<Rightarrow> unit jres" where
  "j_put env serialize put_rpc key v c =
     (case j_put_body env serialize put_rpc key v c of
        Inr _ \<Rightarrow> Inr ((), c)
      | Inl e \<Rightarrow> if e = JIOException then Inl (JInvalidValueException, c) else j_refresh env e c)"

definition j_get_body :: "jenv \<Rightarrow> (string \<Rightarrow> jexn + 'v)
    \<Rightarrow> (Server \<Rightarrow> GetArgs \<Rightarrow> GetReply res) \<Rightarrow> string \<Rightarrow> client \<Rightarrow> jexn + 'v" where
  "j_get_body env deserialize get_rpc key c =
     bindE (j_pick env (j_string key) c) (\<lambda>srv.
       if \<not> connects env srv then Inl JTException
       else (case get_rpc srv \<lparr>ga_key = key, ga_viewNum = gs_viewNum (reply' c)\<rparr> of
               Inl _ \<Rightarrow> Inl JTException
             | Inr reply \<Rightarrow>
                 if gr_status reply = WRONG_SERVER then Inl JWrongServerException
                 else if gr_status reply = NO_KEY then Inl JNoKeyException
                 else deserialize (gr_value reply)))"

definition j_get :: "jenv \<Rightarrow> (string \<Rightarrow> jexn + 'v)
    \<Rightarrow> (Server \<Rightarrow> GetArgs \<Rightarrow> GetReply res) \<Rightarrow> string \<Rightarrow> client \<Rightarrow> 'v jres" where
  "j_get env deserialize get_rpc key c =
     (case j_get_body env deserialize get_rpc key c of
        Inr v \<Rightarrow> Inr (v, c)
      | Inl e \<Rightarrow>
          if e = JClassNotFoundException then Inl (JInvalidValueException, c)
          else if e = JNoKeyException then Inl (JNoKeyException, c)
          else j_refresh env e c)"

section \<open>The blog\<close>

text \<open>
  \<open>getPosts\<close>: ask the cache; on any exception ask the database, try to store the rows in the cache, and
  return them. \<open>db\<close> is \<open>None\<close> on an \<open>SQLException\<close>, which gives a page without posts.
\<close>

definition getPosts :: "jenv \<Rightarrow> jenv \<Rightarrow> ('p list \<Rightarrow> string option) \<Rightarrow> (string \<Rightarrow> jexn + 'p list)
    \<Rightarrow> (Server \<Rightarrow> GetArgs \<Rightarrow> GetReply res) \<Rightarrow> (Server \<Rightarrow> PutArgs \<Rightarrow> PutReply res)
    \<Rightarrow> (int \<Rightarrow> 'p list option) \<Rightarrow> int \<Rightarrow> client \<Rightarrow> 'p list \<times> client" where
  "getPosts env env2 serialize deserialize get_rpc put_rpc db userID c =
     (case j_get env deserialize get_rpc (show_int userID) c of
        Inr (posts, c1) \<Rightarrow> (posts, c1)
      | Inl (_, c1) \<Rightarrow>
          (case db userID of
             None \<Rightarrow> ([], c1)
           | Some posts \<Rightarrow>
               (case j_put env2 serialize put_rpc (show_int userID) posts c1 of
                  Inr (_, c2) \<Rightarrow> (posts, c2)
                | Inl (_, c2) \<Rightarrow> (posts, c2))))"

section \<open>The older client\<close>

text \<open>\<open>result % servers.size()\<close> of \<open>JavaClient.java\<close>: Java's remainder has the sign of the dividend.\<close>

definition jc_getServerID :: "16 word list \<Rightarrow> nat \<Rightarrow> int" where
  "jc_getServerID key n = (let r = j_hash key in if r < 0 then - (- r mod int n) else r mod int n)"

section \<open>Routing as in C++\<close>

abbreviation ascii :: "string \<Rightarrow> bool" where
  "ascii key \<equiv> (\<forall>c\<in>set key. of_char c < (128 :: nat))"

text \<open>Below 128 extending a byte with its sign and extending it with zeros are the same.\<close>

lemma char_to_uint_ascii:
  assumes "of_char c < (128 :: nat)"
  shows "char_to_uint c = of_nat (of_char c)"
proof -
  define n :: nat where "n = of_char c"
  have t: "take_bit 7 (of_nat n :: w32) = of_nat n"
    using assms by (simp add: n_def [symmetric] take_bit_of_nat take_bit_nat_eq_self)
  moreover have "\<not> bit (of_nat n :: w32) 7"
    by (metis bit_take_bit_iff less_irrefl t)
  ultimately have "signed_take_bit 7 (of_nat n :: w32) = of_nat n"
    by (simp add: signed_take_bit_def)
  then show ?thesis
    by (simp add: char_to_uint_def n_def)
qed

lemma ucast_char: "ucast (of_nat (of_char c) :: 16 word) = (of_nat (of_char c) :: w32)"
proof -
  have "of_char c < (256 :: nat)"
    by (metis mod_less_divisor of_char_mod_256 zero_less_numeral)
  then have "of_char c < (2 ^ 16 :: nat)"
    by (rule less_le_trans) simp
  then have "take_bit 16 (of_char c) = (of_char c :: nat)"
    by (rule take_bit_nat_eq_self)
  then show ?thesis
    by (simp add: unsigned_of_nat)
qed

lemma j_hash_ascii: "ascii key \<Longrightarrow> j_hash (j_string key) = ir_hash key"
proof -
  assume a: "ascii key"
  have "foldl j_hash_step r (j_string key) = foldl hash_step r key" for r
    using a
  proof (induction key arbitrary: r)
    case (Cons c key)
    then have "j_hash_step r (of_nat (of_char c)) = hash_step r c"
      by (simp add: j_hash_step_def hash_step_def ucast_char char_to_uint_ascii)
    with Cons show ?case
      by (simp add: j_string_def)
  qed (simp add: j_string_def)
  then show ?thesis
    by (simp add: j_hash_def ir_hash_def uhash_def)
qed

text \<open>The scan after the sites in \<open>S\<close>, in any order.\<close>

definition scanned :: "int \<Rightarrow> int set \<Rightarrow> scan \<Rightarrow> bool" where
  "scanned hash S s \<longleftrightarrow>
     (find1 s \<longleftrightarrow> S \<noteq> {}) \<and> (find1 s \<longrightarrow> minHash s \<in> S \<and> (\<forall>k\<in>S. minHash s \<le> k)) \<and>
     (find2 s \<longleftrightarrow> (\<exists>k\<in>S. hash \<le> k)) \<and>
     (find2 s \<longrightarrow> lb s \<in> S \<and> hash \<le> lb s \<and> (\<forall>k\<in>S. hash \<le> k \<longrightarrow> lb s \<le> k))"

lemma scanned_step: "scanned hash S s \<Longrightarrow> scanned hash (insert h S) (j_scan_step hash h s)"
  by (cases s) (auto simp: scanned_def j_scan_step_def Let_def split: if_splits)

lemma scanned_fold: "scanned hash S s \<Longrightarrow> scanned hash (S \<union> set ks) (fold (j_scan_step hash) ks s)"
proof (induction ks arbitrary: S s)
  case (Cons k ks)
  then show ?case
    using Cons.IH [OF scanned_step [OF Cons.prems, of k]] by simp
qed simp

lemma scanned_succ:
  "scanned hash S s \<Longrightarrow> S \<noteq> {} \<Longrightarrow> clockwise_succ S hash (if find2 s then lb s else minHash s)"
  by (auto simp: scanned_def clockwise_succ_def)

lemma j_getServer_eq:
  assumes ok: "smap_ok (hashToServer v)" and ks: "set ks = fst ` set (hashToServer v)"
  shows "j_getServer ks h v = map_sum id Some (getServer h v)"
proof (cases "hashToServer v = []")
  case False
  define s where "s = fold (j_scan_step h) ks \<lparr>find1 = False, minHash = 0, find2 = False, lb = 0\<rparr>"
  have "scanned h (set ks) s"
    using scanned_fold [of h "{}" _ ks] by (simp add: s_def scanned_def)
  then have "clockwise_succ (fst ` set (hashToServer v)) h (if find2 s then lb s else minHash s)"
    using scanned_succ ks False by auto
  then have "getServer h v = Inr (the (smap_find (hashToServer v) (if find2 s then lb s else minHash s)))
      \<and> smap_find (hashToServer v) (if find2 s then lb s else minHash s) \<noteq> None"
    using getServer_succ [OF ok False, of h] clockwise_succ_unique by fastforce
  then show ?thesis
    using False by (auto simp: j_getServer_def s_def [symmetric])
qed (simp add: j_getServer_def)

text \<open>
  C13. The Java client routes a key of 7-bit characters exactly as the C++ client and the servers do,
  although it has its own hash on 16-bit characters and its own search, a scan over the sites in the
  unspecified order of a hash map: the same servers, and the same exception on an empty ring.
\<close>

theorem java_routes:
  assumes "smap_ok (hashToServer v)" and "set ks = fst ` set (hashToServer v)" and "ascii key"
  shows "j_getServer ks (j_hash (j_string key)) v = map_sum id Some (getServer (ir_hash key) v)"
  using assms by (simp only: j_hash_ascii j_getServer_eq)

theorem java_routes_witness:
  "j_getServer [4, -3] (j_hash (j_string ''user'')) \<lparr>hashToServer = [(-3, [Server ''a'' 1]), (4, [Server ''b'' 2])]\<rparr>
     = map_sum id Some (getServer (ir_hash ''user'') \<lparr>hashToServer = [(-3, [Server ''a'' 1]), (4, [Server ''b'' 2])]\<rparr>)"
  by (rule java_routes) auto

text \<open>
  The older Java client indexes the list of servers by Java's remainder, which keeps the sign of the
  hash: the index is valid exactly for the keys whose hash is not negative or a multiple of the number
  of servers, and for every other key \<open>servers.get\<close> throws.
\<close>

theorem javaclient_index:
  assumes "0 < n"
  shows "0 \<le> jc_getServerID key n \<and> jc_getServerID key n < int n \<longleftrightarrow> 0 \<le> j_hash key \<or> int n dvd j_hash key"
proof (cases "0 \<le> j_hash key")
  case False
  define m where "m = - j_hash key mod int n"
  have "0 \<le> m" "int n dvd j_hash key \<longleftrightarrow> m = 0"
    using assms unfolding m_def by (simp, metis dvd_eq_mod_eq_0 dvd_minus_iff)
  moreover have "jc_getServerID key n = - m"
    using False by (simp add: jc_getServerID_def Let_def m_def)
  ultimately show ?thesis
    using False assms by auto
qed (use assms in \<open>simp add: jc_getServerID_def Let_def\<close>)

theorem javaclient_index_witness:
  "\<not> (0 \<le> jc_getServerID (j_string ''ab'') 5 \<and> jc_getServerID (j_string ''ab'') 5 < int 5)"
proof -
  have "j_hash (j_string ''ab'') = - 2064609021"
    by code_simp
  then show ?thesis
    using javaclient_index [of 5 "j_string ''ab''"] by simp
qed

lemma show_nat_ascii: "ascii (show_nat n)"
proof (induction n rule: show_nat.induct)
  case (1 n)
  then show ?case
    by (subst show_nat.simps) (auto simp: of_char_of)
qed

lemma show_int_ascii: "ascii (show_int i)"
  using show_nat_ascii by (auto simp: show_int_def)

text \<open>
  A call of the client that draws the server \<open>srv\<close> for the key and connects to it: the iterator lists the
  sites of the view, \<open>nextInt n\<close> is below \<open>n\<close>.
\<close>

definition j_reaches :: "jenv \<Rightarrow> string \<Rightarrow> client \<Rightarrow> Server \<Rightarrow> bool" where
  "j_reaches env key c srv \<longleftrightarrow>
     set (keySet env (gs_view (reply' c))) = fst ` set (hashToServer (gs_view (reply' c))) \<and>
     (\<forall>n>0. nextInt env n < n) \<and> j_pick env (j_string key) c = Inr srv \<and> connects env srv"

text \<open>Every server the Java client picks for a key owns it.\<close>

lemma j_pick_owner:
  assumes ok: "smap_ok (hashToServer (gs_view (reply' c)))" and "ascii key" and r: "j_reaches env key c srv"
  shows "\<exists>ss. getServer (ir_hash key) (gs_view (reply' c)) = Inr ss \<and> srv \<in> set ss"
  using r j_getServer_eq [OF ok, of "keySet env (gs_view (reply' c))"] j_hash_ascii [OF assms(2)]
  by (cases "getServer (ir_hash key) (gs_view (reply' c))")
     (auto simp: j_reaches_def j_pick_def Let_def split: if_splits)

end
