(* ===== verification/Blog.thy ===== *)
theory Blog
  imports Cluster Java_Client
begin

text \<open>
  The blog on top of the cluster: a page read through the cache (\<open>getPosts\<close> of
  \<open>SimpleBlog/src/HTTPServer.java\<close>), the Java client and a cache server together.
\<close>

context kv_service
begin

lemma java_owner:
  assumes "reply' c = view s" "smap_ok (hashToServer (gs_view (view s)))" "j_reaches env key c (me s)" "ascii key"
  shows "me s \<in> set (owners (gs_view (view s)) key)" "hashToServer (gs_view (view s)) \<noteq> []"
proof -
  from j_pick_owner [OF _ assms(4,3)] assms(1,2) obtain ss where
    "getServer (ir_hash key) (gs_view (view s)) = Inr ss" "me s \<in> set ss" by auto
  then show "me s \<in> set (owners (gs_view (view s)) key)" "hashToServer (gs_view (view s)) \<noteq> []"
    by (auto simp: owners_def)
qed

text \<open>
  A page that is not in the cache is read from the database and stored; the next visit is answered
  with the same posts, whatever has become of the database.
\<close>

lemma page_cached:
  assumes v: "ready s" "reply' c = view s" "smap_ok (hashToServer (gs_view (view s)))"
    and r: "j_reaches e1 (show_int uid) c (me s)" "j_reaches e2 (show_int uid) c (me s)" "j_reaches e3 (show_int uid) c (me s)"
    and miss: "serve_get \<lparr>ga_key = show_int uid, ga_viewNum = gs_viewNum (reply' c)\<rparr> s = Inr (rep, s1)" "gr_status rep = NO_KEY"
    and db: "db uid = Some posts" and ser: "serialize posts = Some data" "deserialize data = Inr posts"
  shows "\<exists>s2. serve_put \<lparr>pa_key = show_int uid, pa_value = data, pa_viewNum = gs_viewNum (reply' c)\<rparr> s1
        = Inr (\<lparr>pr_status = OK\<rparr>, s2) \<and>
      getPosts e1 e2 serialize deserialize (\<lambda>_ q. map_sum id fst (serve_get q s)) (\<lambda>_ q. map_sum id fst (serve_put q s1)) db uid c
        = (posts, c) \<and>
      getPosts e3 e4 serialize deserialize (\<lambda>_ q. map_sum id fst (serve_get q s2)) put_rpc db' uid c = (posts, c)"
proof -
  let ?q = "\<lparr>pa_key = show_int uid, pa_value = data, pa_viewNum = gs_viewNum (reply' c)\<rparr>"
  note o = java_owner [OF v(2,3) r(1) show_int_ascii]
  have s1: "ready s1" "me s1 = me s" "view s1 = view s"
    using get_owner [of s "\<lparr>ga_key = show_int uid, ga_viewNum = gs_viewNum (reply' c)\<rparr>"] v o miss
    by auto
  then obtain s2 s3 where s2: "serve_put ?q s1 = Inr (\<lparr>pr_status = OK\<rparr>, s2)"
      "serve_get \<lparr>ga_key = show_int uid, ga_viewNum = gs_viewNum (reply' c)\<rparr> s2 = Inr (\<lparr>gr_status = OK, gr_value = data\<rparr>, s3)"
    using put_owner [of s1 ?q] v o by auto
  have "j_get e1 deserialize (\<lambda>_ q. map_sum id fst (serve_get q s)) (show_int uid) c = Inl (JNoKeyException, c)"
    using r(1) miss by (simp add: j_get_def j_get_body_def j_reaches_def)
  moreover have "j_put e2 serialize (\<lambda>_ q. map_sum id fst (serve_put q s1)) (show_int uid) posts c = Inr ((), c)"
    using r(2) ser s2(1) by (simp add: j_put_def j_put_body_def j_reaches_def)
  moreover have "j_get e3 deserialize (\<lambda>_ q. map_sum id fst (serve_get q s2)) (show_int uid) c = Inr (posts, c)"
    using r(3) ser s2(2) by (simp add: j_get_def j_get_body_def j_reaches_def)
  ultimately show ?thesis
    using s2(1) db by (auto simp: getPosts_def)
qed

end

text \<open>
  C5. A page that is not in the cache is read from the database, shown, and stored at an owner of its
  key; the next visit shows the same posts from the cache, whatever has become of the database,
  provided that the random choice of a replica falls on that owner in all three calls (the \<open>get\<close> and
  the \<open>put\<close> of the first visit and the \<open>get\<close> of the next), as it does when the site has one server.
  Another replica would answer the next visit from its own cache. The Java client, the cache server
  and a view of a reachable state of the view service take part; Java serialization only has to read
  back what it wrote.
\<close>

theorem blog_page_cached:
  assumes reach: "vs_reach lk x" and views: "reply' c = vs_reply x" "currentView s = vs_reply x"
    and s: "quiet s" "kv_inv s" and miss: "lru_find (show_int uid) (cache s) = None"
    and r: "j_reaches e1 (show_int uid) c (self s)" "j_reaches e2 (show_int uid) c (self s)"
      "j_reaches e3 (show_int uid) c (self s)"
    and db: "db uid = Some posts" and ser: "serialize posts = Some data" "deserialize data = Inr posts"
  shows "\<exists>s1 s2. get lk' rpc \<lparr>ga_key = show_int uid, ga_viewNum = gs_viewNum (vs_reply x)\<rparr> s
        = Inr (\<lparr>gr_status = NO_KEY, gr_value = []\<rparr>, s1) \<and>
      put lk' rpc \<lparr>pa_key = show_int uid, pa_value = data, pa_viewNum = gs_viewNum (vs_reply x)\<rparr> s1
        = Inr (\<lparr>pr_status = OK\<rparr>, s2) \<and>
      getPosts e1 e2 serialize deserialize (\<lambda>_ q. map_sum fst fst (get lk' rpc q s))
        (\<lambda>_ q. map_sum fst fst (put lk' rpc q s1)) db uid c = (posts, c) \<and>
      getPosts e3 e4 serialize deserialize (\<lambda>_ q. map_sum fst fst (get lk' rpc q s2)) put_rpc db' uid c = (posts, c)"
proof -
  let ?g = "\<lparr>ga_key = show_int uid, ga_viewNum = gs_viewNum (vs_reply x)\<rparr>"
  have ok: "smap_ok (hashToServer (gs_view (currentView s)))"
    using vs_inv_current(3) [OF vs_reach_inv [OF reach]] views(2) by (simp add: ring_ok_def vs_reply_def)
  have v: "reply' c = currentView s" using views by simp
  note o = cache_server.java_owner [OF v ok r(1) show_int_ascii]
  from getAccepted_refines [OF s, of ?g] miss obtain s1 where
    "getAccepted ?g s = Inr (\<lparr>gr_status = NO_KEY, gr_value = []\<rparr>, s1)" by auto
  then have g: "get lk' rpc ?g s = Inr (\<lparr>gr_status = NO_KEY, gr_value = []\<rparr>, s1)"
    using checkServer_known [OF s(1), of "gs_viewNum (vs_reply x)" lk' rpc "show_int uid"] views o by (simp add: get_def)
  then have m: "map_sum fst id (get lk' rpc \<lparr>ga_key = show_int uid, ga_viewNum = gs_viewNum (reply' c)\<rparr> s)
      = Inr (\<lparr>gr_status = NO_KEY, gr_value = []\<rparr>, s1)" using views by simp
  from cache_server.page_cached [where db = db and posts = posts and serialize = serialize and deserialize = deserialize
      and data = data and put_rpc = put_rpc and db' = db' and ?e4.0 = e4, OF _ v ok r m _ db ser] s views(1) obtain s2 where
    p: "map_sum fst id (put lk' rpc \<lparr>pa_key = show_int uid, pa_value = data, pa_viewNum = gs_viewNum (vs_reply x)\<rparr> s1)
        = Inr (\<lparr>pr_status = OK\<rparr>, s2)"
      "getPosts e1 e2 serialize deserialize (\<lambda>_ q. map_sum fst fst (get lk' rpc q s))
        (\<lambda>_ q. map_sum fst fst (put lk' rpc q s1)) db uid c = (posts, c)"
      "getPosts e3 e4 serialize deserialize (\<lambda>_ q. map_sum fst fst (get lk' rpc q s2)) put_rpc db' uid c = (posts, c)"
    by (auto simp: sum.map_comp)
  show ?thesis
    by (intro exI conjI) (rule g, rule map_sum_Inr [OF p(1)], rule p(2), rule p(3))
qed

definition demo_env :: jenv where
  "demo_env = \<lparr>keySet = \<lambda>v. map fst (hashToServer v), nextInt = \<lambda>n. n - 1, connects = \<lambda>_. True, viewAnswer = Inl TTransportException\<rparr>"

theorem blog_page_cached_witness:
  "\<exists>s1 s2. getPosts demo_env demo_env (\<lambda>p. Some (concat p)) (\<lambda>d. Inr [d])
       (\<lambda>_ q. map_sum fst fst (get True (Inl TTransportException) q (demo_fresh\<lparr>currentView := vs_reply demo_sys\<rparr>)))
       (\<lambda>_ q. map_sum fst fst (put True (Inl TTransportException) q s1)) (\<lambda>_. Some [''hello'']) 7
       \<lparr>reply' = vs_reply demo_sys, viewServer = demo_peer\<rparr>
     = ([''hello''], \<lparr>reply' = vs_reply demo_sys, viewServer = demo_peer\<rparr>) \<and>
     getPosts demo_env demo_env (\<lambda>p. Some (concat p)) (\<lambda>d. Inr [d])
       (\<lambda>_ q. map_sum fst fst (get True (Inl TTransportException) q s2)) (\<lambda>_ _. Inl TTransportException) (\<lambda>_. None) 7
       \<lparr>reply' = vs_reply demo_sys, viewServer = demo_peer\<rparr>
     = ([''hello''], \<lparr>reply' = vs_reply demo_sys, viewServer = demo_peer\<rparr>)"
proof -
  let ?s = "demo_fresh\<lparr>currentView := vs_reply demo_sys\<rparr>"
  let ?c = "\<lparr>reply' = vs_reply demo_sys, viewServer = demo_peer\<rparr>"
  have v: "gs_view (vs_reply demo_sys) = \<lparr>hashToServer = [(7, [demo_self])]\<rparr>"
    by (simp add: vs_reply_def current_ring_def demo_sys_def)
  have "j_getServer [7] h (gs_view (vs_reply demo_sys)) = Inr (Some [demo_self])" for h
    using j_getServer_eq [of "gs_view (vs_reply demo_sys)" "[7]" h]
    by (simp add: v getServer_def split: option.splits)
  then have r: "j_reaches demo_env (show_int 7) ?c (self ?s)"
    by (simp add: j_reaches_def j_pick_def Let_def demo_env_def v demo_fresh_ok)
  have "quiet ?s" "kv_inv ?s" "lru_find (show_int 7) (cache ?s) = None"
    using demo_fresh_ok by (simp_all add: quiet_def lru_find_def)
  from blog_page_cached [where db = "\<lambda>_. Some [''hello'']" and posts = "[''hello'']" and serialize = "\<lambda>p. Some (concat p)"
        and deserialize = "\<lambda>d. Inr [d]" and data = "''hello''" and put_rpc = "\<lambda>_ _. Inl TTransportException"
        and db' = "\<lambda>_. None" and lk' = True and rpc = "Inl TTransportException" and ?e4.0 = demo_env,
        OF demo_sys_reach [of True] _ _ this r r r]
  show ?thesis by fastforce
qed

end
