(* ===== verification/Python_Client.thy ===== *)
theory Python_Client
  imports Java_Client
begin

text \<open>
  The Python client (\<open>prototype/client.py\<close>). It computes the hash on unbounded integers, turns it into a
  signed number by hand, and searches the sorted sites with \<open>bisect\<close>. Both differ from the C++ code by one,
  and the theorem says for which keys this sends a request to the wrong site.
\<close>

section \<open>Routing\<close>

definition py_convert :: "int \<Rightarrow> int" where
  "py_convert n = n AND 0xFFFFFFFF"

definition py_hash_step :: "int \<Rightarrow> char \<Rightarrow> int" where
  "py_hash_step r c =
     (let r = r XOR py_convert (of_char c) in
      r + py_convert (push_bit 1 (py_convert r) + push_bit 4 (py_convert r) + push_bit 7 (py_convert r)
            + push_bit 8 (py_convert r) + push_bit 24 (py_convert r)))"

definition py_position :: "string \<Rightarrow> int" where
  "py_position key =
     (let r = foldl py_hash_step 0 key mod 4294967296 in if r > 2147483648 then r - 4294967295 else r)"

text \<open>\<open>bisect\<close> on a sorted list: the index behind every element that is not greater.\<close>

definition py_bisect :: "int list \<Rightarrow> int \<Rightarrow> nat" where
  "py_bisect ks x = length (takeWhile (\<lambda>k. k \<le> x) ks)"

datatype pexn = IndexError | GetFailed | PutFailed

definition py_site :: "string \<Rightarrow> View \<Rightarrow> pexn + int" where
  "py_site key v =
     (let sortedKeys = sort (map fst (hashToServer v)); pos = py_bisect sortedKeys (py_position key) in
      if pos = length sortedKeys then (if sortedKeys = [] then Inl IndexError else Inr (sortedKeys ! 0))
      else Inr (sortedKeys ! pos))"

text \<open>\<open>random.choice\<close> of the site's servers; \<open>choice n\<close> is the index it draws from \<open>n\<close>.\<close>

definition py_getServer :: "(nat \<Rightarrow> nat) \<Rightarrow> string \<Rightarrow> View \<Rightarrow> pexn + Server" where
  "py_getServer choice key v =
     bindE (py_site key v) (\<lambda>k.
       case smap_find (hashToServer v) k of
         None \<Rightarrow> Inl IndexError
       | Some ss \<Rightarrow> if ss = [] then Inl IndexError else Inr (ss ! choice (length ss)))"

section \<open>The client\<close>

type_synonym 'a pres = "(pexn \<times> client) + ('a \<times> client)"

definition py_getView :: "GetServersReply res \<Rightarrow> client \<Rightarrow> client res" where
  "py_getView view_rpc c = map_sum id (\<lambda>r. c\<lparr>reply' := r\<rparr>) view_rpc"

text \<open>
  \<open>self.getView()\<close> and the exception that follows it; every exception inside the \<open>try\<close> block, one of
  \<open>getView\<close> included, becomes the same one.
\<close>

definition py_refused :: "GetServersReply res \<Rightarrow> pexn \<Rightarrow> client \<Rightarrow> 'a pres" where
  "py_refused view_rpc e c = (case py_getView view_rpc c of Inl _ \<Rightarrow> Inl (e, c) | Inr c1 \<Rightarrow> Inl (e, c1))"

text \<open>\<open>get\<close> gives \<open>None\<close> for the empty string it returns when there is no such key.\<close>

definition py_get :: "(nat \<Rightarrow> nat) \<Rightarrow> GetServersReply res \<Rightarrow> (string \<Rightarrow> 'v option)
    \<Rightarrow> (Server \<Rightarrow> GetArgs \<Rightarrow> GetReply res) \<Rightarrow> string \<Rightarrow> client \<Rightarrow> 'v option pres" where
  "py_get choice view_rpc loads get_rpc key c =
     (case py_getServer choice key (gs_view (reply' c)) of
        Inl _ \<Rightarrow> Inl (GetFailed, c)
      | Inr srv \<Rightarrow>
          (case get_rpc srv \<lparr>ga_key = key, ga_viewNum = gs_viewNum (reply' c)\<rparr> of
             Inl _ \<Rightarrow> Inl (GetFailed, c)
           | Inr reply \<Rightarrow>
               if gr_status reply = OK
               then (case loads (gr_value reply) of None \<Rightarrow> Inl (GetFailed, c) | Some v \<Rightarrow> Inr (Some v, c))
               else if gr_status reply = NO_KEY then Inr (None, c)
               else py_refused view_rpc GetFailed c))"

definition py_put :: "(nat \<Rightarrow> nat) \<Rightarrow> GetServersReply res \<Rightarrow> ('v \<Rightarrow> string)
    \<Rightarrow> (Server \<Rightarrow> PutArgs \<Rightarrow> PutReply res) \<Rightarrow> string \<Rightarrow> 'v \<Rightarrow> client \<Rightarrow> unit pres" where
  "py_put choice view_rpc dumps put_rpc key val c =
     (case py_getServer choice key (gs_view (reply' c)) of
        Inl _ \<Rightarrow> Inl (PutFailed, c)
      | Inr srv \<Rightarrow>
          (case put_rpc srv \<lparr>pa_key = key, pa_value = dumps val, pa_viewNum = gs_viewNum (reply' c)\<rparr> of
             Inl _ \<Rightarrow> Inl (PutFailed, c)
           | Inr reply \<Rightarrow> if pr_status reply = WRONG_SERVER then py_refused view_rpc PutFailed c else Inr ((), c)))"

section \<open>The hash on unbounded integers\<close>

lemma py_convert_mod: "py_convert n = take_bit 32 n"
  by (simp add: py_convert_def take_bit_eq_mask mask_eq_exp_minus_1)

lemma of_int_convert: "(of_int (py_convert n) :: w32) = of_int n"
  by (simp add: py_convert_mod take_bit_word_eq_self flip: take_bit_of_int)

lemma of_int_push_convert: "(of_int (push_bit k (py_convert n)) :: w32) = push_bit k (of_int n)"
  by (metis of_int_convert push_bit_of_int)

lemma py_hash_step_word:
  assumes "of_char c < (128 :: nat)"
  shows "(of_int (py_hash_step r c) :: w32) = hash_step (of_int r) c"
proof -
  have c: "(of_int (of_char c) :: w32) = char_to_uint c"
    using char_to_uint_ascii [OF assms] by (simp add: of_nat_of_char of_int_of_char)
  define n where "n = r XOR py_convert (of_char c)"
  have "(of_int n :: w32) = of_int r XOR char_to_uint c"
    by (simp add: n_def of_int_xor_eq of_int_convert c)
  then show ?thesis
    by (simp only: py_hash_step_def hash_step_def Let_def n_def [symmetric] of_int_add of_int_convert of_int_push_convert)
qed

lemma py_hash_word: "ascii key \<Longrightarrow> (of_int (foldl py_hash_step r key) :: w32) = foldl hash_step (of_int r) key"
proof (induction key arbitrary: r)
  case (Cons c key)
  then show ?case
    using py_hash_step_word [of c r] by simp
qed simp

lemma py_position_eq:
  assumes "ascii key"
  shows "py_position key = (if ir_hash key = - (2 ^ 31) then 2 ^ 31 else if ir_hash key < 0 then ir_hash key + 1 else ir_hash key)"
proof -
  define n where "n = foldl py_hash_step 0 key"
  define w where "w = uhash key"
  have "w = of_int n"
    using py_hash_word [OF assms, of 0] by (simp add: n_def w_def uhash_def)
  then have u: "uint w = n mod 4294967296"
    by (simp add: uint_word_of_int)
  moreover have h: "sint w = ir_hash key"
    by (simp add: w_def ir_hash_def)
  then have "uint w = ir_hash key mod 2 ^ 32"
    using uint_sint [of w] by (simp add: take_bit_eq_mod)
  moreover have "ir_hash key mod 2 ^ 32 = (if ir_hash key < 0 then ir_hash key + 2 ^ 32 else ir_hash key)"
    using ir_hash_range [of key] mod_pos_pos_trivial [of "ir_hash key + 2 ^ 32" "2 ^ 32"] by auto
  ultimately have "n mod 4294967296 = (if ir_hash key < 0 then ir_hash key + 2 ^ 32 else ir_hash key)"
    by simp
  then show ?thesis
    using ir_hash_range [of key] by (auto simp: py_position_def n_def [symmetric] Let_def)
qed

section \<open>The search\<close>

text \<open>\<open>bisect\<close> skips a site at the position itself: the site found is the successor of the next position.\<close>

lemma sorted_takeWhile_le:
  fixes ks :: "int list"
  assumes "sorted ks" "length (takeWhile (\<lambda>k. k \<le> x) ks) < length ks"
  shows "x < ks ! length (takeWhile (\<lambda>k. k \<le> x) ks)"
    "k \<in> set ks \<Longrightarrow> x < k \<Longrightarrow> ks ! length (takeWhile (\<lambda>k. k \<le> x) ks) \<le> k"
proof -
  let ?p = "length (takeWhile (\<lambda>k. k \<le> x) ks)"
  show "x < ks ! ?p"
    using nth_length_takeWhile [OF assms(2)] by simp
  assume k: "k \<in> set ks" "x < k"
  then obtain j where j: "j < length ks" "ks ! j = k"
    by (auto simp: in_set_conv_nth)
  have "\<not> j < ?p"
    using j k by (metis leD nth_mem set_takeWhileD takeWhile_nth)
  then show "ks ! ?p \<le> k"
    using j assms(1) by (metis not_less sorted_nth_mono)
qed

lemma py_site_succ:
  assumes ok: "smap_ok (hashToServer v)" and ne: "hashToServer v \<noteq> []"
  shows "\<exists>k. py_site key v = Inr k \<and> clockwise_succ (fst ` set (hashToServer v)) (py_position key + 1) k"
proof -
  let ?x = "py_position key"
  define ks where "ks = sort (map fst (hashToServer v))"
  have ks: "sorted ks" "set ks = fst ` set (hashToServer v)" "ks \<noteq> []"
    using ne by (auto simp: ks_def) (metis length_0_conv length_map length_sort)
  show ?thesis
  proof (cases "py_bisect ks ?x = length ks")
    case True
    then have "\<forall>k\<in>set ks. k \<le> ?x"
      unfolding py_bisect_def by (metis takeWhile_eq_all_conv takeWhile_eq_take take_all_iff order_refl)
    moreover have "\<forall>k\<in>set ks. ks ! 0 \<le> k"
      using ks(1) by (metis in_set_conv_nth le0 sorted_nth_mono)
    moreover have "ks ! 0 \<in> set ks"
      using ks(3) by simp
    ultimately have "clockwise_succ (set ks) (?x + 1) (ks ! 0)"
      by (force simp: clockwise_succ_def)
    then show ?thesis
      using True ks by (simp add: py_site_def ks_def [symmetric] Let_def)
  next
    case False
    then have l: "py_bisect ks ?x < length ks"
      unfolding py_bisect_def by (meson le_neq_implies_less length_takeWhile_le)
    have "clockwise_succ (set ks) (?x + 1) (ks ! py_bisect ks ?x)"
      using sorted_takeWhile_le [OF ks(1) l [unfolded py_bisect_def]] l
      unfolding py_bisect_def clockwise_succ_def by (auto simp: add1_zle_eq)
    then show ?thesis
      using False ks by (simp add: py_site_def ks_def [symmetric] Let_def)
  qed
qed

lemma clockwise_succ_later:
  assumes "finite S" "S \<noteq> {}" and "clockwise_succ S (x + 1) k" and "h \<le> (x :: int)"
  shows "clockwise_succ S h k \<longleftrightarrow> S \<inter> {h..x} = {} \<or> S \<subseteq> {h..x}"
proof -
  have later: "k \<in> S" "if \<exists>k'\<in>S. x < k' then x < k \<and> (\<forall>k'\<in>S. x < k' \<longrightarrow> k \<le> k') else \<forall>k'\<in>S. k \<le> k'"
    using assms(3) by (auto simp: clockwise_succ_def add1_zle_eq split: if_splits)
  show ?thesis
  proof (cases "S \<inter> {h..x} = {}")
    case True
    then have "h \<le> k' \<longleftrightarrow> x < k'" if "k' \<in> S" for k'
      using that assms(4) by force
    then show ?thesis
      using True later by (auto simp: clockwise_succ_def split: if_splits)
  next
    case False
    then obtain p where p: "p \<in> S" "h \<le> p" "p \<le> x"
      by auto
    show ?thesis
    proof (cases "\<exists>k'\<in>S. x < k'")
      case True
      then have "x < k"
        using later(2) by simp
      then have "\<not> clockwise_succ S h k"
        using p by (auto simp: clockwise_succ_def)
      then show ?thesis
        using True False by auto
    next
      case none: False
      then have m: "\<forall>k'\<in>S. k \<le> k'" "\<forall>k'\<in>S. k' \<le> x"
        using later(2) by (auto simp: not_less)
      then have "clockwise_succ S h k \<longleftrightarrow> h \<le> k"
        using p later(1) by (auto simp: clockwise_succ_def)
      also have "\<dots> \<longleftrightarrow> S \<subseteq> {h..x}"
        using m later(1) by (auto intro: order_trans)
      finally show ?thesis
        using False by simp
    qed
  qed
qed

text \<open>
  C14. Where the Python client routes a 7-bit key: on a ring of 32-bit positions it always finds a
  site. Call the hash of the key, and for a negative hash also the position after it, the gap. The
  site is the clockwise successor of the hash, which the C++ code and the servers use, exactly if
  the hash is the smallest 32-bit number, or no site lies in the gap, or all sites lie in the gap.
\<close>

theorem python_routes:
  assumes "smap_ok (hashToServer v)" "hashToServer v \<noteq> []" "ascii key"
    and range: "\<forall>k\<in>fst ` set (hashToServer v). - (2 ^ 31) \<le> k \<and> k < 2 ^ 31"
  defines "S \<equiv> fst ` set (hashToServer v)" and "h \<equiv> ir_hash key"
    and "gap \<equiv> {ir_hash key .. (if ir_hash key < 0 then ir_hash key + 1 else ir_hash key)}"
  shows "\<exists>k. py_site key v = Inr k \<and>
    (clockwise_succ S h k \<longleftrightarrow> h = - (2 ^ 31) \<or> S \<inter> gap = {} \<or> S \<subseteq> gap)"
proof -
  obtain k where k: "py_site key v = Inr k" "clockwise_succ S (py_position key + 1) k"
    using py_site_succ [OF assms(1,2), of key] by (auto simp: S_def)
  have S: "finite S" "S \<noteq> {}"
    using assms(2) by (auto simp: S_def)
  show ?thesis
  proof (cases "h = - (2 ^ 31)")
    case True
    then have "py_position key = 2 ^ 31"
      using py_position_eq [OF assms(3)] by (simp add: h_def)
    moreover have "k' < 2 ^ 31 + 1" "h \<le> k'" if "k' \<in> S" for k'
      using that range True by (auto simp: S_def)
    ultimately have "k \<in> S" "\<forall>k'\<in>S. k \<le> k'" "\<forall>k'\<in>S. h \<le> k'"
      using k(2) unfolding clockwise_succ_def by (metis leD)+
    then have "clockwise_succ S h k"
      by (simp add: clockwise_succ_def)
    then show ?thesis
      using k(1) True by blast
  next
    case False
    then have p: "py_position key = (if h < 0 then h + 1 else h)"
      using py_position_eq [OF assms(3)] by (simp add: h_def)
    have "h \<le> py_position key" and g: "gap = {h..py_position key}"
      by (simp_all add: p gap_def h_def)
    then show ?thesis
      using k(1) False clockwise_succ_later [OF S k(2)] by (intro exI [of _ k]) simp
  qed
qed

theorem python_routes_witness:
  "\<exists>k. py_site ''k'' \<lparr>hashToServer = [(4, [Server ''a'' 1]), (1795205233, [Server ''b'' 2])]\<rparr> = Inr k \<and>
     \<not> clockwise_succ {4, 1795205233} (ir_hash ''k'') k"
proof -
  have h: "ir_hash ''k'' = 1795205233"
    by code_simp
  show ?thesis
    using python_routes [of "\<lparr>hashToServer = [(4, [Server ''a'' 1]), (1795205233, [Server ''b'' 2])]\<rparr>" "''k''"]
    unfolding h by simp
qed

end
