(* ===== verification/Thrift_Transport.thy ===== *)
theory Thrift_Transport
  imports Prelude
begin

text \<open>
  The buffered transports of the Thrift runtime (\<open>TBufferTransports.h\<close> and \<open>.cpp\<close>) that every
  connection of the prototype goes through: the fast paths of \<open>TBufferBase\<close>, \<open>TBufferedTransport\<close>,
  \<open>TFramedTransport\<close> and \<open>TMemoryBuffer\<close>. Pointers into a buffer are offsets from its start; the
  32-bit sizes are natural numbers, with the reduction modulo \<open>2 ^ 32\<close> written where the code's
  arithmetic can reach it. The wrapped transport is a stream whose reads return the bytes in chunks
  of any size, and whose writes may fail.
\<close>

section \<open>Bytes, errors and the wrapped transport\<close>

type_synonym byte = "8 word"
type_synonym bytes = "byte list"

datatype texn =
    END_OF_FILE
  | NEGATIVE_FRAME
  | BAD_ARGS
  | INSUFFICIENT_SPACE
  | WROTE_TOO_MUCH
  | IO_ERROR
  | BAD_ALLOC
  | OUT_OF_BUFFER
  | ASSERTION
  | USE_AFTER_FREE
  | UNCAUGHT
  | ENDLESS

type_synonym ('a, 's) tres = "(texn \<times> 's) + ('a \<times> 's)"

abbreviation U32 :: nat where "U32 \<equiv> 2 ^ 32"

record stream =
  rx :: "bytes list"
  tx :: bytes
  link_up :: bool
  flushes :: nat

definition s_read :: "nat \<Rightarrow> stream \<Rightarrow> (bytes, stream) tres" where
  "s_read n s = (case rx s of
       [] \<Rightarrow> Inr ([], s)
     | c # cs \<Rightarrow> if length c \<le> n then Inr (c, s\<lparr>rx := cs\<rparr>) else Inr (take n c, s\<lparr>rx := drop n c # cs\<rparr>))"

definition s_write :: "bytes \<Rightarrow> stream \<Rightarrow> (unit, stream) tres" where
  "s_write bs s = (if link_up s then Inr ((), s\<lparr>tx := tx s @ bs\<rparr>) else Inl (IO_ERROR, s))"

definition s_flush :: "stream \<Rightarrow> stream" where
  "s_flush s = s\<lparr>flushes := flushes s + 1\<rparr>"

text \<open>The \<open>readAll\<close> template of \<open>TTransport.h\<close>: read until \<open>len\<close> bytes are there.\<close>

function readAllLoop :: "(nat \<Rightarrow> 's \<Rightarrow> (bytes, 's) tres) \<Rightarrow> nat \<Rightarrow> bytes \<Rightarrow> 's \<Rightarrow> (bytes, 's) tres" where
  "readAllLoop rd len acc s =
     (if len = 0 then Inr (acc, s)
      else (case rd len s of
              Inl e \<Rightarrow> Inl e
            | Inr (got, s') \<Rightarrow>
                if got = [] then Inl (END_OF_FILE, s')
                else readAllLoop rd (len - length got) (acc @ got) s'))"
  by pat_completeness auto
termination
  by (relation "measure (\<lambda>(rd, len, acc, s). len)") (auto simp: length_greater_0_conv)

declare readAllLoop.simps [simp del]

definition readAll :: "(nat \<Rightarrow> 's \<Rightarrow> (bytes, 's) tres) \<Rightarrow> nat \<Rightarrow> 's \<Rightarrow> (bytes, 's) tres" where
  "readAll rd len s = readAllLoop rd len [] s"

section \<open>Buffer base\<close>

record tbuf =
  rBuf :: bytes
  rBase :: nat
  rBound :: nat
  wBuf :: bytes
  wBase :: nat
  wBound :: nat
  trans :: stream

text \<open>\<open>memcpy\<close> into a buffer, and the bytes between two offsets.\<close>

definition memcpy :: "nat \<Rightarrow> bytes \<Rightarrow> bytes \<Rightarrow> bytes" where
  "memcpy p xs buf = take p buf @ xs @ drop (p + length xs) buf"

definition bsub :: "nat \<Rightarrow> nat \<Rightarrow> bytes \<Rightarrow> bytes" where
  "bsub p n buf = take n (drop p buf)"

definition bb_read :: "(nat \<Rightarrow> tbuf \<Rightarrow> (bytes, tbuf) tres) \<Rightarrow> nat \<Rightarrow> tbuf \<Rightarrow> (bytes, tbuf) tres" where
  "bb_read readSlow len t =
     (if rBase t + len \<le> rBound t
      then Inr (bsub (rBase t) len (rBuf t), t\<lparr>rBase := rBase t + len\<rparr>)
      else readSlow len t)"

definition bb_readAll :: "(nat \<Rightarrow> tbuf \<Rightarrow> (bytes, tbuf) tres) \<Rightarrow> nat \<Rightarrow> tbuf \<Rightarrow> (bytes, tbuf) tres" where
  "bb_readAll readSlow len t =
     (if rBase t + len \<le> rBound t
      then Inr (bsub (rBase t) len (rBuf t), t\<lparr>rBase := rBase t + len\<rparr>)
      else readAll (bb_read readSlow) len t)"

definition bb_write :: "(bytes \<Rightarrow> tbuf \<Rightarrow> (unit, tbuf) tres) \<Rightarrow> bytes \<Rightarrow> tbuf \<Rightarrow> (unit, tbuf) tres" where
  "bb_write writeSlow bs t =
     (if wBase t + length bs \<le> wBound t
      then Inr ((), t\<lparr>wBuf := memcpy (wBase t) bs (wBuf t), wBase := wBase t + length bs\<rparr>)
      else writeSlow bs t)"

text \<open>\<open>borrow\<close> gives the buffered bytes if there are at least \<open>len\<close>, without consuming them.\<close>

definition bb_borrow :: "(nat \<Rightarrow> tbuf \<Rightarrow> bytes option \<times> tbuf) \<Rightarrow> nat \<Rightarrow> tbuf \<Rightarrow> bytes option \<times> tbuf" where
  "bb_borrow borrowSlow len t =
     (if len \<le> rBound t - rBase t then (Some (bsub (rBase t) (rBound t - rBase t) (rBuf t)), t)
      else borrowSlow len t)"

definition bb_consume :: "nat \<Rightarrow> tbuf \<Rightarrow> (unit, tbuf) tres" where
  "bb_consume len t =
     (if len \<le> rBound t - rBase t then Inr ((), t\<lparr>rBase := rBase t + len\<rparr>) else Inl (BAD_ARGS, t))"

definition setReadBuffer :: "nat \<Rightarrow> tbuf \<Rightarrow> tbuf" where
  "setReadBuffer len t = t\<lparr>rBase := 0, rBound := len\<rparr>"

definition setWriteBuffer :: "nat \<Rightarrow> tbuf \<Rightarrow> tbuf" where
  "setWriteBuffer len t = t\<lparr>wBase := 0, wBound := len\<rparr>"

section \<open>Buffered transport\<close>

definition buffered_init :: "nat \<Rightarrow> nat \<Rightarrow> stream \<Rightarrow> tbuf" where
  "buffered_init rsz wsz st =
     setWriteBuffer wsz (setReadBuffer 0
       \<lparr>rBuf = replicate rsz 0, rBase = 0, rBound = 0, wBuf = replicate wsz 0, wBase = 0, wBound = 0, trans = st\<rparr>)"

text \<open>\<open>setReadBuffer(rBuf_.get(), transport_->read(rBuf_.get(), rBufSize_))\<close>\<close>

definition bfill :: "tbuf \<Rightarrow> (unit, tbuf) tres" where
  "bfill t =
     (case s_read (length (rBuf t)) (trans t) of
        Inl (e, st) \<Rightarrow> Inl (e, t\<lparr>trans := st\<rparr>)
      | Inr (got, st) \<Rightarrow>
          Inr ((), setReadBuffer (length got) (t\<lparr>trans := st, rBuf := memcpy 0 got (rBuf t)\<rparr>)))"

definition bgive :: "nat \<Rightarrow> tbuf \<Rightarrow> (bytes, tbuf) tres" where
  "bgive len t =
     (let n = min len (rBound t - rBase t) in
      Inr (bsub (rBase t) n (rBuf t), t\<lparr>rBase := rBase t + n\<rparr>))"

definition buffered_readSlow :: "nat \<Rightarrow> tbuf \<Rightarrow> (bytes, tbuf) tres" where
  "buffered_readSlow len t =
     (let have = rBound t - rBase t in
      if \<not> have < len then Inl (ASSERTION, t)
      else if have > 0 then Inr (bsub (rBase t) have (rBuf t), setReadBuffer 0 t)
      else bindE (bfill t) (\<lambda>(_, t1). bgive len t1))"

text \<open>Write through to the wrapped transport.\<close>

definition bthrough :: "bytes \<Rightarrow> tbuf \<Rightarrow> (unit, tbuf) tres" where
  "bthrough bs t =
     (case s_write bs (trans t) of
        Inl (e, st) \<Rightarrow> Inl (e, t\<lparr>trans := st\<rparr>)
      | Inr (_, st) \<Rightarrow> Inr ((), t\<lparr>trans := st\<rparr>))"

definition buffered_writeSlow :: "bytes \<Rightarrow> tbuf \<Rightarrow> (unit, tbuf) tres" where
  "buffered_writeSlow bs t =
     (let have_bytes = wBase t; space = wBound t - wBase t; len = length bs in
      if \<not> space < len then Inl (ASSERTION, t)
      else if (have_bytes + len) mod U32 \<ge> (2 * length (wBuf t)) mod U32 \<or> have_bytes = 0
      then bindE (if have_bytes > 0 then bthrough (take have_bytes (wBuf t)) t else Inr ((), t)) (\<lambda>(_, t1).
           bindE (bthrough bs t1) (\<lambda>(_, t2). Inr ((), t2\<lparr>wBase := 0\<rparr>)))
      else (let t1 = t\<lparr>wBuf := memcpy (wBase t) (take space bs) (wBuf t)\<rparr>; rest = drop space bs in
            bindE (bthrough (wBuf t1) t1) (\<lambda>(_, t2).
            if \<not> length rest < length (wBuf t2) then Inl (ASSERTION, t2)
            else Inr ((), t2\<lparr>wBuf := memcpy 0 rest (wBuf t2), wBase := length rest\<rparr>))))"

definition buffered_borrowSlow :: "nat \<Rightarrow> tbuf \<Rightarrow> bytes option \<times> tbuf" where
  "buffered_borrowSlow len t = (None, t)"

definition buffered_flush :: "tbuf \<Rightarrow> (unit, tbuf) tres" where
  "buffered_flush t =
     (let have_bytes = wBase t in
      bindE (if have_bytes > 0
             then bthrough (take have_bytes (wBuf t)) (t\<lparr>wBase := 0\<rparr>) else Inr ((), t)) (\<lambda>(_, t1).
      Inr ((), t1\<lparr>trans := s_flush (trans t1)\<rparr>)))"

definition buffered_peek :: "tbuf \<Rightarrow> (bool, tbuf) tres" where
  "buffered_peek t =
     bindE (if rBase t = rBound t then bfill t else Inr ((), t)) (\<lambda>(_, t1).
     Inr (rBound t1 > rBase t1, t1))"

section \<open>Framed transport\<close>

text \<open>Network byte order of a 32-bit size.\<close>

definition be32 :: "nat \<Rightarrow> bytes" where
  "be32 n = [of_nat (n div 2 ^ 24), of_nat (n div 2 ^ 16), of_nat (n div 2 ^ 8), of_nat n]"

definition ofBe32 :: "bytes \<Rightarrow> nat" where
  "ofBe32 bs = foldl (\<lambda>n b. n * 256 + unat b) 0 bs"

text \<open>A 32-bit pattern read as \<open>int32_t\<close>.\<close>

definition toInt32 :: "nat \<Rightarrow> int" where
  "toInt32 n = (if n < 2 ^ 31 then int n else int n - 2 ^ 32)"

definition framed_init :: "nat \<Rightarrow> stream \<Rightarrow> tbuf" where
  "framed_init sz st =
     setWriteBuffer sz (setReadBuffer 0
       \<lparr>rBuf = [], rBase = 0, rBound = 0, wBuf = replicate sz 0, wBase = 0, wBound = 0, trans = st\<rparr>)"

text \<open>The loop that reads the four bytes of a frame size; \<open>None\<close> is the end of the stream before them.\<close>

function sizeLoop :: "bytes \<Rightarrow> stream \<Rightarrow> (bytes option, stream) tres" where
  "sizeLoop acc st =
     (if length acc \<ge> 4 then Inr (Some acc, st)
      else (case s_read (4 - length acc) st of
              Inl e \<Rightarrow> Inl e
            | Inr (got, st') \<Rightarrow>
                if got = [] then (if acc = [] then Inr (None, st') else Inl (END_OF_FILE, st'))
                else sizeLoop (acc @ got) st'))"
  by pat_completeness auto
termination
  by (relation "measure (\<lambda>(acc, st). 4 - length acc)") (auto, metis diff_less_mono2 length_greater_0_conv less_add_same_cancel1 not_le)

declare sizeLoop.simps [simp del]

definition framed_readFrame :: "tbuf \<Rightarrow> (bool, tbuf) tres" where
  "framed_readFrame t =
     (case sizeLoop [] (trans t) of
        Inl (e, st) \<Rightarrow> Inl (e, t\<lparr>trans := st\<rparr>)
      | Inr (None, st) \<Rightarrow> Inr (False, t\<lparr>trans := st\<rparr>)
      | Inr (Some szp, st) \<Rightarrow>
          (let sz = toInt32 (ofBe32 szp); t1 = t\<lparr>trans := st\<rparr> in
           if sz < 0 then Inl (NEGATIVE_FRAME, t1)
           else (let n = nat sz;
                     t2 = (if n > length (rBuf t1) then t1\<lparr>rBuf := replicate n 0\<rparr> else t1) in
                 (case readAll s_read n (trans t2) of
                    Inl (e, st') \<Rightarrow> Inl (e, t2\<lparr>trans := st'\<rparr>)
                  | Inr (body, st') \<Rightarrow>
                      Inr (True, setReadBuffer n (t2\<lparr>trans := st', rBuf := memcpy 0 body (rBuf t2)\<rparr>))))))"

definition framed_readSlow :: "nat \<Rightarrow> tbuf \<Rightarrow> (bytes, tbuf) tres" where
  "framed_readSlow len t =
     (let have = rBound t - rBase t in
      if \<not> have < len then Inl (ASSERTION, t)
      else if have > 0 then Inr (bsub (rBase t) have (rBuf t), setReadBuffer 0 t)
      else bindE (framed_readFrame t) (\<lambda>(ok, t1). if \<not> ok then Inr ([], t1) else bgive len t1))"

text \<open>Double the size until it is sufficient.\<close>

function growSize :: "nat \<Rightarrow> nat \<Rightarrow> nat" where
  "growSize new_size need =
     (if new_size < need then growSize (if new_size > 0 then new_size * 2 else 1) need else new_size)"
  by pat_completeness auto
termination
  by (relation "measure (\<lambda>(n, need). need - n)") auto

declare growSize.simps [simp del]

definition framed_writeSlow :: "bytes \<Rightarrow> tbuf \<Rightarrow> (unit, tbuf) tres" where
  "framed_writeSlow bs t =
     (let have = wBase t; len = length bs; total = (len + have) mod U32 in
      if total < have \<or> total > 0x7fffffff then Inl (BAD_ARGS, t)
      else (let new_size = growSize (length (wBuf t)) total;
                new_buf = memcpy 0 (take have (wBuf t)) (replicate new_size 0) in
            Inr ((), t\<lparr>wBuf := memcpy have bs new_buf, wBase := have + len, wBound := new_size\<rparr>)))"

definition framed_new :: "nat \<Rightarrow> stream \<Rightarrow> (unit, tbuf) tres" where
  "framed_new sz st = bb_write framed_writeSlow [0, 0, 0, 0] (framed_init sz st)"

definition framed_flush :: "tbuf \<Rightarrow> (unit, tbuf) tres" where
  "framed_flush t =
     (if \<not> length (wBuf t) > 4 then Inl (ASSERTION, t)
      else (let sz = wBase t - 4; t1 = t\<lparr>wBuf := memcpy 0 (be32 sz) (wBuf t)\<rparr> in
            bindE (if sz > 0 then bthrough (take (4 + sz) (wBuf t1)) (t1\<lparr>wBase := 4\<rparr>) else Inr ((), t1)) (\<lambda>(_, t2).
            Inr ((), t2\<lparr>trans := s_flush (trans t2)\<rparr>))))"

definition framed_writeEnd :: "tbuf \<Rightarrow> nat" where
  "framed_writeEnd t = wBase t"

definition framed_readEnd :: "tbuf \<Rightarrow> nat" where
  "framed_readEnd t = rBound t + 4"

definition framed_borrowSlow :: "nat \<Rightarrow> tbuf \<Rightarrow> bytes option \<times> tbuf" where
  "framed_borrowSlow len t = (None, t)"

definition framed_peek :: "tbuf \<Rightarrow> bool" where
  "framed_peek t = (rBase t < rBound t \<or> rx (trans t) \<noteq> [])"

section \<open>Memory buffer\<close>

record mbuf =
  buffer :: bytes
  mrBase :: nat
  mrBound :: nat
  mwBase :: nat
  mwBound :: nat
  owner :: bool

datatype MemoryPolicy = OBSERVE | COPY | TAKE_OWNERSHIP

definition initCommon :: "bytes \<Rightarrow> bool \<Rightarrow> nat \<Rightarrow> mbuf" where
  "initCommon buf own wPos =
     \<lparr>buffer = buf, mrBase = 0, mrBound = wPos, mwBase = wPos, mwBound = length buf, owner = own\<rparr>"

definition available_read :: "mbuf \<Rightarrow> nat" where
  "available_read m = mwBase m - mrBase m"

definition available_write :: "mbuf \<Rightarrow> nat" where
  "available_write m = mwBound m - mwBase m"

definition computeRead :: "nat \<Rightarrow> mbuf \<Rightarrow> bytes \<times> mbuf" where
  "computeRead len m =
     (let m1 = m\<lparr>mrBound := mwBase m\<rparr>; n = min len (available_read m1) in
      (bsub (mrBase m1) n (buffer m1), m1\<lparr>mrBase := mrBase m1 + n\<rparr>))"

definition mem_read :: "nat \<Rightarrow> mbuf \<Rightarrow> (bytes, mbuf) tres" where
  "mem_read len m =
     (if mrBase m + len \<le> mrBound m
      then Inr (bsub (mrBase m) len (buffer m), m\<lparr>mrBase := mrBase m + len\<rparr>)
      else Inr (computeRead len m))"

definition mem_readAll :: "nat \<Rightarrow> mbuf \<Rightarrow> (bytes, mbuf) tres" where
  "mem_readAll len m =
     (if mrBase m + len \<le> mrBound m
      then Inr (bsub (mrBase m) len (buffer m), m\<lparr>mrBase := mrBase m + len\<rparr>)
      else readAll mem_read len m)"

definition readAppendToString :: "bytes \<Rightarrow> nat \<Rightarrow> mbuf \<Rightarrow> bytes \<times> mbuf" where
  "readAppendToString str len m =
     (if buffer m = [] then (str, m) else (case computeRead len m of (bs, m1) \<Rightarrow> (str @ bs, m1)))"

text \<open>
  The doubling loop works on 32-bit sizes and can wrap around. After at most 32 steps the size is 0,
  and from there it goes through the powers of two and back to 0 in 33 steps: 66 steps without an end
  mean that there is none (\<open>growLoop_exact\<close>).
\<close>

fun growLoop :: "nat \<Rightarrow> nat \<Rightarrow> nat \<Rightarrow> nat \<Rightarrow> nat \<Rightarrow> nat \<Rightarrow> nat option" where
  "growLoop fuel len room old_size new_size avail =
     (if \<not> len > avail then Some new_size
      else (case fuel of
              0 \<Rightarrow> None
            | Suc n \<Rightarrow>
                (let new_size' = (if new_size > 0 then new_size * 2 mod U32 else 1) in
                 growLoop n len room old_size new_size' ((room + (new_size' + (U32 - old_size))) mod U32))))"

declare growLoop.simps [simp del]

text \<open>\<open>realloc\<close> to size 0 frees the buffer; like a failed allocation it gives no buffer back.\<close>

definition ensureCanWrite :: "nat \<Rightarrow> mbuf \<Rightarrow> (unit, mbuf) tres" where
  "ensureCanWrite len m =
     (let avail = available_write m; old_size = length (buffer m) in
      if len \<le> avail then Inr ((), m)
      else if \<not> owner m then Inl (INSUFFICIENT_SPACE, m)
      else (case growLoop 66 len avail old_size old_size avail of
              None \<Rightarrow> Inl (ENDLESS, m)
            | Some new_size \<Rightarrow>
                if new_size = 0 then Inl (BAD_ALLOC, m)
                else Inr ((), m\<lparr>buffer := take new_size (buffer m @ replicate (new_size - old_size) 0),
                                mwBound := new_size\<rparr>)))"

text \<open>A size that wrapped around can be too small for the bytes copied after it: a write outside the buffer.\<close>

definition mem_write :: "bytes \<Rightarrow> mbuf \<Rightarrow> (unit, mbuf) tres" where
  "mem_write bs m =
     (if mwBase m + length bs \<le> mwBound m
      then Inr ((), m\<lparr>buffer := memcpy (mwBase m) bs (buffer m), mwBase := mwBase m + length bs\<rparr>)
      else bindE (ensureCanWrite (length bs) m) (\<lambda>(_, m1).
           if mwBase m1 + length bs > length (buffer m1) then Inl (OUT_OF_BUFFER, m1)
           else Inr ((), m1\<lparr>buffer := memcpy (mwBase m1) bs (buffer m1), mwBase := mwBase m1 + length bs\<rparr>)))"

definition new_TMemoryBuffer :: "nat \<Rightarrow> mbuf" where
  "new_TMemoryBuffer sz = initCommon (replicate sz 0) True 0"

text \<open>A null pointer is \<open>None\<close>.\<close>

definition TMemoryBuffer_of :: "bytes option \<Rightarrow> nat \<Rightarrow> MemoryPolicy \<Rightarrow> texn + mbuf" where
  "TMemoryBuffer_of buf sz policy =
     (if buf = None \<and> sz \<noteq> 0 then Inl BAD_ARGS
      else (let bs = (case buf of None \<Rightarrow> [] | Some b \<Rightarrow> take sz b) in
            (case policy of
               OBSERVE \<Rightarrow> Inr (initCommon bs False sz)
             | TAKE_OWNERSHIP \<Rightarrow> Inr (initCommon bs True sz)
             | COPY \<Rightarrow> (case mem_write bs (initCommon (replicate sz 0) True 0) of
                           Inl (e, _) \<Rightarrow> Inl e
                         | Inr (_, m) \<Rightarrow> Inr m))))"

definition wroteBytes :: "nat \<Rightarrow> mbuf \<Rightarrow> (unit, mbuf) tres" where
  "wroteBytes len m =
     (if len > available_write m then Inl (WROTE_TOO_MUCH, m)
      else Inr ((), m\<lparr>mwBase := mwBase m + len\<rparr>))"

definition mem_borrow :: "nat \<Rightarrow> mbuf \<Rightarrow> bytes option \<times> mbuf" where
  "mem_borrow len m =
     (if len \<le> mrBound m - mrBase m then (Some (bsub (mrBase m) (mrBound m - mrBase m) (buffer m)), m)
      else (let m1 = m\<lparr>mrBound := mwBase m\<rparr> in
            if available_read m1 \<ge> len
            then (Some (bsub (mrBase m1) (available_read m1) (buffer m1)), m1) else (None, m1)))"

definition mem_consume :: "nat \<Rightarrow> mbuf \<Rightarrow> (unit, mbuf) tres" where
  "mem_consume len m =
     (if len \<le> mrBound m - mrBase m then Inr ((), m\<lparr>mrBase := mrBase m + len\<rparr>) else Inl (BAD_ARGS, m))"

definition getBuffer :: "mbuf \<Rightarrow> bytes" where
  "getBuffer m = bsub (mrBase m) (mwBase m - mrBase m) (buffer m)"

definition getBufferAsString :: "mbuf \<Rightarrow> bytes" where
  "getBufferAsString m = (if buffer m = [] then [] else getBuffer m)"

definition appendBufferToString :: "bytes \<Rightarrow> mbuf \<Rightarrow> bytes" where
  "appendBufferToString str m = (if buffer m = [] then str else str @ getBuffer m)"

definition getWritePtr :: "nat \<Rightarrow> mbuf \<Rightarrow> (nat, mbuf) tres" where
  "getWritePtr len m = bindE (ensureCanWrite len m) (\<lambda>(_, m1). Inr (mwBase m1, m1))"

definition readAsString :: "nat \<Rightarrow> mbuf \<Rightarrow> bytes \<times> mbuf" where
  "readAsString len m = readAppendToString [] len m"

definition resetBuffer :: "mbuf \<Rightarrow> mbuf" where
  "resetBuffer m =
     (let m1 = m\<lparr>mrBase := 0, mrBound := 0, mwBase := 0\<rparr> in
      if owner m then m1 else m1\<lparr>mwBound := 0, buffer := []\<rparr>)"

text \<open>The other two forms build a new buffer and swap it in.\<close>

definition resetBuffer_with :: "bytes option \<Rightarrow> nat \<Rightarrow> MemoryPolicy \<Rightarrow> mbuf \<Rightarrow> (unit, mbuf) tres" where
  "resetBuffer_with buf sz policy m =
     (case TMemoryBuffer_of buf sz policy of Inl e \<Rightarrow> Inl (e, m) | Inr m1 \<Rightarrow> Inr ((), m1))"

definition resetBuffer_size :: "nat \<Rightarrow> mbuf \<Rightarrow> mbuf" where
  "resetBuffer_size sz m = new_TMemoryBuffer sz"

definition mem_readEnd :: "mbuf \<Rightarrow> nat \<times> mbuf" where
  "mem_readEnd m = (mrBase m, if mrBase m = mwBase m then resetBuffer m else m)"

definition mem_writeEnd :: "mbuf \<Rightarrow> nat" where
  "mem_writeEnd m = mwBase m"

definition mem_peek :: "mbuf \<Rightarrow> bool" where
  "mem_peek m = (mrBase m < mwBase m)"

text \<open>Closing a buffered or a framed transport flushes it and closes the wrapped transport.\<close>

definition buffered_close :: "tbuf \<Rightarrow> (unit, tbuf) tres" where
  "buffered_close t = bindE (buffered_flush t) (\<lambda>(_, t1). Inr ((), t1\<lparr>trans := (trans t1)\<lparr>link_up := False\<rparr>\<rparr>))"

definition framed_close :: "tbuf \<Rightarrow> (unit, tbuf) tres" where
  "framed_close t = bindE (framed_flush t) (\<lambda>(_, t1). Inr ((), t1\<lparr>trans := (trans t1)\<lparr>link_up := False\<rparr>\<rparr>))"

end
