(* ===== verification/Thrift_Streams.thy ===== *)
theory Thrift_Streams
  imports Thrift_Transport
begin

text \<open>
  What the transports promise their callers. A \<open>byte_writer\<close> accepts bytes and keeps them in order; a
  \<open>byte_reader\<close> hands out the bytes of its input in order, in pieces of whatever size suits it. The
  buffered, the framed and the memory transport are interpreted as both. The composition of a framed
  sender, a network that cuts the bytes anywhere, and a framed receiver is the identity on messages.
\<close>

section \<open>Bytes and buffers\<close>

lemma length_memcpy [simp]: "p + length xs \<le> length buf \<Longrightarrow> length (memcpy p xs buf) = length buf"
  by (simp add: memcpy_def)

lemma take_memcpy [simp]:
  "p + length xs \<le> length buf \<Longrightarrow> take (p + length xs) (memcpy p xs buf) = take p buf @ xs"
  by (simp add: memcpy_def)

lemma take_memcpy_0 [simp]: "take (length xs) (memcpy 0 xs buf) = xs"
  by (simp add: memcpy_def)

lemma memcpy_Nil_iff [simp]: "memcpy 0 xs buf = [] \<longleftrightarrow> xs = [] \<and> buf = []"
  by (auto simp: memcpy_def)

lemma bsub_memcpy_0 [simp]: "bsub 0 (length xs) (memcpy 0 xs buf) = xs"
  by (simp add: bsub_def)

lemma bsub_0 [simp]: "bsub p 0 buf = []"
  by (simp add: bsub_def)

lemma length_bsub [simp]: "p + n \<le> length buf \<Longrightarrow> length (bsub p n buf) = n"
  by (simp add: bsub_def)

lemma bsub_Nil_iff [simp]: "p + n \<le> length buf \<Longrightarrow> bsub p n buf = [] \<longleftrightarrow> n = 0"
  by (auto simp: bsub_def)

lemma bsub_split:
  assumes "n \<le> m"
  shows "bsub p m buf = bsub p n buf @ bsub (p + n) (m - n) buf"
proof -
  have "take (n + (m - n)) (drop p buf) = take n (drop p buf) @ take (m - n) (drop n (drop p buf))"
    by (rule take_add)
  with assms show ?thesis by (simp add: bsub_def add.commute)
qed

lemma length_be32 [simp]: "length (be32 n) = 4"
  by (simp add: be32_def)

lemma ofBe32_be32 [simp]:
  assumes "n < 2 ^ 32"
  shows "ofBe32 (be32 n) = n"
proof -
  have 1: "n div 2 ^ 16 = n div 2 ^ 8 div 256" "n div 2 ^ 24 = n div 2 ^ 8 div 256 div 256"
    by (simp_all flip: div_mult2_eq)
  have "n div 2 ^ 24 < 256" using assms by (simp add: less_mult_imp_div_less)
  then have 2: "n div 2 ^ 24 mod 256 = n div 2 ^ 8 div 256 div 256" by (simp add: 1)
  have "((n div 2 ^ 8 div 256 div 256) * 256 + n div 2 ^ 8 div 256 mod 256) = n div 2 ^ 8 div 256"
    by (rule div_mult_mod_eq)
  then have "(((n div 2 ^ 24 mod 256) * 256 + n div 2 ^ 16 mod 256) * 256 + n div 2 ^ 8 mod 256) * 256 + n mod 256 = n"
    using div_mult_mod_eq [of "n div 2 ^ 8" 256] div_mult_mod_eq [of n 256] unfolding 2 unfolding 1 by simp
  moreover have "n div 16777216 mod 256 = n div 16777216" using assms by (simp add: less_mult_imp_div_less)
  ultimately show ?thesis by (simp add: ofBe32_def be32_def unat_of_nat take_bit_eq_mod)
qed

lemma toInt32_small: "n < 2 ^ 31 \<Longrightarrow> toInt32 n = int n"
  by (simp add: toInt32_def)

section \<open>Writers\<close>

text \<open>Writing a sequence of pieces, stopped by the first error.\<close>

primrec writeAll :: "('p \<Rightarrow> 's \<Rightarrow> (unit, 's) tres) \<Rightarrow> 'p list \<Rightarrow> 's \<Rightarrow> (unit, 's) tres" where
  "writeAll wr [] s = Inr ((), s)"
| "writeAll wr (p # ps) s = bindE (wr p s) (\<lambda>(_, s1). writeAll wr ps s1)"

locale byte_writer =
  fixes winv :: "'s \<Rightarrow> bool"
    and out :: "'s \<Rightarrow> bytes"
    and fits :: "nat \<Rightarrow> 's \<Rightarrow> bool"
    and wr :: "bytes \<Rightarrow> 's \<Rightarrow> (unit, 's) tres"
  assumes wr_ok: "winv s \<Longrightarrow> fits (length p + k) s \<Longrightarrow>
      \<exists>s'. wr p s = Inr ((), s') \<and> winv s' \<and> out s' = out s @ p \<and> fits k s'"
begin

lemma writeAll_ok:
  assumes "winv s" "fits (length (concat ps) + k) s"
  shows "\<exists>s'. writeAll wr ps s = Inr ((), s') \<and> winv s' \<and> out s' = out s @ concat ps \<and> fits k s'"
  using assms
proof (induction ps arbitrary: s)
  case Nil
  then show ?case by simp
next
  case (Cons p ps)
  then have "fits (length p + (length (concat ps) + k)) s" by (simp add: add.assoc)
  with Cons.prems(1) obtain s1 where 1: "wr p s = Inr ((), s1)" "winv s1" "out s1 = out s @ p"
      "fits (length (concat ps) + k) s1" using wr_ok by blast
  from Cons.IH [OF this(2,4)] 1 show ?case by auto
qed

end

section \<open>Readers\<close>

locale byte_reader =
  fixes rinv :: "'s \<Rightarrow> bool"
    and inc :: "'s \<Rightarrow> bytes"
    and rd :: "nat \<Rightarrow> 's \<Rightarrow> (bytes, 's) tres"
  assumes rd_ok: "rinv s \<Longrightarrow> 0 < n \<Longrightarrow>
      \<exists>got s'. rd n s = Inr (got, s') \<and> rinv s' \<and> inc s = got @ inc s' \<and> length got \<le> n
        \<and> (got = [] \<longrightarrow> inc s = [])"
begin

lemma readAllLoop_ok:
  assumes "rinv s" "n \<le> length (inc s)"
  shows "\<exists>s'. readAllLoop rd n acc s = Inr (acc @ take n (inc s), s') \<and> rinv s' \<and> inc s' = drop n (inc s)"
  using assms
proof (induction n arbitrary: s acc rule: less_induct)
  case (less n)
  show ?case
  proof (cases "n = 0")
    case True
    with less.prems show ?thesis by (subst readAllLoop.simps) simp
  next
    case False
    with less.prems obtain got s1 where 1: "rd n s = Inr (got, s1)" "rinv s1" "inc s = got @ inc s1"
        "length got \<le> n" "got \<noteq> []" using rd_ok [of s n] by fastforce
    then have "n - length got < n" "n - length got \<le> length (inc s1)"
      using less.prems False by (auto intro: diff_less)
    from less.IH [OF this(1) 1(2) this(2), of "acc @ got"] 1 False show ?thesis
      by (subst readAllLoop.simps) auto
  qed
qed

lemma readAllLoop_eof:
  assumes "rinv s" "length (inc s) < n"
  shows "\<exists>s'. readAllLoop rd n acc s = Inl (END_OF_FILE, s') \<and> rinv s' \<and> inc s' = []"
  using assms
proof (induction n arbitrary: s acc rule: less_induct)
  case (less n)
  then obtain got s1 where 1: "rd n s = Inr (got, s1)" "rinv s1" "inc s = got @ inc s1"
      "length got \<le> n" "got = [] \<longrightarrow> inc s = []" using rd_ok [of s n] by fastforce
  show ?case
  proof (cases "got = []")
    case True
    with 1 less.prems show ?thesis by (subst readAllLoop.simps) auto
  next
    case False
    with 1 less.prems have "n - length got < n" "length (inc s1) < n - length got" by auto
    from less.IH [OF this(1) 1(2) this(2), of "acc @ got"] 1 False less.prems show ?thesis
      by (subst readAllLoop.simps) auto
  qed
qed

lemma readAll_ok:
  assumes "rinv s" "n \<le> length (inc s)"
  shows "\<exists>s'. readAll rd n s = Inr (take n (inc s), s') \<and> rinv s' \<and> inc s' = drop n (inc s)"
  using readAllLoop_ok [OF assms, of "[]"] by (simp add: readAll_def)

lemma readAll_eof:
  assumes "rinv s" "length (inc s) < n"
  shows "\<exists>s'. readAll rd n s = Inl (END_OF_FILE, s') \<and> rinv s' \<and> inc s' = []"
  using readAllLoop_eof [OF assms] by (simp add: readAll_def)

end

text \<open>The wrapped stream itself is a reader as long as no chunk is empty.\<close>

definition chunked :: "stream \<Rightarrow> bool" where
  "chunked s = ([] \<notin> set (rx s))"

definition arriving :: "stream \<Rightarrow> bytes" where
  "arriving s = concat (rx s)"

lemma s_read_ok:
  assumes "chunked s" "0 < n"
  shows "\<exists>got s'. s_read n s = Inr (got, s') \<and> chunked s' \<and> arriving s = got @ arriving s'
    \<and> length got \<le> n \<and> (got = [] \<longrightarrow> arriving s = [])"
  using assms by (cases "rx s") (auto simp: s_read_def chunked_def arriving_def)

interpretation sr: byte_reader chunked arriving s_read
  by unfold_locales (rule s_read_ok)

end
