(* ===== verification/Thrift_Buffers.thy ===== *)
theory Thrift_Buffers
  imports Thrift_Streams
begin

text \<open>
  The three transports as writers and readers: invariants of their buffers, the interpretations of
  \<open>byte_writer\<close> and \<open>byte_reader\<close>, and the properties that follow.
\<close>

section \<open>Buffered transport\<close>

definition bw_inv :: "tbuf \<Rightarrow> bool" where
  "bw_inv t = (link_up (trans t) \<and> wBound t = length (wBuf t) \<and> wBase t \<le> length (wBuf t)
     \<and> length (wBuf t) < 2 ^ 31)"

definition bw_out :: "tbuf \<Rightarrow> bytes" where
  "bw_out t = tx (trans t) @ take (wBase t) (wBuf t)"

definition bw_fits :: "nat \<Rightarrow> tbuf \<Rightarrow> bool" where
  "bw_fits n t = (n + length (wBuf t) < U32)"

lemmas bw_defs = bw_inv_def bw_out_def bw_fits_def

lemma bthrough_up: "link_up (trans t) \<Longrightarrow>
    bthrough bs t = Inr ((), t\<lparr>trans := (trans t)\<lparr>tx := tx (trans t) @ bs\<rparr>\<rparr>)"
  by (simp add: bthrough_def s_write_def)

lemma buffered_write_fast:
  assumes "bw_inv t" "wBase t + length p \<le> wBound t"
  shows "\<exists>t'. bb_write buffered_writeSlow p t = Inr ((), t') \<and> bw_inv t' \<and> bw_out t' = bw_out t @ p
    \<and> length (wBuf t') = length (wBuf t)"
  using assms by (simp add: bb_write_def bw_defs)

lemma buffered_write_slow:
  assumes "bw_inv t" "wBound t < wBase t + length p" "length p + length (wBuf t) < U32"
  shows "\<exists>t'. bb_write buffered_writeSlow p t = Inr ((), t') \<and> bw_inv t' \<and> bw_out t' = bw_out t @ p
    \<and> length (wBuf t') = length (wBuf t)"
proof -
  from assms have m: "(wBase t + length p) mod U32 = wBase t + length p" "2 * length (wBuf t) mod U32 = 2 * length (wBuf t)"
    and up: "link_up (trans t)" by (simp_all add: bw_defs)
  consider "2 * length (wBuf t) \<le> wBase t + length p \<or> wBase t = 0"
    | "wBase t + length p < 2 * length (wBuf t)" "wBase t \<noteq> 0" by linarith
  then show ?thesis
  proof cases
    case 1
    with assms m up show ?thesis by (auto simp: bb_write_def buffered_writeSlow_def bw_defs bthrough_up Let_def)
  next
    case 2
    let ?sp = "length (wBuf t) - wBase t"
    define rest full where "rest = drop ?sp p" and "full = take (wBase t) (wBuf t) @ take ?sp p"
    from assms have b: "wBound t = length (wBuf t)" "wBase t \<le> length (wBuf t)" "length (wBuf t) < 2 ^ 31"
      by (simp_all add: bw_defs)
    with 2 assms(2) have l: "length full = length (wBuf t)" "length rest < length (wBuf t)" "?sp < length p"
        "\<not> wBase t + length p \<le> length (wBuf t)" "full @ rest = take (wBase t) (wBuf t) @ p"
      by (auto simp: rest_def full_def)
    have "memcpy (wBase t) (take ?sp p) (wBuf t) = full"
      using b l by (simp add: memcpy_def full_def)
    with 2 m up b l have "bb_write buffered_writeSlow p t = Inr ((), t\<lparr>wBuf := memcpy 0 rest full,
        wBase := length rest, trans := (trans t)\<lparr>tx := tx (trans t) @ full\<rparr>\<rparr>)"
      by (simp add: bb_write_def buffered_writeSlow_def bthrough_up Let_def flip: rest_def)
    with l b up show ?thesis by (simp add: bw_defs)
  qed
qed

interpretation bw: byte_writer bw_inv bw_out bw_fits "bb_write buffered_writeSlow"
proof
  fix t and p :: bytes and k
  assume 1: "bw_inv t" "bw_fits (length p + k) t"
  then have "length p + length (wBuf t) < U32" by (simp add: bw_defs)
  with 1 obtain t' where "bb_write buffered_writeSlow p t = Inr ((), t')" "bw_inv t'"
      "bw_out t' = bw_out t @ p" "length (wBuf t') = length (wBuf t)"
    using buffered_write_fast [of t p] buffered_write_slow [of t p] by (meson not_le)
  with 1 show "\<exists>t'. bb_write buffered_writeSlow p t = Inr ((), t') \<and> bw_inv t' \<and> bw_out t' = bw_out t @ p \<and> bw_fits k t'"
    by (auto simp: bw_fits_def)
qed

lemma buffered_flush_ok:
  assumes "bw_inv t"
  shows "\<exists>t'. buffered_flush t = Inr ((), t') \<and> tx (trans t') = bw_out t \<and> bw_inv t' \<and> wBase t' = 0
    \<and> flushes (trans t') = flushes (trans t) + 1"
  using assms by (cases "wBase t = 0") (simp_all add: buffered_flush_def bw_defs bthrough_up s_flush_def Let_def)

text \<open>
  A buffered sender delivers: whatever the size of its buffer and however the bytes are cut into
  writes, every write and the final flush succeed and the wrapped transport has received exactly the
  bytes written, in order. Every write is short enough for its 32-bit length not to wrap around.
\<close>

theorem buffered_delivers:
  assumes "link_up st" "wsz < 2 ^ 31" "length (concat ps) + wsz < 2 ^ 32"
  shows "\<exists>t t'. writeAll (bb_write buffered_writeSlow) ps (buffered_init rsz wsz st) = Inr ((), t)
    \<and> buffered_flush t = Inr ((), t') \<and> tx (trans t') = tx st @ concat ps \<and> wBase t' = 0"
proof -
  let ?t = "buffered_init rsz wsz st"
  have "bw_inv ?t" "bw_fits (length (concat ps) + 0) ?t" "bw_out ?t = tx st"
    using assms by (simp_all add: buffered_init_def setReadBuffer_def setWriteBuffer_def bw_defs)
  from bw.writeAll_ok [OF this(1,2)] this(3) obtain t where
    "writeAll (bb_write buffered_writeSlow) ps ?t = Inr ((), t)" "bw_inv t" "bw_out t = tx st @ concat ps" by auto
  with buffered_flush_ok [of t] show ?thesis by auto
qed

theorem buffered_delivers_witness:
  "\<exists>t t'. writeAll (bb_write buffered_writeSlow) [[1, 2], [3, 4, 5], [6]]
        (buffered_init 4 4 \<lparr>rx = [], tx = [], link_up = True, flushes = 0\<rparr>) = Inr ((), t)
    \<and> buffered_flush t = Inr ((), t') \<and> tx (trans t') = [1, 2, 3, 4, 5, 6] \<and> wBase t' = 0"
  using buffered_delivers [of "\<lparr>rx = [], tx = [], link_up = True, flushes = 0\<rparr>" 4 "[[1, 2], [3, 4, 5], [6]]" 4]
  by (simp del: writeAll.simps)

definition br_inv :: "tbuf \<Rightarrow> bool" where
  "br_inv t = (chunked (trans t) \<and> rBase t \<le> rBound t \<and> rBound t \<le> length (rBuf t) \<and> 0 < length (rBuf t))"

definition br_inc :: "tbuf \<Rightarrow> bytes" where
  "br_inc t = bsub (rBase t) (rBound t - rBase t) (rBuf t) @ arriving (trans t)"

text \<open>What a reader does with the bytes it has buffered, whatever comes after them.\<close>

lemma bb_read_buffered:
  assumes "rBase t \<le> rBound t" "rBound t \<le> length (rBuf t)" "rBase t + n \<le> rBound t"
  shows "bb_read slow n t = Inr (bsub (rBase t) n (rBuf t), t\<lparr>rBase := rBase t + n\<rparr>)"
    and "bsub (rBase t) (rBound t - rBase t) (rBuf t)
       = bsub (rBase t) n (rBuf t) @ bsub (rBase t + n) (rBound t - (rBase t + n)) (rBuf t)"
    and "length (bsub (rBase t) n (rBuf t)) = n"
  using assms bsub_split [of n "rBound t - rBase t" "rBase t" "rBuf t"] by (simp_all add: bb_read_def)

lemma bfill_ok:
  assumes "br_inv t" "rBase t = rBound t"
  shows "\<exists>t'. bfill t = Inr ((), t') \<and> br_inv t' \<and> br_inc t' = br_inc t \<and> rBase t' = 0
    \<and> (rBound t' = 0 \<longrightarrow> br_inc t = [])"
proof -
  from assms obtain got st where "s_read (length (rBuf t)) (trans t) = Inr (got, st)" "chunked st"
      "arriving (trans t) = got @ arriving st" "length got \<le> length (rBuf t)"
      "got = [] \<longrightarrow> arriving (trans t) = []"
    using s_read_ok [of "trans t" "length (rBuf t)"] by (auto simp: br_inv_def)
  with assms show ?thesis by (simp add: bfill_def setReadBuffer_def br_inv_def br_inc_def)
qed

lemma bgive_ok:
  assumes "br_inv t" "rBase t = 0" "0 < n"
  shows "\<exists>got t'. bgive n t = Inr (got, t') \<and> br_inv t' \<and> br_inc t = got @ br_inc t' \<and> length got \<le> n
    \<and> (got = [] \<longrightarrow> rBound t = 0)"
  using assms bsub_split [of "min n (rBound t)" "rBound t" 0 "rBuf t"]
  by (auto simp: bgive_def br_inv_def br_inc_def Let_def bsub_def)

lemma buffered_read_ok:
  assumes "br_inv t" "0 < n"
  shows "\<exists>got t'. bb_read buffered_readSlow n t = Inr (got, t') \<and> br_inv t' \<and> br_inc t = got @ br_inc t'
    \<and> length got \<le> n \<and> (got = [] \<longrightarrow> br_inc t = [])"
proof -
  consider "rBase t + n \<le> rBound t" | "rBase t < rBound t" "rBound t < rBase t + n" | "rBase t = rBound t"
    using assms by (fastforce simp: br_inv_def)
  then show ?thesis
  proof cases
    case 1
    with assms bb_read_buffered(1) [of t n buffered_readSlow] bb_read_buffered(2,3) [of t n] show ?thesis
      by (auto simp: br_inv_def br_inc_def)
  next
    case 2
    with assms show ?thesis
      by (auto simp: bb_read_def buffered_readSlow_def setReadBuffer_def br_inv_def br_inc_def Let_def)
  next
    case 3
    with bfill_ok [OF assms(1)] obtain t1 where t1: "bfill t = Inr ((), t1)" "br_inv t1" "br_inc t1 = br_inc t"
        "rBase t1 = 0" "rBound t1 = 0 \<longrightarrow> br_inc t = []" by auto
    with bgive_ok [of t1 n] assms 3 show ?thesis
      by (auto simp: bb_read_def buffered_readSlow_def Let_def)
  qed
qed

interpretation br: byte_reader br_inv br_inc "bb_read buffered_readSlow"
  by unfold_locales (rule buffered_read_ok)

section \<open>Framed transport, sending\<close>

definition fw_inv :: "tbuf \<Rightarrow> bool" where
  "fw_inv t = (link_up (trans t) \<and> wBound t = length (wBuf t) \<and> 4 \<le> wBase t \<and> wBase t \<le> length (wBuf t))"

definition fw_out :: "tbuf \<Rightarrow> bytes" where
  "fw_out t = drop 4 (take (wBase t) (wBuf t))"

definition fw_fits :: "nat \<Rightarrow> tbuf \<Rightarrow> bool" where
  "fw_fits n t = (wBase t + n \<le> 0x7fffffff)"

lemmas fw_defs = fw_inv_def fw_out_def fw_fits_def

lemma growSize_ge: "need \<le> growSize n need \<and> n \<le> growSize n need"
proof (induction n need rule: growSize.induct)
  case (1 n need)
  show ?case
  proof (cases "n < need")
    case True
    from 1 [OF this] have "need \<le> growSize (if n > 0 then n * 2 else 1) need"
        "(if n > 0 then n * 2 else 1) \<le> growSize (if n > 0 then n * 2 else 1) need" by blast+
    with True show ?thesis by (subst (1 2) growSize.simps) (auto split: if_splits)
  qed (simp add: growSize.simps)
qed

text \<open>The doubling never leaves 32 bits: the guard before it keeps what is needed below \<open>2 ^ 31\<close>.\<close>

lemma growSize_bound: "need \<le> 0x7fffffff \<Longrightarrow> n < U32 \<Longrightarrow> growSize n need < U32"
proof (induction n need rule: growSize.induct)
  case (1 n need)
  then show ?case by (subst growSize.simps) auto
qed

lemma framed_write_ok:
  assumes "fw_inv t" "fw_fits (length p + k) t"
  shows "\<exists>t'. bb_write framed_writeSlow p t = Inr ((), t') \<and> fw_inv t' \<and> fw_out t' = fw_out t @ p
    \<and> fw_fits k t' \<and> trans t' = trans t"
proof (cases "wBase t + length p \<le> wBound t")
  case True
  with assms show ?thesis by (simp add: bb_write_def fw_defs)
next
  case False
  define n buf where "n = growSize (length (wBuf t)) (length p + wBase t)"
    and "buf = memcpy 0 (take (wBase t) (wBuf t)) (replicate n 0)"
  have n: "wBase t + length p \<le> n" using growSize_ge [of "length p + wBase t"] by (simp add: n_def add.commute)
  with assms have b: "length buf = n" "take (wBase t) buf = take (wBase t) (wBuf t)"
    by (simp_all add: buf_def fw_defs memcpy_def)
  from False assms have "bb_write framed_writeSlow p t = Inr ((), t\<lparr>wBuf := memcpy (wBase t) p buf,
      wBase := wBase t + length p, wBound := n\<rparr>)"
    by (simp add: bb_write_def framed_writeSlow_def Let_def fw_defs flip: n_def buf_def)
  with n b assms show ?thesis by (simp add: fw_defs)
qed

interpretation fw: byte_writer fw_inv fw_out fw_fits "bb_write framed_writeSlow"
  by unfold_locales (use framed_write_ok in blast)

text \<open>Writing never touches the wrapped transport before the flush.\<close>

lemma framed_writeAll_trans:
  assumes "fw_inv t" "fw_fits (length (concat ps) + k) t" "writeAll (bb_write framed_writeSlow) ps t = Inr ((), t')"
  shows "trans t' = trans t"
  using assms
proof (induction ps arbitrary: t)
  case (Cons p ps)
  then have "fw_fits (length p + (length (concat ps) + k)) t" by (simp add: add.assoc)
  with Cons.prems(1) obtain t1 where "bb_write framed_writeSlow p t = Inr ((), t1)" "fw_inv t1"
      "fw_fits (length (concat ps) + k) t1" "trans t1 = trans t" using framed_write_ok by blast
  with Cons.IH [of t1] Cons.prems(3) show ?case by simp
qed simp

definition frame :: "bytes \<Rightarrow> bytes" where
  "frame body = be32 (length body) @ body"

lemma framed_flush_ok:
  assumes "fw_inv t" "fw_out t \<noteq> []"
  shows "\<exists>t'. framed_flush t = Inr ((), t') \<and> fw_inv t' \<and> fw_out t' = [] \<and> wBase t' = 4
    \<and> tx (trans t') = tx (trans t) @ frame (fw_out t)"
proof -
  let ?sz = "wBase t - 4"
  from assms have b: "4 < wBase t" "wBase t \<le> length (wBuf t)" "link_up (trans t)" by (auto simp: fw_defs)
  then have "take (wBase t) (memcpy 0 (be32 ?sz) (wBuf t)) = be32 ?sz @ fw_out t"
    by (simp add: memcpy_def fw_out_def drop_take)
  moreover have "length (fw_out t) = ?sz" using b by (simp add: fw_out_def)
  ultimately show ?thesis using assms b
    by (simp add: framed_flush_def bthrough_up Let_def s_flush_def fw_defs frame_def)
qed

definition framed_send :: "bytes list \<Rightarrow> tbuf \<Rightarrow> (unit, tbuf) tres" where
  "framed_send ps t = bindE (writeAll (bb_write framed_writeSlow) ps t) (\<lambda>(_, t1). framed_flush t1)"

text \<open>A message is what is written between two flushes.\<close>

definition sendable :: "bytes list \<Rightarrow> bool" where
  "sendable ps = (concat ps \<noteq> [] \<and> length (concat ps) + 4 \<le> 0x7fffffff)"

lemma framed_send_ok:
  assumes "fw_inv t" "wBase t = 4" "sendable ps"
  shows "\<exists>t'. framed_send ps t = Inr ((), t') \<and> fw_inv t' \<and> wBase t' = 4
    \<and> tx (trans t') = tx (trans t) @ frame (concat ps)"
proof -
  from assms have f: "fw_fits (length (concat ps) + 0) t" and o: "fw_out t = []"
    by (simp_all add: fw_defs sendable_def)
  from fw.writeAll_ok [OF assms(1) f] o obtain t1 where
    t1: "writeAll (bb_write framed_writeSlow) ps t = Inr ((), t1)" "fw_inv t1" "fw_out t1 = concat ps" by auto
  with framed_writeAll_trans [OF assms(1) f] have "trans t1 = trans t" by blast
  with framed_flush_ok [OF t1(2)] t1 assms(3) show ?thesis by (auto simp: framed_send_def sendable_def)
qed

lemma framed_send_all:
  assumes "fw_inv t" "wBase t = 4" "\<forall>ps \<in> set ms. sendable ps"
  shows "\<exists>t'. writeAll framed_send ms t = Inr ((), t') \<and> fw_inv t' \<and> wBase t' = 4
    \<and> tx (trans t') = tx (trans t) @ concat (map (frame \<circ> concat) ms)"
  using assms
proof (induction ms arbitrary: t)
  case (Cons ps ms)
  then obtain t1 where "framed_send ps t = Inr ((), t1)" "fw_inv t1" "wBase t1 = 4"
      "tx (trans t1) = tx (trans t) @ frame (concat ps)" using framed_send_ok by fastforce
  with Cons.IH [of t1] Cons.prems show ?case by auto
qed simp

lemma framed_new_ok:
  assumes "link_up st" "sz < 2 ^ 31"
  shows "\<exists>t. framed_new sz st = Inr ((), t) \<and> fw_inv t \<and> wBase t = 4 \<and> trans t = st"
proof (cases "4 \<le> sz")
  case True
  with assms show ?thesis
    by (simp add: framed_new_def framed_init_def bb_write_def setWriteBuffer_def setReadBuffer_def fw_inv_def)
next
  case False
  have "4 \<le> growSize sz 4" using growSize_ge [of 4] by simp
  with False assms show ?thesis
    by (simp add: framed_new_def framed_init_def bb_write_def setWriteBuffer_def setReadBuffer_def fw_inv_def
        framed_writeSlow_def Let_def)
qed

end
