(* ===== verification/Thrift_Framing.thy ===== *)
theory Thrift_Framing
  imports Thrift_Buffers
begin

text \<open>
  The receiving side of \<open>TFramedTransport\<close>, and the composition of the two sides: messages written by
  a framed sender, cut into chunks by the network, come out of a framed receiver as they went in.
\<close>

section \<open>Framed transport, receiving\<close>

text \<open>The payload of a sequence of complete frames.\<close>

function deframe :: "bytes \<Rightarrow> bytes" where
  "deframe bs =
     (if length bs < 4 then []
      else (let n = ofBe32 (take 4 bs); rest = drop 4 bs in take n rest @ deframe (drop n rest)))"
  by pat_completeness auto
termination
  by (relation "measure length") auto

declare deframe.simps [simp del]

function framed_bytes :: "bytes \<Rightarrow> bool" where
  "framed_bytes bs =
     (if bs = [] then True else if length bs < 4 then False
      else (let n = ofBe32 (take 4 bs); rest = drop 4 bs in
            0 < n \<and> n < 2 ^ 31 \<and> n \<le> length rest \<and> framed_bytes (drop n rest)))"
  by pat_completeness auto
termination
  by (relation "measure length") auto

declare framed_bytes.simps [simp del]

lemma framed_bytes_Cons:
  assumes "b \<noteq> []" "length b < 2 ^ 31"
  shows "framed_bytes (frame b @ bs) = framed_bytes bs" and "deframe (frame b @ bs) = b @ deframe bs"
proof -
  have "ofBe32 (be32 (length b)) = length b" using assms by (intro ofBe32_be32) simp
  then have s: "length (frame b @ bs) = 4 + length b + length bs" "ofBe32 (take 4 (frame b @ bs)) = length b"
      "drop 4 (frame b @ bs) = b @ bs" by (simp_all add: frame_def)
  show "framed_bytes (frame b @ bs) = framed_bytes bs"
    using assms by (subst framed_bytes.simps, unfold s Let_def) (simp add: frame_def)
  show "deframe (frame b @ bs) = b @ deframe bs"
    by (subst deframe.simps, unfold s Let_def) simp
qed

lemma framed_bytesD:
  assumes "framed_bytes bs" "bs \<noteq> []"
  shows "4 \<le> length bs" "0 < ofBe32 (take 4 bs)" "ofBe32 (take 4 bs) < 2 ^ 31"
    and "ofBe32 (take 4 bs) \<le> length (drop 4 bs)" "framed_bytes (drop (ofBe32 (take 4 bs)) (drop 4 bs))"
  using assms(2) assms(1) [unfolded framed_bytes.simps [of bs]] by (simp_all add: Let_def split: if_splits)

lemma frames_framed:
  assumes "\<forall>b \<in> set bodies. b \<noteq> [] \<and> length b < 2 ^ 31"
  shows "framed_bytes (concat (map frame bodies)) \<and> deframe (concat (map frame bodies)) = concat bodies"
  using assms
proof (induction bodies)
  case Nil
  show ?case by (simp add: framed_bytes.simps deframe.simps)
next
  case (Cons b bodies)
  then have "framed_bytes (concat (map frame bodies))" "deframe (concat (map frame bodies)) = concat bodies"
    and b: "b \<noteq> []" "length b < 2 ^ 31" by auto
  then show ?case using framed_bytes_Cons [of b "concat (map frame bodies)"] by simp
qed

lemma sizeLoop_ok:
  assumes "chunked st" "4 \<le> length acc + length (arriving st)" "length acc \<le> 4"
  shows "\<exists>st'. sizeLoop acc st = Inr (Some (acc @ take (4 - length acc) (arriving st)), st')
    \<and> chunked st' \<and> arriving st' = drop (4 - length acc) (arriving st)"
  using assms
proof (induction acc st rule: sizeLoop.induct)
  case (1 acc st)
  show ?case
  proof (cases "length acc = 4")
    case True
    with 1 show ?thesis by (simp add: sizeLoop.simps)
  next
    case False
    with 1 obtain got st1 where g: "s_read (4 - length acc) st = Inr (got, st1)" "chunked st1"
        "arriving st = got @ arriving st1" "length got \<le> 4 - length acc" "got \<noteq> []"
      using s_read_ok [of st "4 - length acc"] by fastforce
    moreover from 1(1) [OF _ g(1) refl g(5) g(2)] g False 1(3,4) have
      "\<exists>st'. sizeLoop (acc @ got) st1 = Inr (Some ((acc @ got) @ take (4 - length (acc @ got)) (arriving st1)), st')
         \<and> chunked st' \<and> arriving st' = drop (4 - length (acc @ got)) (arriving st1)" by auto
    ultimately show ?thesis using False 1(4) by (subst sizeLoop.simps) (auto simp: diff_diff_add add.commute)
  qed
qed

definition fr_inv :: "tbuf \<Rightarrow> bool" where
  "fr_inv t = (chunked (trans t) \<and> rBase t \<le> rBound t \<and> rBound t \<le> length (rBuf t)
     \<and> framed_bytes (arriving (trans t)))"

definition fr_inc :: "tbuf \<Rightarrow> bytes" where
  "fr_inc t = bsub (rBase t) (rBound t - rBase t) (rBuf t) @ deframe (arriving (trans t))"

lemma readFrame_empty:
  assumes "rx (trans t) = []"
  shows "framed_readFrame t = Inr (False, t)"
  using assms by (simp add: framed_readFrame_def sizeLoop.simps s_read_def)

lemma readFrame_body:
  fixes t
  defines "a \<equiv> arriving (trans t)"
  defines "n \<equiv> ofBe32 (take 4 a)"
  assumes "chunked (trans t)" "4 \<le> length a" "n < 2 ^ 31" "n \<le> length (drop 4 a)"
  shows "\<exists>t'. framed_readFrame t = Inr (True, t') \<and> rBase t' = 0 \<and> rBound t' = n \<and> n \<le> length (rBuf t')
    \<and> bsub 0 n (rBuf t') = take n (drop 4 a) \<and> chunked (trans t') \<and> arriving (trans t') = drop n (drop 4 a)"
proof -
  from sizeLoop_ok [of "trans t" "[]"] assms obtain st where
    st: "sizeLoop [] (trans t) = Inr (Some (take 4 a), st)" "chunked st" "arriving st = drop 4 a" by auto
  from sr.readAll_ok [OF st(2), of n] st(3) assms obtain st' where
    st': "readAll s_read n st = Inr (take n (drop 4 a), st')" "chunked st'" "arriving st' = drop n (drop 4 a)" by auto
  define t2 where "t2 = (if n > length (rBuf t) then t\<lparr>trans := st, rBuf := replicate n 0\<rparr> else t\<lparr>trans := st\<rparr>)"
  have t2: "n \<le> length (rBuf t2)" "trans t2 = st" by (simp_all add: t2_def)
  from st st' assms(5) t2 have "framed_readFrame t
      = Inr (True, setReadBuffer n (t2\<lparr>trans := st', rBuf := memcpy 0 (take n (drop 4 a)) (rBuf t2)\<rparr>))"
    by (simp add: framed_readFrame_def n_def [symmetric] toInt32_small Let_def t2_def)
  moreover have "bsub 0 n (memcpy 0 (take n (drop 4 a)) (rBuf t2)) = take n (drop 4 a)"
    using bsub_memcpy_0 [of "take n (drop 4 a)"] assms(6) by (simp add: min_absorb2)
  moreover have "n \<le> length (memcpy 0 (take n (drop 4 a)) (rBuf t2))" using t2 assms(6) by (subst length_memcpy) auto
  ultimately show ?thesis using st' by (simp add: setReadBuffer_def)
qed

lemma readFrame_ok:
  assumes "chunked (trans t)" "framed_bytes (arriving (trans t))" "arriving (trans t) \<noteq> []"
  shows "\<exists>t'. framed_readFrame t = Inr (True, t') \<and> fr_inv t' \<and> fr_inc t' = deframe (arriving (trans t))
    \<and> rBase t' = 0 \<and> 0 < rBound t'"
proof -
  let ?a = "arriving (trans t)"
  note n = framed_bytesD [OF assms(2,3)]
  from readFrame_body [OF assms(1) n(1,3,4)] obtain t' where "framed_readFrame t = Inr (True, t')" "rBase t' = 0"
      "rBound t' = ofBe32 (take 4 ?a)" "rBound t' \<le> length (rBuf t')" "chunked (trans t')"
      "bsub 0 (rBound t') (rBuf t') = take (rBound t') (drop 4 ?a)" "arriving (trans t') = drop (rBound t') (drop 4 ?a)"
    by metis
  moreover from this have "deframe ?a = take (rBound t') (drop 4 ?a) @ deframe (drop (rBound t') (drop 4 ?a))"
    using n(1) by (subst deframe.simps) (simp add: Let_def)
  ultimately show ?thesis using n by (simp add: fr_inv_def fr_inc_def)
qed

lemma framed_read_ok:
  assumes "fr_inv t" "0 < n"
  shows "\<exists>got t'. bb_read framed_readSlow n t = Inr (got, t') \<and> fr_inv t' \<and> fr_inc t = got @ fr_inc t'
    \<and> length got \<le> n \<and> (got = [] \<longrightarrow> fr_inc t = [])"
proof -
  consider "rBase t + n \<le> rBound t" | "rBase t < rBound t" "rBound t < rBase t + n"
    | "rBase t = rBound t" "arriving (trans t) = []" | "rBase t = rBound t" "arriving (trans t) \<noteq> []"
    using assms by (fastforce simp: fr_inv_def)
  then show ?thesis
  proof cases
    case 1
    with assms bb_read_buffered(1) [of t n framed_readSlow] bb_read_buffered(2,3) [of t n] show ?thesis
      by (auto simp: fr_inv_def fr_inc_def)
  next
    case 2
    with assms show ?thesis
      by (auto simp: bb_read_def framed_readSlow_def setReadBuffer_def fr_inv_def fr_inc_def Let_def)
  next
    case 3
    with assms have "rx (trans t) = []"
      by (cases "rx (trans t)") (auto simp: fr_inv_def arriving_def chunked_def)
    with 3 assms show ?thesis
      by (auto simp: bb_read_def framed_readSlow_def Let_def readFrame_empty fr_inv_def fr_inc_def deframe.simps)
  next
    case 4
    with assms readFrame_ok [of t] obtain t1 where t1: "framed_readFrame t = Inr (True, t1)" "fr_inv t1"
        "fr_inc t1 = fr_inc t" "rBase t1 = 0" "0 < rBound t1" by (auto simp: fr_inv_def fr_inc_def)
    let ?k = "min n (rBound t1)"
    from t1 bsub_split [of ?k "rBound t1" 0 "rBuf t1"] have
      "fr_inc t = bsub 0 ?k (rBuf t1) @ fr_inc (t1\<lparr>rBase := ?k\<rparr>)" "fr_inv (t1\<lparr>rBase := ?k\<rparr>)"
      "length (bsub 0 ?k (rBuf t1)) = ?k" by (auto simp: fr_inc_def fr_inv_def)
    moreover from this(3) t1 assms have "length (bsub 0 ?k (rBuf t1)) \<noteq> 0" by simp
    ultimately show ?thesis using t1 4 assms
      by (auto simp: bb_read_def framed_readSlow_def Let_def bgive_def)
  qed
qed

interpretation fr: byte_reader fr_inv fr_inc "bb_read framed_readSlow"
  by unfold_locales (rule framed_read_ok)

text \<open>\<open>readAll\<close> of the base class takes a fast path that gives what the loop would.\<close>

lemma framed_readAll_ok:
  assumes "fr_inv t" "n \<le> length (fr_inc t)"
  shows "\<exists>t'. bb_readAll framed_readSlow n t = Inr (take n (fr_inc t), t') \<and> fr_inv t' \<and> fr_inc t' = drop n (fr_inc t)"
proof (cases "rBase t + n \<le> rBound t")
  case True
  with assms bb_read_buffered(2,3) [of t n] show ?thesis
    by (auto simp: bb_readAll_def fr_inv_def fr_inc_def)
next
  case False
  with fr.readAll_ok [OF assms] show ?thesis by (simp add: bb_readAll_def)
qed

lemma fr_exhausted:
  assumes "fr_inv t" "fr_inc t = []"
  shows "rBase t = rBound t \<and> arriving (trans t) = []"
proof -
  have "arriving (trans t) = []"
  proof (rule ccontr)
    assume ne: "arriving (trans t) \<noteq> []"
    with assms(1) framed_bytesD [of "arriving (trans t)"] have "deframe (arriving (trans t)) \<noteq> []"
      by (subst deframe.simps) (auto simp: fr_inv_def Let_def)
    with assms(2) show False by (simp add: fr_inc_def)
  qed
  with assms show ?thesis by (auto simp: fr_inv_def fr_inc_def)
qed

section \<open>Round trip\<close>

text \<open>Receiving messages of given lengths one after the other.\<close>

primrec framed_recv :: "nat list \<Rightarrow> tbuf \<Rightarrow> (bytes list, tbuf) tres" where
  "framed_recv [] t = Inr ([], t)"
| "framed_recv (n # ns) t =
     bindE (bb_readAll framed_readSlow n t) (\<lambda>(m, t1).
     bindE (framed_recv ns t1) (\<lambda>(ms, t2). Inr (m # ms, t2)))"

lemma framed_recv_ok:
  assumes "fr_inv t" "fr_inc t = concat ms"
  shows "\<exists>t'. framed_recv (map length ms) t = Inr (ms, t') \<and> fr_inv t' \<and> fr_inc t' = []"
  using assms
proof (induction ms arbitrary: t)
  case (Cons m ms)
  from Cons.prems framed_readAll_ok [of t "length m"] obtain t1 where
    t1: "bb_readAll framed_readSlow (length m) t = Inr (m, t1)" "fr_inv t1" "fr_inc t1 = concat ms" by auto
  with Cons.IH [of t1] show ?case by auto
qed simp

lemma framed_recv_frames:
  assumes "chunked rcv" "arriving rcv = concat (map frame bodies)" "\<forall>b \<in> set bodies. b \<noteq> [] \<and> length b < 2 ^ 31"
  shows "\<exists>r. framed_recv (map length bodies) (framed_init sz rcv) = Inr (bodies, r)
    \<and> rBase r = rBound r \<and> arriving (trans r) = []"
proof -
  let ?r = "framed_init sz rcv"
  from frames_framed [OF assms(3)] assms(1,2) have "fr_inv ?r" "fr_inc ?r = concat bodies"
    by (simp_all add: fr_inv_def fr_inc_def framed_init_def setReadBuffer_def setWriteBuffer_def)
  from framed_recv_ok [OF this] obtain r where
    r: "framed_recv (map length bodies) ?r = Inr (bodies, r)" "fr_inv r" "fr_inc r = []" by auto
  with fr_exhausted [OF r(2,3)] show ?thesis by blast
qed

lemma framed_send_frames:
  assumes "link_up st" "tx st = []" "sz < 2 ^ 31" "\<forall>ps \<in> set ms. sendable ps"
  shows "\<exists>t0 t. framed_new sz st = Inr ((), t0) \<and> writeAll framed_send ms t0 = Inr ((), t)
    \<and> tx (trans t) = concat (map frame (map concat ms))"
proof -
  from framed_new_ok [of st sz] assms obtain t0 where
    "framed_new sz st = Inr ((), t0)" "fw_inv t0" "wBase t0 = 4" "trans t0 = st" by auto
  with framed_send_all [of t0 ms] assms show ?thesis by auto
qed

text \<open>
  C10. Framed round trip: a sender that writes each message in any pieces and flushes after it, and a
  receiver on the other end of a connection that delivers the bytes in any chunks: every write and
  flush succeeds and the receiver reads exactly the messages, in order, with nothing left over. Each
  message is not empty and with its length prefix below 2 GB.
\<close>

theorem framed_roundtrip:
  assumes "link_up st" "tx st = []" "sz < 2 ^ 31" "\<forall>ps \<in> set ms. sendable ps"
  shows "\<exists>t0 t. framed_new sz st = Inr ((), t0) \<and> writeAll framed_send ms t0 = Inr ((), t) \<and>
    (\<forall>rcv. chunked rcv \<and> arriving rcv = tx (trans t) \<longrightarrow>
      (\<exists>r. framed_recv (map (length \<circ> concat) ms) (framed_init sz' rcv) = Inr (map concat ms, r)
        \<and> rBase r = rBound r \<and> arriving (trans r) = []))"
proof -
  from framed_send_frames [OF assms] obtain t0 t where t: "framed_new sz st = Inr ((), t0)"
      "writeAll framed_send ms t0 = Inr ((), t)" "tx (trans t) = concat (map frame (map concat ms))" by blast
  from assms(4) have b: "\<forall>b \<in> set (map concat ms). b \<noteq> [] \<and> length b < 2 ^ 31" by (auto simp: sendable_def)
  have "\<exists>r. framed_recv (map (length \<circ> concat) ms) (framed_init sz' rcv) = Inr (map concat ms, r)
      \<and> rBase r = rBound r \<and> arriving (trans r) = []" if "chunked rcv" "arriving rcv = tx (trans t)" for rcv
    using framed_recv_frames [OF that(1) that(2) [unfolded t(3)] b, of sz'] by simp
  with t show ?thesis by blast
qed

definition demo_net :: stream where
  "demo_net = \<lparr>rx = [], tx = [], link_up = True, flushes = 0\<rparr>"

theorem framed_roundtrip_witness:
  "\<exists>t0 t. framed_new 512 demo_net = Inr ((), t0) \<and> writeAll framed_send [[[1, 2], [3]], [[4]]] t0 = Inr ((), t) \<and>
    (\<forall>rcv. chunked rcv \<and> arriving rcv = tx (trans t) \<longrightarrow>
      (\<exists>r. framed_recv [3, 1] (framed_init 512 rcv) = Inr ([[1, 2, 3], [4]], r)
        \<and> rBase r = rBound r \<and> arriving (trans r) = []))"
  using framed_roundtrip [of demo_net 512 "[[[1, 2], [3]], [[4]]]" 512]
  by (simp add: demo_net_def sendable_def numeral_3_eq_3 del: writeAll.simps framed_recv.simps)

section \<open>Ends and errors\<close>

lemma sizeLoop_short:
  assumes "chunked st" "length acc + length (arriving st) < 4"
  shows "\<exists>st'. sizeLoop acc st = (if acc = [] \<and> arriving st = [] then Inr (None, st') else Inl (END_OF_FILE, st'))
    \<and> chunked st' \<and> arriving st' = []"
  using assms
proof (induction acc st rule: sizeLoop.induct)
  case (1 acc st)
  then obtain got st1 where g: "s_read (4 - length acc) st = Inr (got, st1)" "chunked st1"
      "arriving st = got @ arriving st1" "got = [] \<longrightarrow> arriving st = []"
    using s_read_ok [of st "4 - length acc"] by fastforce
  show ?case
  proof (cases "got = []")
    case True
    with g 1(3) show ?thesis by (subst sizeLoop.simps) auto
  next
    case False
    from 1(1) [OF _ g(1) refl False g(2)] g 1(3) False have
      "\<exists>st'. sizeLoop (acc @ got) st1 = Inl (END_OF_FILE, st') \<and> chunked st' \<and> arriving st' = []" by auto
    with g False 1(3) show ?thesis by (subst sizeLoop.simps) auto
  qed
qed

lemma ofBe32_less: "ofBe32 bs < 256 ^ length bs"
proof (induction bs rule: rev_induct)
  case (snoc b bs)
  have "unat b < 256" using unsigned_less [of b] by simp
  moreover have "ofBe32 bs * 256 + 256 \<le> 256 ^ length bs * 256" using snoc by simp
  ultimately show ?case by (simp add: ofBe32_def)
qed (simp add: ofBe32_def)

lemma ofBe32_bound: "length bs \<le> 4 \<Longrightarrow> ofBe32 bs < 2 ^ 32"
  using ofBe32_less [of bs] power_increasing [of "length bs" 4 "256 :: nat"] by simp

lemma readFrame_refused:
  fixes t
  defines "a \<equiv> arriving (trans t)"
  defines "n \<equiv> ofBe32 (take 4 a)"
  assumes "chunked (trans t)" "4 \<le> length a" "2 ^ 31 \<le> n \<or> length (drop 4 a) < n"
  shows "\<exists>t'. framed_readFrame t = Inl (if 2 ^ 31 \<le> n then NEGATIVE_FRAME else END_OF_FILE, t')
    \<and> arriving (trans t') = (if 2 ^ 31 \<le> n then drop 4 a else [])"
proof -
  from sizeLoop_ok [of "trans t" "[]"] assms obtain st where
    st: "sizeLoop [] (trans t) = Inr (Some (take 4 a), st)" "chunked st" "arriving st = drop 4 a" by auto
  show ?thesis
  proof (cases "2 ^ 31 \<le> n")
    case True
    moreover have "n < 2 ^ 32" using ofBe32_bound [of "take 4 a"] by (simp add: n_def)
    ultimately show ?thesis using st
      by (simp add: framed_readFrame_def n_def [symmetric] toInt32_def Let_def)
  next
    case False
    with assms(5) sr.readAll_eof [OF st(2), of n] st(3) obtain st' where
      "readAll s_read n st = Inl (END_OF_FILE, st')" "arriving st' = []" by auto
    with False st show ?thesis
      by (simp add: framed_readFrame_def n_def [symmetric] toInt32_small Let_def)
  qed
qed

text \<open>
  The five ways \<open>readFrame\<close> can end, by the bytes that arrive and however they are cut: no byte is
  a clean end, one to three bytes and a body shorter than announced are \<open>END_OF_FILE\<close>, a size of
  2 GB or more is refused as negative with the body unread, and otherwise the body is in the read
  buffer and the bytes behind the frame are left on the connection.
\<close>

theorem readFrame_outcome:
  assumes "chunked (trans t)" "a = arriving (trans t)" "n = ofBe32 (take 4 a)"
  shows "\<exists>t'. framed_readFrame t =
       (if a = [] then Inr (False, t')
        else if length a < 4 then Inl (END_OF_FILE, t')
        else if 2 ^ 31 \<le> n then Inl (NEGATIVE_FRAME, t')
        else if length a < 4 + n then Inl (END_OF_FILE, t')
        else Inr (True, t'))
     \<and> arriving (trans t') = (if 4 \<le> length a \<and> 2 ^ 31 \<le> n then drop 4 a else drop (4 + n) a)
     \<and> (n < 2 ^ 31 \<and> 4 + n \<le> length a \<longrightarrow> bsub (rBase t') (rBound t' - rBase t') (rBuf t') = take n (drop 4 a))"
proof -
  consider "length a < 4" | "4 \<le> length a" "2 ^ 31 \<le> n \<or> length (drop 4 a) < n"
    | "4 \<le> length a" "n < 2 ^ 31" "n \<le> length (drop 4 a)" by linarith
  then show ?thesis
  proof cases
    case 1
    with sizeLoop_short [of "trans t" "[]"] assms obtain st where
      "sizeLoop [] (trans t) = (if a = [] then Inr (None, st) else Inl (END_OF_FILE, st))" "arriving st = []" by auto
    with 1 show ?thesis by (intro exI [of _ "t\<lparr>trans := st\<rparr>"]) (auto simp: framed_readFrame_def)
  next
    case 2
    with readFrame_refused [of t] assms show ?thesis by (auto split: if_splits)
  next
    case 3
    with readFrame_body [of t] assms obtain t' where "framed_readFrame t = Inr (True, t')" "rBase t' = 0"
        "rBound t' = n" "bsub 0 n (rBuf t') = take n (drop 4 a)" "arriving (trans t') = drop n (drop 4 a)" by auto
    with 3 show ?thesis by (intro exI [of _ t']) (auto simp: add.commute)
  qed
qed

theorem readFrame_outcome_witness:
  "\<exists>t'. framed_readFrame (framed_init 512 (demo_net\<lparr>rx := [[0, 0], [0, 2, 7]]\<rparr>)) = Inl (END_OF_FILE, t')"
  using readFrame_outcome [of "framed_init 512 (demo_net\<lparr>rx := [[0, 0], [0, 2, 7]]\<rparr>)" "[0, 0, 0, 2, 7]" 2]
  by (auto simp: demo_net_def chunked_def arriving_def framed_init_def setReadBuffer_def setWriteBuffer_def ofBe32_def)

end
