(* ===== verification/Thrift_Memory.thy ===== *)
theory Thrift_Memory
  imports Thrift_Streams
begin

text \<open>
  \<open>TMemoryBuffer\<close> is a queue of bytes: its operations refine the operations on the list of unread
  bytes, as long as the 32-bit growth of its buffer does not wrap around.
\<close>

section \<open>Invariant\<close>

definition mb_inv :: "mbuf \<Rightarrow> bool" where
  "mb_inv m = (mrBase m \<le> mrBound m \<and> mrBound m \<le> mwBase m \<and> mwBase m \<le> mwBound m
     \<and> mwBound m = length (buffer m) \<and> length (buffer m) < U32)"

definition mb_fits :: "nat \<Rightarrow> mbuf \<Rightarrow> bool" where
  "mb_fits n m = (mwBase m + n \<le> mwBound m \<or> owner m \<and> mwBase m + n \<le> 2 ^ 31)"

section \<open>Growth\<close>

lemma growLoop_stop: "\<not> len > avail \<Longrightarrow> growLoop fuel len room old n avail = Some n"
  by (subst growLoop.simps) simp

lemma growLoop_Suc: "len > avail \<Longrightarrow> growLoop (Suc fuel) len room old n avail =
    growLoop fuel len room old (if n > 0 then n * 2 mod U32 else 1)
      ((room + ((if n > 0 then n * 2 mod U32 else 1) + (U32 - old))) mod U32)"
  by (subst growLoop.simps) (simp add: Let_def)

lemma growLoop_pos:
  assumes "b \<le> old" "old \<le> n" "0 < n" "n < U32" "b + len \<le> 2 ^ 31" "b + len \<le> n * 2 ^ fuel"
  shows "\<exists>n'. growLoop fuel len (old - b) old n (n - b) = Some n' \<and> n \<le> n' \<and> b + len \<le> n' \<and> n' < U32"
  using assms
proof (induction fuel arbitrary: n)
  case 0
  then show ?case by (simp add: growLoop_stop)
next
  case (Suc fuel)
  show ?case
  proof (cases "len > n - b")
    case True
    with Suc.prems have n: "n * 2 mod U32 = n * 2" "n * 2 < U32" by simp_all
    have "old - b + (n * 2 + (U32 - old)) = n * 2 - b + U32" using Suc.prems n by linarith
    then have "(old - b + (n * 2 + (U32 - old))) mod U32 = n * 2 - b" using n by simp
    then have "growLoop (Suc fuel) len (old - b) old n (n - b) = growLoop fuel len (old - b) old (n * 2) (n * 2 - b)"
      using True Suc.prems(3) n by (simp only: growLoop_Suc if_True)
    with Suc.IH [of "n * 2"] Suc.prems n show ?thesis by auto
  next
    case False
    with Suc.prems show ?thesis by (simp add: growLoop_stop)
  qed
qed

lemma growLoop_ok:
  assumes "b \<le> old" "old < U32" "b + len \<le> 2 ^ 31"
  shows "\<exists>n'. growLoop 66 len (old - b) old old (old - b) = Some n' \<and> old \<le> n' \<and> b + len \<le> n' \<and> n' < U32"
proof (cases "old = 0")
  case True
  from assms True growLoop_pos [of 0 0 1 len 65] obtain n' where
    "growLoop 65 len 0 0 1 1 = Some n'" "len \<le> n'" "n' < U32" by auto
  moreover have "growLoop (Suc 65) len 0 0 0 0 = growLoop 65 len 0 0 1 1" if "len > 0"
    using that by (subst growLoop_Suc) simp_all
  ultimately show ?thesis using True assms growLoop_stop [of len 0 66 0 0 0] by (cases "len = 0") auto
next
  case False
  then have "b + len \<le> old * 2 ^ 66" using assms by (simp add: order_trans)
  with False assms growLoop_pos [of b old old len 66] show ?thesis by auto
qed

text \<open>The sizes the loop goes through, and that 66 of them are all there are.\<close>

definition next_size :: "nat \<Rightarrow> nat" where
  "next_size n = (if n > 0 then n * 2 mod U32 else 1)"

lemma growLoop_None:
  "growLoop fuel len room old n ((room + (n + (U32 - old))) mod U32) = None \<longleftrightarrow>
     (\<forall>k\<le>fuel. len > (room + ((next_size ^^ k) n + (U32 - old))) mod U32)"
proof (induction fuel arbitrary: n)
  case 0
  show ?case by (subst growLoop.simps) simp
next
  case (Suc fuel)
  have all: "(\<forall>k\<le>Suc fuel. P k) \<longleftrightarrow> P 0 \<and> (\<forall>k\<le>fuel. P (Suc k))" for P :: "nat \<Rightarrow> bool"
    using less_Suc_eq_0_disj by (auto simp: less_Suc_eq_le [symmetric])
  show ?case
  proof (cases "len > (room + (n + (U32 - old))) mod U32")
    case True
    then show ?thesis
      unfolding all growLoop_Suc [OF True] using Suc.IH [of "next_size n"]
      by (simp only: next_size_def [symmetric] funpow_0 funpow_Suc_right o_apply) simp
  next
    case False
    then show ?thesis unfolding all by (simp add: growLoop_stop)
  qed
qed

lemma next_size_double:
  assumes "\<And>j. j < k \<Longrightarrow> (next_size ^^ j) n \<noteq> 0" "n < U32"
  shows "(next_size ^^ k) n = n * 2 ^ k mod U32"
  using assms
proof (induction k)
  case (Suc k)
  have "(next_size ^^ k) n = n * 2 ^ k mod U32" using Suc by simp
  moreover have "(next_size ^^ k) n \<noteq> 0" using Suc.prems(1) by blast
  ultimately have "(next_size ^^ Suc k) n = (n * 2 ^ k mod U32) * 2 mod U32"
    by (simp add: next_size_def)
  then show ?case by (simp only: mod_mult_left_eq) (simp add: mult_ac)
qed simp

lemma next_size_zero:
  assumes "n < U32"
  obtains k where "k \<le> 32" "(next_size ^^ k) n = 0"
proof (rule ccontr)
  define w :: nat where "w = 32"
  assume "\<not> thesis"
  then have ne: "j \<le> w \<Longrightarrow> (next_size ^^ j) n \<noteq> 0" for j using that w_def by blast
  then have "(next_size ^^ w) n = n * 2 ^ w mod U32" using assms by (intro next_size_double) simp_all
  also have "\<dots> = 0" unfolding w_def by (rule mod_mult_self2_is_0)
  finally show False using ne by blast
qed

lemma next_size_powers: "j \<le> 31 \<Longrightarrow> (next_size ^^ Suc j) 0 = 2 ^ j"
proof (induction j)
  case (Suc j)
  then have "(2 :: nat) ^ Suc j < U32" by (intro power_strict_increasing) simp_all
  then have "next_size (2 ^ j) = 2 ^ Suc j" unfolding next_size_def by (simp add: mult.commute)
  with Suc show ?case by simp
qed (simp add: next_size_def)

lemma next_size_period: "p = 33 \<Longrightarrow> (next_size ^^ (p * q)) 0 = 0"
proof (induction q)
  case (Suc q)
  define k :: nat where "k = 31"
  have "next_size (2 ^ 31) = 0" by (simp add: next_size_def)
  with next_size_powers [of k] have "(next_size ^^ Suc (Suc k)) 0 = 0"
    unfolding k_def by (simp only: funpow.simps o_apply order_refl)
  moreover have "p = Suc (Suc k)" using Suc.prems by (simp add: k_def)
  ultimately show ?case using Suc by (simp only: mult_Suc_right funpow_add o_apply)
qed simp

lemma growLoop_exact:
  assumes "growLoop 66 len room old old room = None" "old < U32" "room < U32"
  shows "growLoop fuel len room old old room = None"
proof -
  define p :: nat where "p = 33"
  have r: "(room + (old + (U32 - old))) mod U32 = room" using assms(2,3) by simp
  from next_size_zero [OF assms(2)] obtain k where k: "k \<le> 32" "(next_size ^^ k) old = 0" .
  have "\<exists>j\<le>66. (next_size ^^ i) old = (next_size ^^ j) old" for i
  proof (cases "k \<le> i")
    case True
    define d where "d = i - k"
    have "i = d mod p + p * (d div p) + k" using True by (simp add: d_def)
    then have "(next_size ^^ i) old = (next_size ^^ (d mod p)) 0"
      using k(2) next_size_period [OF p_def] by (simp only: funpow_add o_apply)
    also have "\<dots> = (next_size ^^ (d mod p + k)) old" using k(2) by (simp only: funpow_add o_apply)
    finally have "(next_size ^^ i) old = (next_size ^^ (d mod p + k)) old" .
    moreover have "d mod p < 33" unfolding p_def by simp
    with k(1) have "d mod p + k \<le> 66" by linarith
    ultimately show ?thesis by blast
  next
    case False
    with k(1) have "i \<le> 66" by linarith
    then show ?thesis by blast
  qed
  with assms(1) show ?thesis using growLoop_None [of _ len room old old] unfolding r by metis
qed

lemma ensureCanWrite_ok:
  assumes "mb_inv m" "mb_fits n m"
  shows "\<exists>m'. ensureCanWrite n m = Inr ((), m') \<and> mb_inv m' \<and> mwBase m + n \<le> mwBound m' \<and> getBuffer m' = getBuffer m
    \<and> mwBase m' = mwBase m \<and> owner m' = owner m \<and> mrBase m' = mrBase m"
proof (cases "n \<le> available_write m")
  case True
  with assms show ?thesis by (auto simp: ensureCanWrite_def available_write_def mb_inv_def)
next
  case False
  with assms have o: "owner m" "mwBase m + n \<le> 2 ^ 31" by (auto simp: mb_fits_def mb_inv_def available_write_def)
  with assms growLoop_ok [of "mwBase m" "length (buffer m)" n] obtain k where
    k: "growLoop 66 n (available_write m) (length (buffer m)) (length (buffer m)) (available_write m) = Some k"
      "length (buffer m) \<le> k" "mwBase m + n \<le> k" "k < U32" by (auto simp: mb_inv_def available_write_def)
  let ?m = "m\<lparr>buffer := buffer m @ replicate (k - length (buffer m)) 0, mwBound := k\<rparr>"
  have "k \<noteq> 0" using False k by (auto simp: available_write_def)
  then have "ensureCanWrite n m = Inr ((), ?m)" using False o k by (simp add: ensureCanWrite_def Let_def)
  moreover have "getBuffer ?m = getBuffer m" using assms k by (simp add: getBuffer_def bsub_def mb_inv_def)
  ultimately show ?thesis using assms k by (auto simp: mb_inv_def)
qed

section \<open>Writing and reading\<close>

lemma getBuffer_write:
  assumes "mrBase m \<le> mwBase m" "mwBase m + length p \<le> length (buffer m)"
  shows "getBuffer (m\<lparr>buffer := memcpy (mwBase m) p (buffer m), mwBase := mwBase m + length p\<rparr>) = getBuffer m @ p"
proof -
  have "bsub (mrBase m) (mwBase m + length p - mrBase m) bs = drop (mrBase m) (take (mwBase m + length p) bs)" for bs
    by (simp add: bsub_def take_drop assms(1) le_add_diff_inverse2 trans_le_add1)
  then show ?thesis using assms
    by (simp add: getBuffer_def bsub_def take_drop drop_append)
qed

lemma mem_write_ok:
  assumes "mb_inv m" "mb_fits (length p + k) m"
  shows "\<exists>m'. mem_write p m = Inr ((), m') \<and> mb_inv m' \<and> getBuffer m' = getBuffer m @ p \<and> mb_fits k m'
    \<and> mwBase m' = mwBase m + length p \<and> mrBase m' = mrBase m \<and> owner m' = owner m"
proof (cases "mwBase m + length p \<le> mwBound m")
  case True
  with assms getBuffer_write [of m p] show ?thesis
    by (auto simp: mem_write_def mb_inv_def mb_fits_def)
next
  case False
  from assms(2) have "mb_fits (length p) m" by (auto simp: mb_fits_def)
  from ensureCanWrite_ok [OF assms(1) this] obtain m1 where
    m1: "ensureCanWrite (length p) m = Inr ((), m1)" "mb_inv m1" "mwBase m + length p \<le> mwBound m1"
      "getBuffer m1 = getBuffer m" "mwBase m1 = mwBase m" "owner m1 = owner m" "mrBase m1 = mrBase m" by auto
  with False assms(2) getBuffer_write [of m1 p] show ?thesis
    by (auto simp: mem_write_def mb_inv_def mb_fits_def)
qed

interpretation mw: byte_writer mb_inv getBuffer mb_fits mem_write
  by unfold_locales (use mem_write_ok in blast)

lemma mem_read_ok:
  assumes "mb_inv m"
  shows "\<exists>m'. mem_read n m = Inr (take n (getBuffer m), m') \<and> mb_inv m' \<and> getBuffer m' = drop n (getBuffer m)
    \<and> mwBase m' = mwBase m \<and> mwBound m' = mwBound m \<and> owner m' = owner m"
proof (cases "mrBase m + n \<le> mrBound m")
  case True
  with assms show ?thesis
    by (auto simp: mem_read_def mb_inv_def getBuffer_def bsub_def drop_take diff_diff_add add.commute min_def)
next
  case False
  with assms show ?thesis
    by (auto simp: mem_read_def mb_inv_def getBuffer_def bsub_def computeRead_def available_read_def Let_def drop_take
        diff_diff_add add.commute min_def)
qed

interpretation mr: byte_reader mb_inv getBuffer mem_read
proof
  fix m n
  assume "mb_inv m" "0 < (n :: nat)"
  with mem_read_ok [of m n] obtain m' where "mem_read n m = Inr (take n (getBuffer m), m')" "mb_inv m'"
    "getBuffer m' = drop n (getBuffer m)" by auto
  with \<open>0 < n\<close> show "\<exists>got m'. mem_read n m = Inr (got, m') \<and> mb_inv m' \<and> getBuffer m = got @ getBuffer m'
      \<and> length got \<le> n \<and> (got = [] \<longrightarrow> getBuffer m = [])" by auto
qed

lemma mem_readEnd_ok:
  assumes "mb_inv m" "owner m"
  shows "mb_inv (snd (mem_readEnd m)) \<and> getBuffer (snd (mem_readEnd m)) = getBuffer m
    \<and> mwBase (snd (mem_readEnd m)) \<le> mwBase m \<and> owner (snd (mem_readEnd m))"
  using assms by (auto simp: mem_readEnd_def resetBuffer_def mb_inv_def getBuffer_def Let_def)

section \<open>A queue of bytes\<close>

text \<open>What a client does with a memory buffer, and what a queue answers.\<close>

datatype mop = MWrite bytes | MRead nat | MReadEnd

fun mem_do :: "mop \<Rightarrow> mbuf \<Rightarrow> (bytes, mbuf) tres" where
  "mem_do (MWrite p) m = bindE (mem_write p m) (\<lambda>(_, m1). Inr ([], m1))"
| "mem_do (MRead n) m = mem_read n m"
| "mem_do MReadEnd m = Inr ([], snd (mem_readEnd m))"

primrec mem_run :: "mop list \<Rightarrow> mbuf \<Rightarrow> (bytes list, mbuf) tres" where
  "mem_run [] m = Inr ([], m)"
| "mem_run (c # cs) m =
     bindE (mem_do c m) (\<lambda>(x, m1). bindE (mem_run cs m1) (\<lambda>(xs, m2). Inr (x # xs, m2)))"

fun queue_do :: "mop \<Rightarrow> bytes \<Rightarrow> bytes \<times> bytes" where
  "queue_do (MWrite p) q = ([], q @ p)"
| "queue_do (MRead n) q = (take n q, drop n q)"
| "queue_do MReadEnd q = ([], q)"

primrec queue_run :: "mop list \<Rightarrow> bytes \<Rightarrow> bytes list \<times> bytes" where
  "queue_run [] q = ([], q)"
| "queue_run (c # cs) q = (case queue_do c q of (x, q1) \<Rightarrow> (case queue_run cs q1 of (xs, q2) \<Rightarrow> (x # xs, q2)))"

fun mop_bytes :: "mop \<Rightarrow> nat" where
  "mop_bytes (MWrite p) = length p"
| "mop_bytes (MRead n) = 0"
| "mop_bytes MReadEnd = 0"

lemma mem_do_refines:
  assumes "mb_inv m" "owner m" "mwBase m + mop_bytes c \<le> 2 ^ 31"
  shows "\<exists>m'. mem_do c m = Inr (fst (queue_do c (getBuffer m)), m') \<and> mb_inv m' \<and> owner m'
    \<and> mwBase m' \<le> mwBase m + mop_bytes c \<and> getBuffer m' = snd (queue_do c (getBuffer m))"
proof (cases c)
  case (MWrite p)
  with assms have "mb_fits (length p + 0) m" by (simp add: mb_fits_def)
  from mem_write_ok [OF assms(1) this] assms MWrite show ?thesis by auto
next
  case (MRead n)
  with mem_read_ok [OF assms(1), of n] assms show ?thesis by auto
next
  case MReadEnd
  with mem_readEnd_ok [OF assms(1,2)] show ?thesis by simp
qed

lemma mem_run_refines:
  assumes "mb_inv m" "owner m" "mwBase m + (\<Sum>c\<leftarrow>cs. mop_bytes c) \<le> 2 ^ 31"
  shows "\<exists>m'. mem_run cs m = Inr (fst (queue_run cs (getBuffer m)), m') \<and> mb_inv m'
    \<and> getBuffer m' = snd (queue_run cs (getBuffer m))"
  using assms
proof (induction cs arbitrary: m)
  case (Cons c cs)
  from Cons.prems have "mwBase m + mop_bytes c \<le> 2 ^ 31" by simp
  from mem_do_refines [OF Cons.prems(1,2) this] obtain m1 where
    m1: "mem_do c m = Inr (fst (queue_do c (getBuffer m)), m1)" "mb_inv m1" "owner m1"
      "mwBase m1 \<le> mwBase m + mop_bytes c" "getBuffer m1 = snd (queue_do c (getBuffer m))" by auto
  with Cons.prems(3) have "mwBase m1 + (\<Sum>c\<leftarrow>cs. mop_bytes c) \<le> 2 ^ 31" by simp
  from Cons.IH [OF m1(2,3) this] m1 show ?case by (auto split: prod.splits)
qed simp

text \<open>
  C27. A memory buffer of any initial size is a queue of bytes: every sequence of writes, reads and
  \<open>readEnd\<close>s that writes at most 2 GB answers exactly as the queue does and leaves the queue's bytes
  unread, whatever reallocation, stale read bound or reset happens on the way.
\<close>

theorem memory_buffer_queue:
  assumes "sz < 2 ^ 32" "(\<Sum>c\<leftarrow>cs. mop_bytes c) \<le> 2 ^ 31"
  shows "\<exists>m'. mem_run cs (new_TMemoryBuffer sz) = Inr (fst (queue_run cs []), m')
    \<and> getBufferAsString m' = snd (queue_run cs [])"
proof -
  have "mb_inv (new_TMemoryBuffer sz)" "owner (new_TMemoryBuffer sz)" "mwBase (new_TMemoryBuffer sz) = 0"
      "getBuffer (new_TMemoryBuffer sz) = []"
    using assms by (simp_all add: mb_inv_def new_TMemoryBuffer_def initCommon_def getBuffer_def)
  with mem_run_refines [of "new_TMemoryBuffer sz" cs] assms obtain m' where
    "mem_run cs (new_TMemoryBuffer sz) = Inr (fst (queue_run cs []), m')" "getBuffer m' = snd (queue_run cs [])" by auto
  moreover have "getBufferAsString m' = getBuffer m'"
    by (simp add: getBufferAsString_def getBuffer_def bsub_def)
  ultimately show ?thesis by auto
qed

theorem memory_buffer_queue_witness:
  "\<exists>m'. mem_run [MWrite [1, 2, 3], MRead 2, MWrite [4], MRead 5, MReadEnd] (new_TMemoryBuffer 0)
      = Inr ([[], [1, 2], [], [3, 4], []], m') \<and> getBufferAsString m' = []"
  using memory_buffer_queue [of 0 "[MWrite [1, 2, 3], MRead 2, MWrite [4], MRead 5, MReadEnd]"]
  by (simp del: mem_run.simps)

lemma growLoop_endless:
  assumes "2 ^ 31 < len" "n = 0 \<or> (\<exists>k\<le>31. n = 2 ^ k)"
  shows "growLoop fuel len (2 ^ 31) (2 ^ 31) n n = None"
  using assms(2)
proof (induction fuel arbitrary: n)
  have le: "n < len" if "n = 0 \<or> (\<exists>k\<le>31. n = 2 ^ k)" for n
    using that assms(1) power_increasing [of _ 31 "2 :: nat"] by (auto intro: le_less_trans)
  case 0
  with le [of n] show ?case by (subst growLoop.simps) simp
  case (Suc fuel)
  let ?n = "if n > 0 then n * 2 mod U32 else 1"
  have "?n = 0 \<or> (\<exists>k\<le>31. ?n = 2 ^ k)"
  proof (cases "n = 0 \<or> n = 2 ^ 31")
    case False
    with Suc.prems obtain k where "n = 2 ^ k" "k < 31" by (auto simp: le_less)
    then have "n * 2 = 2 ^ Suc k" "Suc k \<le> 31" by simp_all
    moreover from \<open>k < 31\<close> have "(2 :: nat) ^ Suc k < 2 ^ 32" by (intro power_strict_increasing) simp_all
    ultimately have "?n = 2 ^ Suc k" using \<open>n = 2 ^ k\<close> by (simp only: mod_less) simp
    with \<open>Suc k \<le> 31\<close> show ?thesis by blast
  qed auto
  moreover have "(2 ^ 31 + (?n + (U32 - 2 ^ 31))) mod U32 = ?n" by (simp add: mod_add_self2)
  ultimately show ?case using Suc.IH [of ?n] le [OF Suc.prems] by (simp only: growLoop_Suc)
qed

text \<open>
  The growth of a memory buffer wraps around at 4 GB: when a buffer of 2 GB is too small, doubling
  its 32-bit size gives 0. If bytes were written before, the space computed from that looks large
  enough and \<open>realloc\<close> is asked for no bytes at all; if none were, the loop goes through the powers of
  two again and again, whatever number of steps it is given.
\<close>

theorem ensureCanWrite_wraps:
  assumes "mb_inv m" "owner m" "length (buffer m) = 2 ^ 31" "available_write m < len" "mwBase m + len \<le> 2 ^ 32"
  shows "ensureCanWrite len m = Inl (if mwBase m = 0 then ENDLESS else BAD_ALLOC, m)
    \<and> (mwBase m = 0 \<longrightarrow> (\<forall>fuel. growLoop fuel len (available_write m) (2 ^ 31) (2 ^ 31) (available_write m) = None))"
proof -
  let ?av = "available_write m"
  from assms have s: "?av + mwBase m = 2 ^ 31" by (simp add: available_write_def mb_inv_def)
  show ?thesis
  proof (cases "mwBase m = 0")
    case True
    with s assms(4) have "?av = 2 ^ 31" "2 ^ 31 < len" by simp_all
    then have "growLoop fuel len ?av (2 ^ 31) (2 ^ 31) ?av = None" for fuel
      using growLoop_endless [of len "2 ^ 31"] by (metis order_refl)
    with True assms show ?thesis by (simp add: ensureCanWrite_def Let_def)
  next
    case False
    with s have "(?av + 2 ^ 31) mod U32 = ?av + 2 ^ 31" by simp
    then have "growLoop (Suc 65) len ?av (2 ^ 31) (2 ^ 31) ?av = growLoop 65 len ?av (2 ^ 31) 0 (?av + 2 ^ 31)"
      using assms(4) by (subst growLoop_Suc) simp_all
    also have "\<dots> = Some 0" using s assms(5) by (intro growLoop_stop) simp
    finally show ?thesis using False assms by (simp add: ensureCanWrite_def Let_def)
  qed
qed

theorem ensureCanWrite_wraps_witness:
  "ensureCanWrite 1 (initCommon (replicate (2 ^ 31) 0) True (2 ^ 31))
     = Inl (BAD_ALLOC, initCommon (replicate (2 ^ 31) 0) True (2 ^ 31))"
proof -
  let ?m = "initCommon (replicate (2 ^ 31) 0) True (2 ^ 31)"
  have "mb_inv ?m" "owner ?m" "length (buffer ?m) = 2 ^ 31" "available_write ?m < 1" "mwBase ?m + 1 \<le> 2 ^ 32" "mwBase ?m \<noteq> 0"
    by (simp_all add: mb_inv_def initCommon_def available_write_def)
  with ensureCanWrite_wraps [of ?m 1] show ?thesis by (simp only: if_False)
qed

end
