(* ===== verification/Nonblocking_Server.thy ===== *)
theory Nonblocking_Server
  imports Thrift_Framing Thrift_Memory
begin

text \<open>
  \<open>TNonblockingServer\<close>, which both servers of the prototype run on: the state machine of a connection
  (\<open>TConnection\<close>: \<open>workSocket\<close>, \<open>transition\<close>, \<open>close\<close>), the pool of connection objects and the overload
  control. The processor (code generated from the service definition) is a parameter: it maps the
  request to the pieces it writes to the output transport, or raises. A socket is the stream it reads
  from and the numbers of bytes its next writes accept. An error value is the end of the process
  (a failed assertion, an exception that leaves the event callback) or undefined behaviour.
\<close>

section \<open>Data\<close>

datatype TSocketState = SOCKET_RECV_FRAMING | SOCKET_RECV | SOCKET_SEND

datatype TAppState =
    APP_INIT
  | APP_READ_FRAME_SIZE
  | APP_READ_REQUEST
  | APP_WAIT_TASK
  | APP_SEND_RESULT
  | APP_CLOSE_CONNECTION

datatype TOverloadAction = T_OVERLOAD_NO_ACTION | T_OVERLOAD_CLOSE_ON_ACCEPT | T_OVERLOAD_DRAIN_TASK_QUEUE

text \<open>The events a connection is registered for: none, \<open>EV_READ | EV_PERSIST\<close>, \<open>EV_WRITE | EV_PERSIST\<close>.\<close>

datatype evFlags = EV_NONE | EV_READ | EV_WRITE

text \<open>\<open>writeBuffer\<close> is the part of the output transport between its start and its write position.\<close>

record conn =
  socketFD :: nat
  sock :: stream
  accepts :: "nat list"
  ioThread :: "nat option"
  socketState :: TSocketState
  appState :: TAppState
  readWant :: nat
  readBufferPos :: nat
  readBuffer :: bytes
  writeBuffer :: bytes
  writeBufferPos :: nat
  largestWriteBufferSize :: nat
  callsForResize :: nat
  inputTransport :: mbuf
  outputTransport :: mbuf
  eventFlags :: evFlags

text \<open>
  What \<open>addTask\<close> does with a task: the thread manager takes it, throws the \<open>IllegalStateException\<close> of a manager that is not
  started, or throws something else, as \<open>TooManyPendingTasksException\<close>. (A full manager lets a thread that is not one of its own wait,
  and then takes the task.)
\<close>

datatype addTask_result = TaskAdded | TaskIllegalState | TaskOtherException

record nserver =
  threadPoolProcessing :: bool
  numIOThreads :: nat
  nextIOThread :: nat
  numTConnections :: nat
  numActiveProcessors :: nat
  connectionStackLimit :: nat
  maxActiveProcessors :: nat
  maxConnections :: nat
  maxFrameSize :: nat
  overloadHysteresis :: rat
  overloadAction :: TOverloadAction
  writeBufferDefaultSize :: nat
  idleReadBufferLimit :: nat
  idleWriteBufferLimit :: nat
  resizeBufferEveryN :: nat
  isOverloaded :: bool
  nConnectionsDropped :: nat
  nTotalConnectionsDropped :: nat
  connectionStack :: "conn list"
  pendingTasks :: "nat list"
  addTask :: addTask_result
  notified :: "nat list"

definition nserver_init :: nserver where
  "nserver_init =
     \<lparr>threadPoolProcessing = False, numIOThreads = 1, nextIOThread = 0, numTConnections = 0,
      numActiveProcessors = 0, connectionStackLimit = 1024, maxActiveProcessors = 2 ^ 31 - 1,
      maxConnections = 2 ^ 31 - 1, maxFrameSize = 256 * 1024 * 1024, overloadHysteresis = 8 / 10,
      overloadAction = T_OVERLOAD_NO_ACTION, writeBufferDefaultSize = 1024, idleReadBufferLimit = 1024,
      idleWriteBufferLimit = 1024, resizeBufferEveryN = 512, isOverloaded = False, nConnectionsDropped = 0,
      nTotalConnectionsDropped = 0, connectionStack = [], pendingTasks = [], addTask = TaskAdded, notified = []\<rparr>"

definition incrementActiveProcessors :: "nserver \<Rightarrow> nserver" where
  "incrementActiveProcessors s = s\<lparr>numActiveProcessors := numActiveProcessors s + 1\<rparr>"

definition decrementActiveProcessors :: "nserver \<Rightarrow> nserver" where
  "decrementActiveProcessors s =
     (if numActiveProcessors s > 0 then s\<lparr>numActiveProcessors := numActiveProcessors s - 1\<rparr> else s)"

section \<open>Connection objects\<close>

text \<open>The state of a connection that \<open>init\<close> sets; the buffers are kept from the last use.\<close>

definition conn_init :: "nat \<Rightarrow> stream \<Rightarrow> nat list \<Rightarrow> nat \<Rightarrow> conn \<Rightarrow> conn" where
  "conn_init fd st acc thr c =
     c\<lparr>socketFD := fd, sock := st, accepts := acc, ioThread := Some thr, appState := APP_INIT,
       eventFlags := EV_NONE, readBufferPos := 0, readWant := 0, writeBuffer := [], writeBufferPos := 0,
       largestWriteBufferSize := 0, socketState := SOCKET_RECV_FRAMING, callsForResize := 0\<rparr>"

definition conn_new :: "nserver \<Rightarrow> nat \<Rightarrow> stream \<Rightarrow> nat list \<Rightarrow> nat \<Rightarrow> conn" where
  "conn_new s fd st acc thr =
     conn_init fd st acc thr
       \<lparr>socketFD = fd, sock = st, accepts = acc, ioThread = Some thr, socketState = SOCKET_RECV_FRAMING,
        appState = APP_INIT, readWant = 0, readBufferPos = 0, readBuffer = [], writeBuffer = [],
        writeBufferPos = 0, largestWriteBufferSize = 0, callsForResize = 0,
        inputTransport = initCommon [] False 0, outputTransport = new_TMemoryBuffer (writeBufferDefaultSize s),
        eventFlags = EV_NONE\<rparr>"

definition setFlags :: "evFlags \<Rightarrow> conn \<Rightarrow> conn" where
  "setFlags fl c = (if eventFlags c = fl then c else c\<lparr>eventFlags := fl\<rparr>)"

definition checkIdleBufferMemLimit :: "nserver \<Rightarrow> nat \<Rightarrow> nat \<Rightarrow> conn \<Rightarrow> conn" where
  "checkIdleBufferMemLimit s readLimit writeLimit c =
     (let c1 = (if readLimit > 0 \<and> length (readBuffer c) > readLimit then c\<lparr>readBuffer := []\<rparr> else c) in
      if writeLimit > 0 \<and> largestWriteBufferSize c1 > writeLimit
      then c1\<lparr>outputTransport := resetBuffer_size (writeBufferDefaultSize s) (outputTransport c1),
              largestWriteBufferSize := 0\<rparr>
      else c1)"

definition returnConnection :: "conn \<Rightarrow> nserver \<Rightarrow> nserver" where
  "returnConnection c s =
     (if connectionStackLimit s \<noteq> 0 \<and> length (connectionStack s) \<ge> connectionStackLimit s
      then s\<lparr>numTConnections := numTConnections s - 1\<rparr>
      else s\<lparr>connectionStack :=
               checkIdleBufferMemLimit s (idleReadBufferLimit s) (idleWriteBufferLimit s) c # connectionStack s\<rparr>)"

text \<open>
  A handler ends with the server and, unless the connection was closed and its object given back to
  the server, the connection.
\<close>

type_synonym nres = "texn + nserver \<times> conn option"

definition conn_close :: "nserver \<Rightarrow> conn \<Rightarrow> nres" where
  "conn_close s c =
     Inr (returnConnection (c\<lparr>ioThread := None, sock := (sock c)\<lparr>link_up := False\<rparr>\<rparr>) s, None)"

definition createConnection :: "nat \<Rightarrow> stream \<Rightarrow> nat list \<Rightarrow> nserver \<Rightarrow> texn + nserver \<times> conn" where
  "createConnection fd st acc s =
     (if \<not> nextIOThread s < numIOThreads s then Inl ASSERTION
      else (let thr = nextIOThread s; s1 = s\<lparr>nextIOThread := (nextIOThread s + 1) mod numIOThreads s\<rparr> in
            (case connectionStack s1 of
               [] \<Rightarrow> Inr (s1\<lparr>numTConnections := numTConnections s1 + 1\<rparr>, conn_new s1 fd st acc thr)
             | c # cs \<Rightarrow> Inr (s1\<lparr>connectionStack := cs\<rparr>, conn_init fd st acc thr c))))"

section \<open>Application states\<close>

text \<open>\<open>LABEL_APP_INIT\<close>: wait for the size of the next frame.\<close>

definition transInit :: "nserver \<Rightarrow> conn \<Rightarrow> nres" where
  "transInit s c =
     Inr (s, Some (setFlags EV_READ
       (c\<lparr>writeBuffer := [], writeBufferPos := 0, socketState := SOCKET_RECV_FRAMING,
          appState := APP_READ_FRAME_SIZE, readBufferPos := 0\<rparr>)))"

definition transSendResult :: "nserver \<Rightarrow> conn \<Rightarrow> nres" where
  "transSendResult s c =
     (let c1 = (if length (writeBuffer c) > largestWriteBufferSize c
                then c\<lparr>largestWriteBufferSize := length (writeBuffer c)\<rparr> else c);
          c2 = (if resizeBufferEveryN s > 0
                then (let c' = c1\<lparr>callsForResize := callsForResize c1 + 1\<rparr> in
                      if callsForResize c' \<ge> resizeBufferEveryN s
                      then (checkIdleBufferMemLimit s (idleReadBufferLimit s) (idleWriteBufferLimit s) c')\<lparr>callsForResize := 0\<rparr>
                      else c')
                else c1) in
      transInit s c2)"

text \<open>The result is in the output transport; the first four bytes are reserved for its size.\<close>

definition transWaitTask :: "nserver \<Rightarrow> conn \<Rightarrow> nres" where
  "transWaitTask s c =
     (let s1 = decrementActiveProcessors s; buf = getBuffer (outputTransport c) in
      if length buf > 4
      then Inr (s1, Some (setFlags EV_WRITE
             (c\<lparr>writeBuffer := memcpy 0 (be32 (length buf - 4)) buf, writeBufferPos := 0,
                socketState := SOCKET_SEND, appState := APP_SEND_RESULT\<rparr>)))
      else transInit s1 c)"

type_synonym processor = "bytes \<Rightarrow> bytes list option"

text \<open>Invoking the processor: \<open>None\<close> is any exception, those of the output transport included.\<close>

definition runProcessor :: "processor \<Rightarrow> conn \<Rightarrow> conn option" where
  "runProcessor proc c =
     (case proc (getBuffer (inputTransport c)) of
        None \<Rightarrow> None
      | Some ps \<Rightarrow> (case writeAll mem_write ps (outputTransport c) of
                      Inl _ \<Rightarrow> None
                    | Inr (_, m) \<Rightarrow> Some (c\<lparr>outputTransport := m\<rparr>)))"

text \<open>Package the request and reserve four bytes of the output for the frame size.\<close>

definition packRequest :: "conn \<Rightarrow> texn + conn" where
  "packRequest c =
     (case resetBuffer_with (Some (readBuffer c)) (readBufferPos c) OBSERVE (inputTransport c) of
        Inl (e, _) \<Rightarrow> Inl e
      | Inr (_, inp) \<Rightarrow>
          (case bindE (getWritePtr 4 (resetBuffer (outputTransport c))) (\<lambda>(_, m). wroteBytes 4 m) of
             Inl (e, _) \<Rightarrow> Inl e
           | Inr (_, out) \<Rightarrow> Inr (c\<lparr>inputTransport := inp, outputTransport := out\<rparr>)))"

text \<open>
  Handing the request to the thread pool. When the manager is not started, its exception is caught and the connection is
  closed, and then set idle: on an object that was put on the stack of unused ones, or that no longer exists. Every other exception leaves
  \<open>transition\<close> and, as nothing above it catches it, the event loop.
\<close>

definition dispatchTask :: "nserver \<Rightarrow> conn \<Rightarrow> nres" where
  "dispatchTask s c =
     (let c1 = c\<lparr>appState := APP_WAIT_TASK\<rparr> in
      case addTask s of
        TaskAdded \<Rightarrow> Inr (s\<lparr>pendingTasks := pendingTasks s @ [socketFD c]\<rparr>, Some (setFlags EV_NONE c1))
      | TaskOtherException \<Rightarrow> Inl UNCAUGHT
      | TaskIllegalState \<Rightarrow>
          bindE (conn_close s c1) (\<lambda>(s1, _).
           (case connectionStack s1 of
              c2 # cs \<Rightarrow> if length (connectionStack s) < length (connectionStack s1)
                         then Inr (s1\<lparr>connectionStack := setFlags EV_NONE c2 # cs\<rparr>, None) else Inl USE_AFTER_FREE
            | [] \<Rightarrow> Inl USE_AFTER_FREE)))"

definition transReadRequest :: "processor \<Rightarrow> nserver \<Rightarrow> conn \<Rightarrow> nres" where
  "transReadRequest proc s c =
     bindE (packRequest c) (\<lambda>c1.
     (let s1 = incrementActiveProcessors s in
      if threadPoolProcessing s1 then dispatchTask s1 c1
      else (case runProcessor proc c1 of
              None \<Rightarrow> conn_close (decrementActiveProcessors s1) c1
            | Some c2 \<Rightarrow> transWaitTask s1 c2)))"

text \<open>
  Doubling the read buffer. The size has 32 bits: once it wraps around to 0 the loop never ends, and
  it has wrapped around after 32 steps from any size.
\<close>

fun doubleSize :: "nat \<Rightarrow> nat \<Rightarrow> nat \<Rightarrow> nat option" where
  "doubleSize fuel want newSize =
     (if \<not> want > newSize then Some newSize
      else (case fuel of 0 \<Rightarrow> None | Suc n \<Rightarrow> doubleSize n want (newSize * 2 mod U32)))"

declare doubleSize.simps [simp del]

definition transReadFrameSize :: "nserver \<Rightarrow> conn \<Rightarrow> nres" where
  "transReadFrameSize s c =
     (let next_state = (\<lambda>buf. Inr (s, Some (c\<lparr>readBuffer := buf, readBufferPos := 0, socketState := SOCKET_RECV,
                                            appState := APP_READ_REQUEST\<rparr>))) in
      if readWant c > length (readBuffer c)
      then (let sz = (if length (readBuffer c) = 0 then 1 else length (readBuffer c)) in
            (case doubleSize 33 (readWant c) sz of
               None \<Rightarrow> Inl ENDLESS
             | Some n \<Rightarrow> next_state (readBuffer c @ replicate (n - length (readBuffer c)) 0)))
      else next_state (readBuffer c))"

definition conn_transition :: "processor \<Rightarrow> nserver \<Rightarrow> conn \<Rightarrow> nres" where
  "conn_transition proc s c =
     (if ioThread c = None then Inl ASSERTION
      else (case appState c of
              APP_READ_REQUEST \<Rightarrow> transReadRequest proc s c
            | APP_WAIT_TASK \<Rightarrow> transWaitTask s c
            | APP_SEND_RESULT \<Rightarrow> transSendResult s c
            | APP_INIT \<Rightarrow> transInit s c
            | APP_READ_FRAME_SIZE \<Rightarrow> transReadFrameSize s c
            | APP_CLOSE_CONNECTION \<Rightarrow> conn_close (decrementActiveProcessors s) c))"

section \<open>Socket events\<close>

text \<open>The four bytes of the saved part of a frame size, in the byte order of the host (little endian).\<close>

definition le32 :: "nat \<Rightarrow> bytes" where
  "le32 n = rev (be32 n)"

definition ofLe32 :: "bytes \<Rightarrow> nat" where
  "ofLe32 bs = ofBe32 (rev bs)"

definition recvFraming :: "processor \<Rightarrow> nserver \<Rightarrow> conn \<Rightarrow> nres" where
  "recvFraming proc s c =
     (case s_read (4 - readBufferPos c) (sock c) of
        Inl (e, st) \<Rightarrow> conn_close s (c\<lparr>sock := st\<rparr>)
      | Inr (got, st) \<Rightarrow>
          if got = [] then conn_close s (c\<lparr>sock := st\<rparr>)
          else (let framing = memcpy (readBufferPos c) got (le32 (readWant c));
                    c1 = c\<lparr>sock := st, readBufferPos := readBufferPos c + length got\<rparr> in
                if readBufferPos c1 < 4 then Inr (s, Some (c1\<lparr>readWant := ofLe32 framing\<rparr>))
                else (let c2 = c1\<lparr>readWant := ofBe32 framing\<rparr> in
                      if readWant c2 > maxFrameSize s then conn_close s c2 else conn_transition proc s c2)))"

definition recvBody :: "processor \<Rightarrow> nserver \<Rightarrow> conn \<Rightarrow> nres" where
  "recvBody proc s c =
     (if \<not> readBufferPos c < readWant c then Inl ASSERTION
      else (case s_read (readWant c - readBufferPos c) (sock c) of
              Inl (e, st) \<Rightarrow> conn_close s (c\<lparr>sock := st\<rparr>)
            | Inr (got, st) \<Rightarrow>
                if toInt32 (length got) > 0
                then (let c1 = c\<lparr>sock := st, readBuffer := memcpy (readBufferPos c) got (readBuffer c),
                                 readBufferPos := readBufferPos c + length got\<rparr> in
                      if \<not> readBufferPos c1 \<le> readWant c1 then Inl ASSERTION
                      else if readBufferPos c1 = readWant c1 then conn_transition proc s c1
                      else Inr (s, Some c1))
                else conn_close s (c\<lparr>sock := st\<rparr>)))"

definition sendResult :: "processor \<Rightarrow> nserver \<Rightarrow> conn \<Rightarrow> nres" where
  "sendResult proc s c =
     (if \<not> writeBufferPos c \<le> length (writeBuffer c) then Inl ASSERTION
      else if writeBufferPos c = length (writeBuffer c) then conn_transition proc s c
      else (case accepts c of
              [] \<Rightarrow> conn_close s c
            | k # ks \<Rightarrow>
                (let sent = take k (drop (writeBufferPos c) (writeBuffer c)) in
                 (case s_write sent (sock c) of
                    Inl (e, st) \<Rightarrow> conn_close s (c\<lparr>sock := st\<rparr>)
                  | Inr (_, st) \<Rightarrow>
                      (let c1 = c\<lparr>sock := st, accepts := ks, writeBufferPos := writeBufferPos c + length sent\<rparr> in
                       if \<not> writeBufferPos c1 \<le> length (writeBuffer c1) then Inl ASSERTION
                       else if writeBufferPos c1 = length (writeBuffer c1) then conn_transition proc s c1
                       else Inr (s, Some c1))))))"

definition workSocket :: "processor \<Rightarrow> nserver \<Rightarrow> conn \<Rightarrow> nres" where
  "workSocket proc s c =
     (case socketState c of
        SOCKET_RECV_FRAMING \<Rightarrow> recvFraming proc s c
      | SOCKET_RECV \<Rightarrow> recvBody proc s c
      | SOCKET_SEND \<Rightarrow> sendResult proc s c)"

section \<open>Accepting connections\<close>

definition serverOverloaded :: "nserver \<Rightarrow> bool \<times> nserver" where
  "serverOverloaded s =
     (let activeConnections = numTConnections s - length (connectionStack s);
          s1 = (if numActiveProcessors s > maxActiveProcessors s \<or> activeConnections > maxConnections s
                then s\<lparr>isOverloaded := True\<rparr>
                else if isOverloaded s
                  \<and> of_nat (numActiveProcessors s) \<le> overloadHysteresis s * of_nat (maxActiveProcessors s)
                  \<and> of_nat activeConnections \<le> overloadHysteresis s * of_nat (maxConnections s)
                then s\<lparr>nConnectionsDropped := 0, isOverloaded := False\<rparr>
                else s) in
      (isOverloaded s1, s1))"

text \<open>
  The connections in use are a list. Telling the thread of a connection to run its next transition
  puts the connection on the list of notifications.
\<close>

type_synonym nstate = "nserver \<times> conn list"

definition replaceConn :: "nat \<Rightarrow> conn option \<Rightarrow> conn list \<Rightarrow> conn list" where
  "replaceConn fd r cs = concat (map (\<lambda>c. if socketFD c = fd then (case r of None \<Rightarrow> [] | Some c' \<Rightarrow> [c']) else [c]) cs)"

definition notifyIOThread :: "nat \<Rightarrow> nserver \<Rightarrow> nserver" where
  "notifyIOThread fd s = s\<lparr>notified := notified s @ [fd]\<rparr>"

definition forceClose :: "conn \<Rightarrow> nstate \<Rightarrow> nstate" where
  "forceClose c = (\<lambda>(s, cs).
     (notifyIOThread (socketFD c) s, replaceConn (socketFD c) (Some (c\<lparr>appState := APP_CLOSE_CONNECTION\<rparr>)) cs))"

definition closeTask :: "nat \<Rightarrow> nstate \<Rightarrow> texn + nstate" where
  "closeTask fd = (\<lambda>(s, cs).
     (case List.find (\<lambda>c. socketFD c = fd) cs of
        None \<Rightarrow> Inl USE_AFTER_FREE
      | Some c \<Rightarrow> if appState c \<noteq> APP_WAIT_TASK then Inl ASSERTION else Inr (forceClose c (s, cs))))"

definition drainPendingTask :: "nstate \<Rightarrow> texn + bool \<times> nstate" where
  "drainPendingTask = (\<lambda>(s, cs).
     if threadPoolProcessing s
     then (case pendingTasks s of
             [] \<Rightarrow> Inr (False, s, cs)
           | fd # rest \<Rightarrow> bindE (closeTask fd (s\<lparr>pendingTasks := rest\<rparr>, cs)) (\<lambda>x. Inr (True, x)))
     else Inr (False, s, cs))"

record nclient =
  cl_fd :: nat
  cl_sock :: stream
  cl_accepts :: "nat list"
  cl_nonblock :: bool

text \<open>Taking a new connection; the flag says whether \<open>handleEvent\<close> goes on accepting.\<close>

definition acceptClient :: "processor \<Rightarrow> nclient \<Rightarrow> nstate \<Rightarrow> texn + bool \<times> nstate" where
  "acceptClient proc cl = (\<lambda>(s, cs).
     if \<not> cl_nonblock cl then Inr (False, s, cs)
     else bindE (createConnection (cl_fd cl) (cl_sock cl) (cl_accepts cl) s) (\<lambda>(s1, c).
          if ioThread c = Some 0
          then bindE (conn_transition proc s1 c) (\<lambda>(s2, r). Inr (True, s2, (case r of None \<Rightarrow> [] | Some c' \<Rightarrow> [c']) @ cs))
          else Inr (True, notifyIOThread (cl_fd cl) s1, c # cs)))"

definition dropOrDrain :: "nstate \<Rightarrow> texn + bool \<times> nstate" where
  "dropOrDrain = (\<lambda>(s, cs).
     (let s1 = s\<lparr>nConnectionsDropped := (nConnectionsDropped s + 1) mod U32,
                 nTotalConnectionsDropped := (nTotalConnectionsDropped s + 1) mod 2 ^ 64\<rparr> in
      (case overloadAction s1 of
         T_OVERLOAD_CLOSE_ON_ACCEPT \<Rightarrow> Inr (False, s1, cs)
       | T_OVERLOAD_DRAIN_TASK_QUEUE \<Rightarrow> drainPendingTask (s1, cs)
       | T_OVERLOAD_NO_ACTION \<Rightarrow> Inr (True, s1, cs))))"

text \<open>If the server is overloaded, take action; the flag says whether the client is taken.\<close>

definition overloadCheck :: "nstate \<Rightarrow> texn + bool \<times> nstate" where
  "overloadCheck = (\<lambda>(s, cs).
     if overloadAction s = T_OVERLOAD_NO_ACTION then Inr (True, s, cs)
     else (case serverOverloaded s of (over, s1) \<Rightarrow> if over then dropOrDrain (s1, cs) else Inr (True, s1, cs)))"

primrec handleEvent :: "processor \<Rightarrow> nclient list \<Rightarrow> nstate \<Rightarrow> texn + nstate" where
  "handleEvent proc [] x = Inr x"
| "handleEvent proc (cl # cls) x =
     bindE (overloadCheck x) (\<lambda>(go, x1).
     if \<not> go then Inr x1
     else bindE (acceptClient proc cl x1) (\<lambda>(go', x2). if go' then handleEvent proc cls x2 else Inr x2))"

text \<open>The notifications of an IO thread: run the transition of every connection on the list.\<close>

primrec notifyLoop :: "processor \<Rightarrow> nat list \<Rightarrow> nstate \<Rightarrow> texn + nstate" where
  "notifyLoop proc [] x = Inr x"
| "notifyLoop proc (fd # fds) x =
     (case List.find (\<lambda>c. socketFD c = fd) (snd x) of
        None \<Rightarrow> Inl USE_AFTER_FREE
      | Some c \<Rightarrow> bindE (conn_transition proc (fst x) c) (\<lambda>(s1, r). notifyLoop proc fds (s1, replaceConn fd r (snd x))))"

definition notifyHandler :: "processor \<Rightarrow> nstate \<Rightarrow> texn + nstate" where
  "notifyHandler proc = (\<lambda>(s, cs). notifyLoop proc (notified s) (s\<lparr>notified := []\<rparr>, cs))"

text \<open>A socket event on one connection.\<close>

definition socketEvent :: "processor \<Rightarrow> nat \<Rightarrow> nstate \<Rightarrow> texn + nstate" where
  "socketEvent proc fd = (\<lambda>(s, cs).
     (case List.find (\<lambda>c. socketFD c = fd) cs of
        None \<Rightarrow> Inr (s, cs)
      | Some c \<Rightarrow> bindE (workSocket proc s c) (\<lambda>(s1, r). Inr (s1, replaceConn fd r cs))))"

end
