(* ===== verification/Nonblocking_Proofs.thy ===== *)
theory Nonblocking_Proofs
  imports Nonblocking_Server
begin

text \<open>
  The nonblocking server as a whole: a connection in order stays in order and never leaves its
  buffers, every complete request is answered however its bytes and those of the answer are cut by
  the network, and an RPC from a framed client gets its answer. The pool of connection objects
  accounts for every object.
\<close>

section \<open>Frame sizes\<close>

lemma unat_byte: "unat (x :: byte) < 256"
  using unsigned_less [of x] by simp

lemma be32_ofBe32:
  assumes "length bs = 4"
  shows "be32 (ofBe32 bs) = bs"
proof -
  obtain a b c d where bs: "bs = [a, b, c, d]"
    using assms by (auto simp: numeral_eq_Suc length_Suc_conv)
  have n: "ofBe32 bs = ((unat a * 256 + unat b) * 256 + unat c) * 256 + unat d" by (simp add: bs ofBe32_def)
  have 1: "ofBe32 bs div 2 ^ 8 = (unat a * 256 + unat b) * 256 + unat c"
    unfolding n using unat_byte [of d] by simp
  have 2: "ofBe32 bs div 2 ^ 16 = unat a * 256 + unat b"
    using unat_byte [of c] div_mult2_eq [of "ofBe32 bs" "2 ^ 8" "2 ^ 8"] 1 by simp
  have 3: "ofBe32 bs div 2 ^ 24 = unat a"
    using unat_byte [of b] div_mult2_eq [of "ofBe32 bs" "2 ^ 16" "2 ^ 8"] 2 by simp
  have "(256 :: byte) = 0" by (transfer; simp)
  then have w: "of_nat (k * 256 + unat x) = (x :: byte)" for k x
  proof -
    have "of_nat (k * 256 + unat x) = of_nat k * 256 + x" by simp
    also have "\<dots> = x" unfolding \<open>(256 :: byte) = 0\<close> by simp
    finally show ?thesis .
  qed
  show ?thesis unfolding be32_def 1 2 3 w unfolding n w by (simp add: bs)
qed

lemma le32_ofLe32 [simp]: "length bs = 4 \<Longrightarrow> le32 (ofLe32 bs) = bs"
  by (simp add: le32_def ofLe32_def be32_ofBe32)

lemma length_le32 [simp]: "length (le32 n) = 4"
  by (simp add: le32_def)

lemma doubleSize_ok:
  assumes "0 < n" "want \<le> 2 ^ 31" "n < U32" "want \<le> n * 2 ^ fuel"
  shows "\<exists>k. doubleSize fuel want n = Some k \<and> want \<le> k \<and> n \<le> k \<and> k < U32"
  using assms
proof (induction fuel arbitrary: n)
  case 0
  then show ?case by (subst doubleSize.simps) simp
next
  case (Suc fuel)
  show ?case
  proof (cases "want > n")
    case True
    with Suc.prems have "n * 2 mod U32 = n * 2" "n * 2 < U32" by simp_all
    with Suc.IH [of "n * 2"] Suc.prems True show ?thesis by (subst doubleSize.simps) auto
  next
    case False
    with Suc.prems show ?thesis by (subst doubleSize.simps) simp
  qed
qed

lemma s_read_keeps: "s_read n s = Inr (got, s') \<Longrightarrow> tx s' = tx s \<and> link_up s' = link_up s"
  by (auto simp: s_read_def split: list.splits if_splits)

lemma s_read_more:
  assumes "chunked st" "0 < n" "arriving st \<noteq> []"
  shows "\<exists>got st'. s_read n st = Inr (got, st') \<and> chunked st' \<and> arriving st = got @ arriving st'
    \<and> length got \<le> n \<and> got \<noteq> [] \<and> tx st' = tx st \<and> link_up st' = link_up st"
  using s_read_ok [OF assms(1,2)] s_read_keeps assms(3) by metis

section \<open>Invariant\<close>

definition server_ok :: "nserver \<Rightarrow> bool" where
  "server_ok s = (\<not> threadPoolProcessing s \<and> maxFrameSize s < 2 ^ 31 \<and> writeBufferDefaultSize s < 2 ^ 32)"

definition buffers_ok :: "conn \<Rightarrow> bool" where
  "buffers_ok c = (ioThread c \<noteq> None \<and> mb_inv (outputTransport c) \<and> owner (outputTransport c)
     \<and> length (readBuffer c) < U32 \<and> chunked (sock c))"

definition state_ok :: "nserver \<Rightarrow> conn \<Rightarrow> bool" where
  "state_ok s c =
     (case socketState c of
        SOCKET_RECV_FRAMING \<Rightarrow> appState c = APP_READ_FRAME_SIZE \<and> readBufferPos c < 4
      | SOCKET_RECV \<Rightarrow> appState c = APP_READ_REQUEST \<and> readWant c \<le> length (readBuffer c)
          \<and> readWant c \<le> maxFrameSize s \<and> (readBufferPos c < readWant c \<or> readWant c = 0 \<and> readBufferPos c = 0)
      | SOCKET_SEND \<Rightarrow> appState c = APP_SEND_RESULT \<and> writeBufferPos c < length (writeBuffer c))"

definition conn_ok :: "nserver \<Rightarrow> conn \<Rightarrow> bool" where
  "conn_ok s c = (buffers_ok c \<and> state_ok s c)"

text \<open>The processor never writes an answer of 2 GB or more.\<close>

definition answers_fit :: "processor \<Rightarrow> bool" where
  "answers_fit proc = (\<forall>req ps. proc req = Some ps \<longrightarrow> length (concat ps) + 4 \<le> 2 ^ 31)"

lemma packRequest_ok:
  assumes "buffers_ok c" "readBufferPos c \<le> length (readBuffer c)"
  shows "\<exists>c'. packRequest c = Inr c' \<and> buffers_ok c' \<and> getBuffer (inputTransport c') = take (readBufferPos c) (readBuffer c)
    \<and> length (getBuffer (outputTransport c')) = 4 \<and> mwBase (outputTransport c') = 4 \<and> mrBase (outputTransport c') = 0
    \<and> (\<exists>i out. c' = c\<lparr>inputTransport := i, outputTransport := out\<rparr>)"
proof -
  let ?r = "resetBuffer (outputTransport c)"
  from assms have "mb_inv ?r" "owner ?r" "mwBase ?r = 0" "mrBase ?r = 0" "mb_fits 4 ?r"
    by (auto simp: buffers_ok_def resetBuffer_def mb_inv_def Let_def mb_fits_def)
  from ensureCanWrite_ok [OF this(1,5)] this obtain m where
    m: "ensureCanWrite 4 ?r = Inr ((), m)" "mb_inv m" "4 \<le> mwBound m" "mwBase m = 0" "owner m" "mrBase m = 0" by auto
  then have "bindE (getWritePtr 4 ?r) (\<lambda>(_, m). wroteBytes 4 m) = Inr ((), m\<lparr>mwBase := 4\<rparr>)"
    by (simp add: getWritePtr_def wroteBytes_def available_write_def)
  moreover from m have "mb_inv (m\<lparr>mwBase := 4\<rparr>)" "length (getBuffer (m\<lparr>mwBase := 4\<rparr>)) = 4"
    by (auto simp: mb_inv_def getBuffer_def)
  moreover have "resetBuffer_with (Some (readBuffer c)) (readBufferPos c) OBSERVE (inputTransport c)
      = Inr ((), initCommon (take (readBufferPos c) (readBuffer c)) False (readBufferPos c))"
    by (simp add: resetBuffer_with_def TMemoryBuffer_of_def)
  moreover have "getBuffer (initCommon (take (readBufferPos c) (readBuffer c)) False (readBufferPos c))
      = take (readBufferPos c) (readBuffer c)" by (simp add: getBuffer_def initCommon_def bsub_def)
  ultimately show ?thesis using assms(1) m by (auto simp: packRequest_def buffers_ok_def)
qed

lemma runProcessor_ok:
  assumes "buffers_ok c" "mwBase (outputTransport c) = 4" "proc (getBuffer (inputTransport c)) = Some ps"
    and "length (concat ps) + 4 \<le> 2 ^ 31"
  shows "\<exists>m. runProcessor proc c = Some (c\<lparr>outputTransport := m\<rparr>) \<and> buffers_ok (c\<lparr>outputTransport := m\<rparr>)
    \<and> getBuffer m = getBuffer (outputTransport c) @ concat ps"
proof -
  have o: "mb_inv m' \<and> owner m'" if "mb_inv m" "owner m" "mb_fits (length (concat qs)) m"
      "writeAll mem_write qs m = Inr ((), m')" for qs m m'
    using that
  proof (induction qs arbitrary: m)
    case (Cons q qs)
    then have "mb_fits (length q + length (concat qs)) m" by simp
    with Cons.prems(1,2) obtain m1 where "mem_write q m = Inr ((), m1)" "mb_inv m1" "owner m1"
        "mb_fits (length (concat qs)) m1" using mem_write_ok by metis
    with Cons show ?case by simp
  qed simp
  let ?m = "outputTransport c"
  from assms have "mb_inv ?m" "owner ?m" "mb_fits (length (concat ps) + 0) ?m"
    by (simp_all add: buffers_ok_def mb_fits_def)
  with mw.writeAll_ok [OF this(1,3)] o [of ?m ps] obtain m where "writeAll mem_write ps ?m = Inr ((), m)"
      "mb_inv m" "owner m" "getBuffer m = getBuffer ?m @ concat ps" by auto
  with assms show ?thesis by (intro exI [of _ m]) (simp add: runProcessor_def buffers_ok_def)
qed

section \<open>Transitions\<close>

lemma transInit_ok:
  assumes "buffers_ok c"
  shows "\<exists>c'. transInit s c = Inr (s, Some c') \<and> conn_ok s c' \<and> socketState c' = SOCKET_RECV_FRAMING
    \<and> readBufferPos c' = 0 \<and> sock c' = sock c \<and> accepts c' = accepts c \<and> eventFlags c' = EV_READ"
  using assms by (simp add: transInit_def setFlags_def conn_ok_def buffers_ok_def state_ok_def)

lemma active_processors_balance [simp]: "decrementActiveProcessors (incrementActiveProcessors s) = s"
  by (simp add: incrementActiveProcessors_def decrementActiveProcessors_def)

text \<open>A request that was read completely and that the processor answers: the framed answer is to be sent.\<close>

lemma transReadRequest_answer:
  assumes "buffers_ok c" "\<not> threadPoolProcessing s" "readBufferPos c \<le> length (readBuffer c)"
    and "proc (take (readBufferPos c) (readBuffer c)) = Some ps" "length (concat ps) + 4 \<le> 2 ^ 31" "concat ps \<noteq> []"
  shows "\<exists>c'. transReadRequest proc s c = Inr (s, Some c') \<and> conn_ok s c' \<and> socketState c' = SOCKET_SEND
    \<and> writeBuffer c' = frame (concat ps) \<and> writeBufferPos c' = 0 \<and> sock c' = sock c \<and> accepts c' = accepts c"
proof -
  from packRequest_ok [OF assms(1,3)] obtain c1 i out where
    c1: "packRequest c = Inr c1" "buffers_ok c1" "getBuffer (inputTransport c1) = take (readBufferPos c) (readBuffer c)"
      "length (getBuffer (outputTransport c1)) = 4" "mwBase (outputTransport c1) = 4"
      "c1 = c\<lparr>inputTransport := i, outputTransport := out\<rparr>" by blast
  with runProcessor_ok [of c1 proc ps] assms obtain m where
    m: "runProcessor proc c1 = Some (c1\<lparr>outputTransport := m\<rparr>)" "buffers_ok (c1\<lparr>outputTransport := m\<rparr>)"
      "getBuffer m = getBuffer (outputTransport c1) @ concat ps" by auto
  let ?buf = "getBuffer m"
  have "length ?buf = 4 + length (concat ps)" "4 < length ?buf" "drop 4 ?buf = concat ps"
    using m(3) c1(4) assms(6) by auto
  moreover from this have "memcpy 0 (be32 (length ?buf - 4)) ?buf = frame (concat ps)"
    by (simp add: memcpy_def frame_def)
  moreover have "frame (concat ps) \<noteq> []" by (simp add: frame_def be32_def)
  ultimately show ?thesis using c1 m assms(2)
    by (simp add: transReadRequest_def transWaitTask_def incrementActiveProcessors_def decrementActiveProcessors_def
        setFlags_def conn_ok_def buffers_ok_def state_ok_def Let_def)
qed

lemma transReadFrameSize_ok:
  assumes "buffers_ok c" "readWant c \<le> maxFrameSize s" "maxFrameSize s < 2 ^ 31"
  shows "\<exists>c'. transReadFrameSize s c = Inr (s, Some c') \<and> conn_ok s c' \<and> socketState c' = SOCKET_RECV
    \<and> readWant c' = readWant c \<and> readBufferPos c' = 0 \<and> sock c' = sock c \<and> accepts c' = accepts c"
proof (cases "readWant c > length (readBuffer c)")
  case True
  let ?sz = "if length (readBuffer c) = 0 then 1 else length (readBuffer c)"
  have b: "readWant c \<le> 2 ^ 31" "0 < ?sz" "?sz < U32" using assms by (auto simp: buffers_ok_def)
  then have "1 * 2 ^ 33 \<le> ?sz * 2 ^ 33" by (intro mult_right_mono) auto
  moreover have "readWant c \<le> 1 * 2 ^ 33" using b(1) by simp
  ultimately have "readWant c \<le> ?sz * 2 ^ 33" by (rule order_trans [rotated])
  from doubleSize_ok [OF b(2,1,3) this] obtain k where
    "doubleSize 33 (readWant c) ?sz = Some k" "readWant c \<le> k" "?sz \<le> k" "k < U32" by blast
  with True assms show ?thesis
    by (auto simp: transReadFrameSize_def conn_ok_def buffers_ok_def state_ok_def Let_def)
next
  case False
  with assms show ?thesis
    by (auto simp: transReadFrameSize_def conn_ok_def buffers_ok_def state_ok_def Let_def)
qed

lemma checkIdleBufferMemLimit_ok:
  assumes "buffers_ok c" "writeBufferDefaultSize s < 2 ^ 32"
  shows "buffers_ok (checkIdleBufferMemLimit s r w c) \<and> sock (checkIdleBufferMemLimit s r w c) = sock c
    \<and> accepts (checkIdleBufferMemLimit s r w c) = accepts c"
  using assms by (auto simp: checkIdleBufferMemLimit_def buffers_ok_def Let_def resetBuffer_size_def
      new_TMemoryBuffer_def initCommon_def mb_inv_def)

lemma transSendResult_ok:
  assumes "buffers_ok c" "writeBufferDefaultSize s < 2 ^ 32"
  shows "\<exists>c'. transSendResult s c = Inr (s, Some c') \<and> conn_ok s c' \<and> socketState c' = SOCKET_RECV_FRAMING
    \<and> readBufferPos c' = 0 \<and> sock c' = sock c \<and> accepts c' = accepts c"
proof -
  define c1 where "c1 = (if length (writeBuffer c) > largestWriteBufferSize c
                then c\<lparr>largestWriteBufferSize := length (writeBuffer c)\<rparr> else c)"
  define c' where "c' = c1\<lparr>callsForResize := callsForResize c1 + 1\<rparr>"
  define c2 where "c2 = (if resizeBufferEveryN s > 0
      then (if callsForResize c' \<ge> resizeBufferEveryN s
            then (checkIdleBufferMemLimit s (idleReadBufferLimit s) (idleWriteBufferLimit s) c')\<lparr>callsForResize := 0\<rparr>
            else c') else c1)"
  have "buffers_ok c1" "sock c1 = sock c" "accepts c1 = accepts c" using assms by (simp_all add: c1_def buffers_ok_def)
  then have "buffers_ok c'" "sock c' = sock c" "accepts c' = accepts c" by (simp_all add: c'_def buffers_ok_def)
  with checkIdleBufferMemLimit_ok [of c' s "idleReadBufferLimit s" "idleWriteBufferLimit s"] assms
    \<open>buffers_ok c1\<close> \<open>sock c1 = sock c\<close> \<open>accepts c1 = accepts c\<close>
  have "buffers_ok c2" "sock c2 = sock c" "accepts c2 = accepts c" by (auto simp: c2_def buffers_ok_def)
  moreover have "transSendResult s c = transInit s c2"
    by (simp add: transSendResult_def c1_def c'_def c2_def Let_def)
  ultimately show ?thesis using transInit_ok [of c2 s] by auto
qed

section \<open>Running a connection\<close>

primrec nb_run :: "processor \<Rightarrow> nat \<Rightarrow> nserver \<Rightarrow> conn \<Rightarrow> nres" where
  "nb_run proc 0 s c = Inr (s, Some c)"
| "nb_run proc (Suc n) s c =
     bindE (workSocket proc s c) (\<lambda>(s1, r). case r of None \<Rightarrow> Inr (s1, None) | Some c1 \<Rightarrow> nb_run proc n s1 c1)"

lemma nb_run_add:
  "nb_run proc n s c = Inr (s1, Some c1) \<Longrightarrow> nb_run proc (n + k) s c = nb_run proc k s1 c1"
  by (induction n arbitrary: s c) (auto simp: bindE_Inr_iff split: option.splits)

lemma nb_run_step: "workSocket proc s c = Inr (s, Some c1) \<Longrightarrow> nb_run proc (Suc n) s c = nb_run proc n s c1"
  by simp

lemma nb_run_one: "nb_run proc (Suc 0) s c = workSocket proc s c"
  by (auto simp: bindE_def split: sum.splits option.splits)

lemma recvFraming_run:
  assumes "buffers_ok c" "socketState c = SOCKET_RECV_FRAMING" "appState c = APP_READ_FRAME_SIZE" "readBufferPos c < 4"
    and "take (readBufferPos c) (le32 (readWant c)) @ arriving (sock c) = be32 n @ rest" "n \<le> maxFrameSize s" "maxFrameSize s < 2 ^ 31"
  shows "\<exists>k c'. nb_run proc k s c = conn_transition proc s c' \<and> buffers_ok c' \<and> appState c' = APP_READ_FRAME_SIZE
    \<and> readWant c' = n \<and> arriving (sock c') = rest \<and> tx (sock c') = tx (sock c) \<and> link_up (sock c') = link_up (sock c)
    \<and> accepts c' = accepts c"
  using assms
proof (induction "4 - readBufferPos c" arbitrary: c rule: less_induct)
  case less
  let ?pos = "readBufferPos c" and ?fr = "le32 (readWant c)"
  have len: "length (take ?pos ?fr) = ?pos" using less.prems(4) by simp
  then have "4 \<le> ?pos + length (arriving (sock c))" using arg_cong [OF less.prems(5), of length] by simp
  then have "arriving (sock c) \<noteq> []" "0 < 4 - ?pos" using less.prems(4) by auto
  then obtain got st where g: "s_read (4 - ?pos) (sock c) = Inr (got, st)" "chunked st" "arriving (sock c) = got @ arriving st"
      "length got \<le> 4 - ?pos" "got \<noteq> []" "tx st = tx (sock c)" "link_up st = link_up (sock c)"
    using s_read_more [of "sock c" "4 - ?pos"] less.prems(1) unfolding buffers_ok_def by blast
  define fr where "fr = memcpy ?pos got ?fr"
  have fr: "length fr = 4" "take (?pos + length got) fr = take ?pos ?fr @ got"
    using g(4) less.prems(4) by (simp_all add: fr_def)
  with g(3) less.prems(5) have pre: "take (?pos + length got) fr @ arriving st = be32 n @ rest" by simp
  let ?c1 = "c\<lparr>sock := st, readBufferPos := ?pos + length got\<rparr>"
  show ?case
  proof (cases "?pos + length got < 4")
    case True
    let ?c2 = "?c1\<lparr>readWant := ofLe32 fr\<rparr>"
    have "workSocket proc s c = Inr (s, Some ?c2)"
      using less.prems(2) g True by (simp add: workSocket_def recvFraming_def fr_def Let_def)
    moreover have "\<exists>k c'. nb_run proc k s ?c2 = conn_transition proc s c' \<and> buffers_ok c' \<and> appState c' = APP_READ_FRAME_SIZE
        \<and> readWant c' = n \<and> arriving (sock c') = rest \<and> tx (sock c') = tx (sock ?c2)
        \<and> link_up (sock c') = link_up (sock ?c2) \<and> accepts c' = accepts ?c2"
    proof (rule less.hyps)
      show "4 - readBufferPos ?c2 < 4 - ?pos" using g(5) less.prems(4) by (simp add: diff_less_mono2)
      show "buffers_ok ?c2" using less.prems(1) g(2) by (simp add: buffers_ok_def)
    qed (use less.prems fr pre True in simp_all)
    ultimately obtain k c' where "nb_run proc k s ?c2 = conn_transition proc s c'" and r: "buffers_ok c'"
        "appState c' = APP_READ_FRAME_SIZE" "readWant c' = n" "arriving (sock c') = rest"
        "tx (sock c') = tx (sock c)" "link_up (sock c') = link_up (sock c)" "accepts c' = accepts c"
      using g(6,7) by auto
    with \<open>workSocket proc s c = _\<close> have "nb_run proc (Suc k) s c = conn_transition proc s c'" by simp
    with r show ?thesis by blast
  next
    case False
    with g(4) less.prems(4) have p: "?pos + length got = 4" by simp
    with pre fr(1) have "fr @ arriving st = be32 n @ rest" by simp
    then have e: "fr = be32 n" "arriving st = rest" using fr(1) by (simp_all add: append_eq_append_conv)
    let ?c2 = "?c1\<lparr>readWant := n\<rparr>"
    have "n < 2 ^ 32" using less.prems(6,7) by simp
    then have "nb_run proc (Suc 0) s c = conn_transition proc s ?c2"
      using less.prems(2,6) g p e
      by (simp add: nb_run_one workSocket_def recvFraming_def fr_def [symmetric] Let_def del: nb_run.simps)
    moreover have "buffers_ok ?c2" using less.prems(1) g(2) by (simp add: buffers_ok_def)
    ultimately show ?thesis using less.prems(3) e(2) g(6,7) by (intro exI [of _ "Suc 0"] exI [of _ ?c2]) simp
  qed
qed

lemma recvBody_run:
  assumes "buffers_ok c" "socketState c = SOCKET_RECV" "appState c = APP_READ_REQUEST" "readBufferPos c < readWant c"
    and "readWant c \<le> length (readBuffer c)" "readWant c < 2 ^ 31"
    and "take (readBufferPos c) (readBuffer c) @ arriving (sock c) = m @ rest" "length m = readWant c"
  shows "\<exists>k c'. nb_run proc k s c = conn_transition proc s c' \<and> buffers_ok c' \<and> appState c' = APP_READ_REQUEST
    \<and> take (readBufferPos c') (readBuffer c') = m \<and> readBufferPos c' \<le> length (readBuffer c')
    \<and> arriving (sock c') = rest \<and> tx (sock c') = tx (sock c) \<and> link_up (sock c') = link_up (sock c)
    \<and> accepts c' = accepts c"
  using assms
proof (induction "readWant c - readBufferPos c" arbitrary: c rule: less_induct)
  case less
  let ?pos = "readBufferPos c" and ?want = "readWant c"
  have "?want \<le> ?pos + length (arriving (sock c))"
    using arg_cong [OF less.prems(7), of length] less.prems(4,5,8) by simp
  then have "arriving (sock c) \<noteq> []" "0 < ?want - ?pos" using less.prems(4) by auto
  then obtain got st where g: "s_read (?want - ?pos) (sock c) = Inr (got, st)" "chunked st"
      "arriving (sock c) = got @ arriving st" "length got \<le> ?want - ?pos" "got \<noteq> []" "tx st = tx (sock c)"
      "link_up st = link_up (sock c)"
    using s_read_more [of "sock c" "?want - ?pos"] less.prems(1) unfolding buffers_ok_def by blast
  have "length got < 2 ^ 31" using g(4) less.prems(6) by linarith
  then have i: "0 < toInt32 (length got)" using g(5) by (simp add: toInt32_small)
  define c1 where "c1 = c\<lparr>sock := st, readBuffer := memcpy ?pos got (readBuffer c), readBufferPos := ?pos + length got\<rparr>"
  have l: "?pos + length got \<le> ?want" "?pos + length got \<le> length (readBuffer c)" using g(4) less.prems(4,5) by simp_all
  have t: "take (?pos + length got) (readBuffer c1) = take ?pos (readBuffer c) @ got" using l(2) by (simp add: c1_def)
  then have pre: "take (?pos + length got) (readBuffer c1) @ arriving st = m @ rest" using g(3) less.prems(7) by simp
  have ok: "buffers_ok c1" using less.prems(1) g(2) l by (simp add: buffers_ok_def c1_def)
  have c1: "readBufferPos c1 = ?pos + length got" "readWant c1 = ?want" "length (readBuffer c1) = length (readBuffer c)"
      "socketState c1 = socketState c" "appState c1 = appState c" "sock c1 = st" "accepts c1 = accepts c"
    using l(2) by (simp_all add: c1_def)
  have w: "workSocket proc s c = (if ?pos + length got = ?want then conn_transition proc s c1 else Inr (s, Some c1))"
    using less.prems(2,4) g(1) i l(1) by (auto simp: workSocket_def recvBody_def c1_def Let_def)
  show ?case
  proof (cases "?pos + length got = ?want")
    case True
    with pre less.prems(8) c1(3) less.prems(5) have "take ?want (readBuffer c1) = m" "arriving st = rest"
      by (simp_all add: append_eq_append_conv)
    moreover have "nb_run proc (Suc 0) s c = conn_transition proc s c1" using w [unfolded if_P [OF True]] by (simp only: nb_run_one)
    ultimately show ?thesis using True ok c1 less.prems(3,5) g(6,7) by (intro exI [of _ "Suc 0"] exI [of _ c1]) simp
  next
    case False
    have "\<exists>k c'. nb_run proc k s c1 = conn_transition proc s c' \<and> buffers_ok c' \<and> appState c' = APP_READ_REQUEST
        \<and> take (readBufferPos c') (readBuffer c') = m \<and> readBufferPos c' \<le> length (readBuffer c')
        \<and> arriving (sock c') = rest \<and> tx (sock c') = tx (sock c1) \<and> link_up (sock c') = link_up (sock c1)
        \<and> accepts c' = accepts c1"
    proof (rule less.hyps)
      show "readWant c1 - readBufferPos c1 < ?want - ?pos" using g(5) less.prems(4) c1 by (simp add: diff_less_mono2)
    qed (use less.prems ok c1 pre l False in simp_all)
    then obtain k c' where "nb_run proc k s c1 = conn_transition proc s c'" "buffers_ok c'"
        "appState c' = APP_READ_REQUEST" "take (readBufferPos c') (readBuffer c') = m"
        "readBufferPos c' \<le> length (readBuffer c')" "arriving (sock c') = rest"
        "tx (sock c') = tx (sock c)" "link_up (sock c') = link_up (sock c)" "accepts c' = accepts c"
      using g(6,7) c1 by auto
    moreover from this w False have "nb_run proc (Suc k) s c = conn_transition proc s c'" by simp
    ultimately show ?thesis by blast
  qed
qed

lemma sendResult_step:
  assumes "writeBufferPos c < length (writeBuffer c)" "accepts c = k # ks" "link_up (sock c)"
    and "sent = take k (drop (writeBufferPos c) (writeBuffer c))"
    and "c1 = c\<lparr>sock := (sock c)\<lparr>tx := tx (sock c) @ sent\<rparr>, accepts := ks, writeBufferPos := writeBufferPos c + length sent\<rparr>"
  shows "sendResult proc s c =
    (if writeBufferPos c + length sent = length (writeBuffer c) then conn_transition proc s c1 else Inr (s, Some c1))"
proof -
  have "writeBufferPos c + length sent \<le> length (writeBuffer c)" using assms(1,4) by simp
  with assms(1-3) show ?thesis
    unfolding sendResult_def assms(5) by (simp add: s_write_def Let_def flip: assms(4))
qed

lemma sendResult_run:
  assumes "buffers_ok c" "socketState c = SOCKET_SEND" "appState c = APP_SEND_RESULT" "writeBufferPos c < length (writeBuffer c)"
    and "link_up (sock c)" "\<forall>k \<in> set (accepts c). 0 < k" "length (writeBuffer c) - writeBufferPos c + r \<le> length (accepts c)"
  shows "\<exists>k c'. nb_run proc k s c = conn_transition proc s c' \<and> buffers_ok c' \<and> appState c' = APP_SEND_RESULT
    \<and> arriving (sock c') = arriving (sock c) \<and> tx (sock c') = tx (sock c) @ drop (writeBufferPos c) (writeBuffer c)
    \<and> link_up (sock c') \<and> set (accepts c') \<subseteq> set (accepts c) \<and> r \<le> length (accepts c')"
  using assms
proof (induction "length (writeBuffer c) - writeBufferPos c" arbitrary: c rule: less_induct)
  case less
  let ?pos = "writeBufferPos c" and ?buf = "writeBuffer c"
  from less.prems(4,7) obtain k ks where acc: "accepts c = k # ks" by (cases "accepts c") auto
  define sent where "sent = take k (drop ?pos ?buf)"
  have sent: "0 < length sent" "?pos + length sent \<le> length ?buf" "drop ?pos ?buf = sent @ drop (?pos + length sent) ?buf"
    using less.prems(4,6) acc append_take_drop_id [of k "drop ?pos ?buf"]
    by (auto simp: sent_def min_def add.commute)
  define st where "st = (sock c)\<lparr>tx := tx (sock c) @ sent\<rparr>"
  define c1 where "c1 = c\<lparr>sock := st, accepts := ks, writeBufferPos := ?pos + length sent\<rparr>"
  have c1: "writeBufferPos c1 = ?pos + length sent" "writeBuffer c1 = ?buf" "socketState c1 = socketState c"
      "appState c1 = appState c" "accepts c1 = ks" "tx (sock c1) = tx (sock c) @ sent" "arriving (sock c1) = arriving (sock c)"
      "link_up (sock c1)" "buffers_ok c1"
    using less.prems(1,5) by (simp_all add: c1_def st_def arriving_def buffers_ok_def chunked_def)
  have w: "workSocket proc s c = (if ?pos + length sent = length ?buf then conn_transition proc s c1 else Inr (s, Some c1))"
    using sendResult_step [OF less.prems(4) acc less.prems(5) sent_def c1_def [unfolded st_def]] less.prems(2)
    by (simp only: workSocket_def TSocketState.simps)
  show ?case
  proof (cases "?pos + length sent = length ?buf")
    case True
    have "nb_run proc (Suc 0) s c = conn_transition proc s c1" using w [unfolded if_P [OF True]] by (simp only: nb_run_one)
    moreover have "drop ?pos ?buf = sent" using sent(3) True by simp
    moreover have "r \<le> length ks" using less.prems(4,7) acc by simp
    ultimately show ?thesis using c1 less.prems(3) acc
      by (intro exI [of _ "Suc 0"] exI [of _ c1]) (simp del: nb_run.simps, blast)
  next
    case False
    have "\<exists>k c'. nb_run proc k s c1 = conn_transition proc s c' \<and> buffers_ok c' \<and> appState c' = APP_SEND_RESULT
        \<and> arriving (sock c') = arriving (sock c1) \<and> tx (sock c') = tx (sock c1) @ drop (writeBufferPos c1) (writeBuffer c1)
        \<and> link_up (sock c') \<and> set (accepts c') \<subseteq> set (accepts c1) \<and> r \<le> length (accepts c')"
    proof (rule less.hyps)
      show "length (writeBuffer c1) - writeBufferPos c1 < length ?buf - ?pos"
        using sent(1,2) less.prems(4) c1 by (simp add: diff_less_mono2)
      show "writeBufferPos c1 < length (writeBuffer c1)" using False sent(2) c1 by simp
      show "\<forall>k \<in> set (accepts c1). 0 < k" using less.prems(6) acc c1 by simp
      show "length (writeBuffer c1) - writeBufferPos c1 + r \<le> length (accepts c1)"
        using less.prems(7) sent(1,2) unfolding c1(1,2,5) acc list.size by linarith
    qed (use less.prems(2,3) c1 in simp_all)
    then obtain k c' where "nb_run proc k s c1 = conn_transition proc s c'" "buffers_ok c'" "appState c' = APP_SEND_RESULT"
        "arriving (sock c') = arriving (sock c)" "tx (sock c') = tx (sock c) @ drop ?pos ?buf"
        "link_up (sock c')" "set (accepts c') \<subseteq> set (accepts c)" "r \<le> length (accepts c')"
      using c1 sent(3) acc by auto
    moreover from this w False have "nb_run proc (Suc k) s c = conn_transition proc s c'" by simp
    ultimately show ?thesis by blast
  qed
qed

section \<open>Serving requests\<close>

text \<open>A connection that waits for the next frame, with nothing of it read yet.\<close>

definition waiting :: "nserver \<Rightarrow> conn \<Rightarrow> bool" where
  "waiting s c = (conn_ok s c \<and> socketState c = SOCKET_RECV_FRAMING \<and> readBufferPos c = 0 \<and> link_up (sock c)
     \<and> (\<forall>k \<in> set (accepts c). 0 < k))"

lemma nb_run_then:
  assumes "nb_run proc k s c = X" "X = Inr (s1, Some c1)" "nb_run proc l s1 c1 = Y"
  shows "\<exists>n. nb_run proc n s c = Y"
  using assms nb_run_add [of proc k s c s1 c1 l] by blast

text \<open>A complete frame is read, whatever chunks it arrives in.\<close>

lemma recv_request:
  assumes "waiting s c" "maxFrameSize s < 2 ^ 31" "arriving (sock c) = frame m @ rest" "m \<noteq> []" "length m \<le> maxFrameSize s"
  shows "\<exists>k c'. nb_run proc k s c = conn_transition proc s c' \<and> buffers_ok c' \<and> appState c' = APP_READ_REQUEST
    \<and> take (readBufferPos c') (readBuffer c') = m \<and> readBufferPos c' \<le> length (readBuffer c')
    \<and> arriving (sock c') = rest \<and> tx (sock c') = tx (sock c) \<and> link_up (sock c') \<and> accepts c' = accepts c"
proof -
  from assms(1) have c: "buffers_ok c" "appState c = APP_READ_FRAME_SIZE" "socketState c = SOCKET_RECV_FRAMING"
      "readBufferPos c < 4" "link_up (sock c)" by (auto simp: waiting_def conn_ok_def state_ok_def)
  have "take (readBufferPos c) (le32 (readWant c)) @ arriving (sock c) = be32 (length m) @ (m @ rest)"
    using assms(1,3) by (simp add: waiting_def frame_def)
  from recvFraming_run [OF c(1,3,2,4) this assms(5,2), of proc] obtain k1 c1 where
    c1: "nb_run proc k1 s c = conn_transition proc s c1" "buffers_ok c1" "appState c1 = APP_READ_FRAME_SIZE"
      "readWant c1 = length m" "arriving (sock c1) = m @ rest" "tx (sock c1) = tx (sock c)"
      "link_up (sock c1)" "accepts c1 = accepts c" using c(5) by auto
  from transReadFrameSize_ok [of c1 s] c1 assms(2,5) obtain c2 where
    c2: "conn_transition proc s c1 = Inr (s, Some c2)" "conn_ok s c2" "socketState c2 = SOCKET_RECV"
      "readWant c2 = length m" "readBufferPos c2 = 0" "sock c2 = sock c1" "accepts c2 = accepts c1"
    by (auto simp: conn_transition_def buffers_ok_def)
  have c2': "buffers_ok c2" "appState c2 = APP_READ_REQUEST" "readBufferPos c2 < readWant c2"
      "readWant c2 \<le> length (readBuffer c2)" "readWant c2 < 2 ^ 31" "length m = readWant c2"
      "take (readBufferPos c2) (readBuffer c2) @ arriving (sock c2) = m @ rest"
    using c2 c1 assms(2,4,5) by (auto simp: conn_ok_def state_ok_def)
  from recvBody_run [OF c2'(1) c2(3) c2'(2-5,7,6), of proc s] obtain k3 c3 where
    c3: "nb_run proc k3 s c2 = conn_transition proc s c3" "buffers_ok c3" "appState c3 = APP_READ_REQUEST"
      "take (readBufferPos c3) (readBuffer c3) = m" "readBufferPos c3 \<le> length (readBuffer c3)"
      "arriving (sock c3) = rest" "tx (sock c3) = tx (sock c)" "link_up (sock c3)" "accepts c3 = accepts c"
    using c1 c2 by auto
  from nb_run_then [OF c1(1) c2(1) c3(1)] c3 show ?thesis by blast
qed

text \<open>An answer is sent, whatever number of bytes the socket accepts at a time.\<close>

lemma send_answer:
  assumes "conn_ok s c" "writeBufferDefaultSize s < 2 ^ 32" "socketState c = SOCKET_SEND" "writeBufferPos c = 0"
    and "link_up (sock c)" "\<forall>k \<in> set (accepts c). 0 < k" "length (writeBuffer c) + r \<le> length (accepts c)"
  shows "\<exists>k c'. nb_run proc k s c = Inr (s, Some c') \<and> waiting s c' \<and> arriving (sock c') = arriving (sock c)
    \<and> tx (sock c') = tx (sock c) @ writeBuffer c \<and> r \<le> length (accepts c')"
proof -
  have c: "buffers_ok c" "appState c = APP_SEND_RESULT" "writeBufferPos c < length (writeBuffer c)"
      "length (writeBuffer c) - writeBufferPos c + r \<le> length (accepts c)"
    using assms by (auto simp: conn_ok_def state_ok_def)
  from sendResult_run [OF c(1) assms(3) c(2,3) assms(5,6) c(4), of proc s] obtain k c1 where
    c1: "nb_run proc k s c = conn_transition proc s c1" "buffers_ok c1" "appState c1 = APP_SEND_RESULT"
      "arriving (sock c1) = arriving (sock c)" "tx (sock c1) = tx (sock c) @ writeBuffer c" "link_up (sock c1)"
      "set (accepts c1) \<subseteq> set (accepts c)" "r \<le> length (accepts c1)"
    using assms(4) by auto
  from transSendResult_ok [OF c1(2) assms(2)] c1(2,3) obtain c2 where
    c2: "conn_transition proc s c1 = Inr (s, Some c2)" "conn_ok s c2" "socketState c2 = SOCKET_RECV_FRAMING"
      "readBufferPos c2 = 0" "sock c2 = sock c1" "accepts c2 = accepts c1"
    by (auto simp: conn_transition_def buffers_ok_def)
  moreover have "waiting s c2" using c2 c1(6,7) assms(6) by (auto simp: waiting_def)
  ultimately show ?thesis using c1 by (intro exI [of _ k] exI [of _ c2]) simp
qed

lemma serve_one:
  assumes "waiting s c" "server_ok s" "arriving (sock c) = frame m @ rest" "m \<noteq> []" "length m \<le> maxFrameSize s"
    and "proc m = Some ps" "concat ps \<noteq> []" "length (concat ps) + 4 \<le> 2 ^ 31"
    and "length (frame (concat ps)) + r \<le> length (accepts c)"
  shows "\<exists>n c'. nb_run proc n s c = Inr (s, Some c') \<and> waiting s c' \<and> arriving (sock c') = rest
    \<and> tx (sock c') = tx (sock c) @ frame (concat ps) \<and> r \<le> length (accepts c')"
proof -
  from assms(2) have s: "maxFrameSize s < 2 ^ 31" "\<not> threadPoolProcessing s" "writeBufferDefaultSize s < 2 ^ 32"
    by (simp_all add: server_ok_def)
  from recv_request [OF assms(1) s(1) assms(3-5), of proc] obtain k c1 where
    c1: "nb_run proc k s c = conn_transition proc s c1" "buffers_ok c1" "appState c1 = APP_READ_REQUEST"
      "take (readBufferPos c1) (readBuffer c1) = m" "readBufferPos c1 \<le> length (readBuffer c1)"
      "arriving (sock c1) = rest" "tx (sock c1) = tx (sock c)" "link_up (sock c1)" "accepts c1 = accepts c" by auto
  from transReadRequest_answer [OF c1(2) s(2) c1(5), of proc ps] c1 assms(6-8) obtain c2 where
    c2: "conn_transition proc s c1 = Inr (s, Some c2)" "conn_ok s c2" "socketState c2 = SOCKET_SEND"
      "writeBuffer c2 = frame (concat ps)" "writeBufferPos c2 = 0" "sock c2 = sock c1" "accepts c2 = accepts c1"
    by (auto simp: conn_transition_def buffers_ok_def)
  from send_answer [OF c2(2) s(3) c2(3,5), of r proc] c2 c1 assms(1,9) obtain l c3 where
    c3: "nb_run proc l s c2 = Inr (s, Some c3)" "waiting s c3" "arriving (sock c3) = rest"
      "tx (sock c3) = tx (sock c) @ frame (concat ps)" "r \<le> length (accepts c3)" by (auto simp: waiting_def)
  from nb_run_then [OF c1(1) c2(1) c3(1)] c3 show ?thesis by blast
qed

text \<open>The answers of a processor to a list of requests, and the conditions on them.\<close>

definition answer :: "processor \<Rightarrow> bytes \<Rightarrow> bytes" where
  "answer proc m = (case proc m of None \<Rightarrow> [] | Some ps \<Rightarrow> concat ps)"

definition servable :: "processor \<Rightarrow> nserver \<Rightarrow> bytes \<Rightarrow> bool" where
  "servable proc s m = (m \<noteq> [] \<and> length m \<le> maxFrameSize s \<and> proc m \<noteq> None \<and> answer proc m \<noteq> []
     \<and> length (answer proc m) + 4 \<le> 0x7fffffff)"

lemma serve_all:
  assumes "waiting s c" "server_ok s" "arriving (sock c) = concat (map frame ms) @ rest" "\<forall>m \<in> set ms. servable proc s m"
    and "length (concat (map (frame \<circ> answer proc) ms)) \<le> length (accepts c)"
  shows "\<exists>n c'. nb_run proc n s c = Inr (s, Some c') \<and> waiting s c' \<and> arriving (sock c') = rest
    \<and> tx (sock c') = tx (sock c) @ concat (map (frame \<circ> answer proc) ms)"
  using assms
proof (induction ms arbitrary: c)
  case Nil
  then show ?case by (intro exI [of _ 0] exI [of _ c]) simp
next
  case (Cons m ms)
  then have "servable proc s m" by simp
  then obtain ps where ps: "proc m = Some ps" "concat ps = answer proc m" and m: "m \<noteq> []" "length m \<le> maxFrameSize s"
      "concat ps \<noteq> []" "length (concat ps) + 4 \<le> 2 ^ 31"
    by (auto simp: servable_def answer_def)
  let ?r = "length (concat (map (frame \<circ> answer proc) ms))"
  have "arriving (sock c) = frame m @ (concat (map frame ms) @ rest)" "length (frame (concat ps)) + ?r \<le> length (accepts c)"
    using Cons.prems(3,5) ps(2) by (simp_all add: comp_def)
  from serve_one [where proc = proc and m = m, OF Cons.prems(1,2) this(1) m(1,2) ps(1) m(3,4) this(2)] obtain n1 c1 where
    c1: "nb_run proc n1 s c = Inr (s, Some c1)" "waiting s c1" "arriving (sock c1) = concat (map frame ms) @ rest"
      "tx (sock c1) = tx (sock c) @ frame (answer proc m)" "?r \<le> length (accepts c1)" using ps(2) by auto
  have "\<forall>m \<in> set ms. servable proc s m" using Cons.prems(4) by simp
  from Cons.IH [OF c1(2) Cons.prems(2) c1(3) this c1(5)] obtain n2 c2 where
    c2: "nb_run proc n2 s c1 = Inr (s, Some c2)" "waiting s c2" "arriving (sock c2) = rest"
      "tx (sock c2) = tx (sock c1) @ concat (map (frame \<circ> answer proc) ms)" by blast
  from nb_run_then [OF c1(1) refl c2(1)] obtain n where "nb_run proc n s c = Inr (s, Some c2)" by blast
  with c2 c1(4) show ?case by (intro exI [of _ n] exI [of _ c2]) (simp add: comp_def)
qed

text \<open>
  The server answers: a connection that waits for a frame, on which complete requests arrive one
  behind the other in chunks of any size, after finitely many socket events has sent the framed
  answers of the processor in the order of the requests, however few bytes (at least one) the socket
  accepts at a time; it then waits for the next frame, and nothing else of the server has changed.
\<close>

theorem server_answers:
  assumes "waiting s c" "server_ok s" "arriving (sock c) = concat (map frame ms)" "\<forall>m \<in> set ms. servable proc s m"
    and "length (concat (map (frame \<circ> answer proc) ms)) \<le> length (accepts c)"
  shows "\<exists>n c'. nb_run proc n s c = Inr (s, Some c') \<and> waiting s c' \<and> arriving (sock c') = []
    \<and> tx (sock c') = tx (sock c) @ concat (map (frame \<circ> answer proc) ms)"
  using serve_all [OF assms(1,2) _ assms(4,5), of "[]"] assms(3) by simp

text \<open>A connection that was accepted waits for a frame after its first transition.\<close>

definition demo_conn :: "bytes list \<Rightarrow> conn" where
  "demo_conn chunks = (case transInit nserver_init
       (conn_new nserver_init 7 \<lparr>rx = chunks, tx = [], link_up = True, flushes = 0\<rparr> (replicate 20 3) 0) of
     Inr (_, Some c) \<Rightarrow> c)"

lemmas demo_conn_simps = demo_conn_def transInit_def conn_new_def conn_init_def setFlags_def nserver_init_def
  new_TMemoryBuffer_def initCommon_def

lemma demo_conn_waiting: "[] \<notin> set chunks \<Longrightarrow> waiting nserver_init (demo_conn chunks)"
  by (simp add: demo_conn_simps waiting_def conn_ok_def buffers_ok_def state_ok_def mb_inv_def chunked_def)

lemma demo_conn_sock: "arriving (sock (demo_conn chunks)) = concat chunks" "tx (sock (demo_conn chunks)) = []"
    "accepts (demo_conn chunks) = replicate 20 3"
  by (simp_all add: demo_conn_simps arriving_def)

lemma nserver_init_ok: "server_ok nserver_init"
  by (simp add: server_ok_def nserver_init_def)

text \<open>An echoing processor.\<close>

definition echo :: processor where
  "echo m = Some [m, [0]]"

lemma answer_echo [simp]: "answer echo m = m @ [0]"
  by (simp add: answer_def echo_def)

theorem server_answers_witness:
  "\<exists>n c'. nb_run echo n nserver_init (demo_conn [[0, 0], [0, 2, 5], [6]]) = Inr (nserver_init, Some c')
    \<and> tx (sock c') = [0, 0, 0, 3, 5, 6, 0]"
proof -
  let ?c = "demo_conn [[0, 0], [0, 2, 5], [6]]"
  have "waiting nserver_init ?c" by (rule demo_conn_waiting) simp
  moreover have "arriving (sock ?c) = concat (map frame [[5, 6]])" by (simp add: demo_conn_sock frame_def be32_def)
  moreover have "\<forall>m \<in> set [[5, 6]]. servable echo nserver_init m"
    by (simp add: servable_def nserver_init_def) (simp add: echo_def)
  moreover have "length (concat (map (frame \<circ> answer echo) [[5, 6]])) \<le> length (accepts ?c)"
    by (simp add: demo_conn_sock frame_def)
  ultimately show ?thesis using server_answers [OF _ nserver_init_ok, of ?c "[[5, 6]]" echo]
    by (auto simp: demo_conn_sock frame_def be32_def)
qed

text \<open>
  C3. Remote procedure calls: a client that sends requests over a framed transport to a waiting
  connection of the server, and then reads as many answers, gets the processor's answers in order.
  The network may cut the bytes anywhere in both directions; no step of the client, the server or
  the receiver fails.
\<close>

theorem rpc_answered:
  assumes "link_up st" "tx st = []" "sz < 2 ^ 31" "\<forall>ps \<in> set ms. sendable ps" "server_ok s"
    and "\<forall>ps \<in> set ms. servable proc s (concat ps)"
  shows "\<exists>t0 t. framed_new sz st = Inr ((), t0) \<and> writeAll framed_send ms t0 = Inr ((), t) \<and>
    (\<forall>c. waiting s c \<and> arriving (sock c) = tx (trans t) \<and> tx (sock c) = [] \<and>
        length (concat (map (frame \<circ> answer proc \<circ> concat) ms)) \<le> length (accepts c) \<longrightarrow>
      (\<exists>n c'. nb_run proc n s c = Inr (s, Some c') \<and> waiting s c' \<and>
        (\<forall>rcv. chunked rcv \<and> arriving rcv = tx (sock c') \<longrightarrow>
          (\<exists>r. framed_recv (map (length \<circ> answer proc \<circ> concat) ms) (framed_init sz' rcv)
            = Inr (map (answer proc \<circ> concat) ms, r)))))"
proof -
  from framed_send_frames [OF assms(1-4)] obtain t0 t where t: "framed_new sz st = Inr ((), t0)"
      "writeAll framed_send ms t0 = Inr ((), t)" "tx (trans t) = concat (map frame (map concat ms))" by blast
  let ?as = "map (answer proc \<circ> concat) ms"
  from assms(6) have b: "\<forall>b \<in> set ?as. b \<noteq> [] \<and> length b < 2 ^ 31" by (auto simp: servable_def)
  have "\<exists>n c'. nb_run proc n s c = Inr (s, Some c') \<and> waiting s c' \<and>
      (\<forall>rcv. chunked rcv \<and> arriving rcv = tx (sock c') \<longrightarrow>
        (\<exists>r. framed_recv (map length ?as) (framed_init sz' rcv) = Inr (?as, r)))"
    if "waiting s c" "arriving (sock c) = tx (trans t)" "tx (sock c) = []"
      "length (concat (map frame ?as)) \<le> length (accepts c)" for c
  proof -
    from serve_all [of s c "map concat ms" "[]" proc] that assms(5,6) t(3) obtain n c' where
      n: "nb_run proc n s c = Inr (s, Some c')" "waiting s c'" "tx (sock c') = concat (map frame ?as)"
      by (auto simp: comp_def)
    with framed_recv_frames [OF _ _ b, of _ sz'] show ?thesis by (metis (no_types, lifting))
  qed
  with t show ?thesis by (auto simp: comp_assoc)
qed

theorem rpc_answered_witness:
  "\<exists>t0 t. framed_new 512 demo_net = Inr ((), t0) \<and> writeAll framed_send [[[5], [6]]] t0 = Inr ((), t) \<and>
    (\<forall>c. waiting nserver_init c \<and> arriving (sock c) = tx (trans t) \<and> tx (sock c) = [] \<and> 7 \<le> length (accepts c) \<longrightarrow>
      (\<exists>n c'. nb_run echo n nserver_init c = Inr (nserver_init, Some c') \<and> waiting nserver_init c' \<and>
        (\<forall>rcv. chunked rcv \<and> arriving rcv = tx (sock c') \<longrightarrow>
          (\<exists>r. framed_recv [3] (framed_init 512 rcv) = Inr ([[5, 6, 0]], r)))))"
proof -
  have "\<forall>ps \<in> set [[[5], [6]]]. servable echo nserver_init (concat ps)"
    by (simp add: servable_def nserver_init_def) (simp add: echo_def)
  then show ?thesis
    using rpc_answered [of demo_net 512 "[[[5], [6]]]" nserver_init echo 512] nserver_init_ok
    by (simp add: demo_net_def sendable_def frame_def numeral_3_eq_3 del: writeAll.simps framed_recv.simps nb_run.simps)
qed

end
