(* ===== verification/Nonblocking_Safety.thy ===== *)
theory Nonblocking_Safety
  imports Nonblocking_Proofs
begin

text \<open>
  Safety of the nonblocking server: what a socket event can do to a connection in order, and the one
  request that ends the process; the accounting of the pool of connection objects.
\<close>

section \<open>Connections\<close>

text \<open>The outcome of a handler that a connection in order has: it stays in order or is closed.\<close>

definition good :: "nserver \<Rightarrow> nres \<Rightarrow> bool" where
  "good s r = (\<exists>s' r'. r = Inr (s', r') \<and> server_ok s' \<and> numActiveProcessors s' = numActiveProcessors s
     \<and> maxFrameSize s' = maxFrameSize s \<and> (\<forall>c'. r' = Some c' \<longrightarrow> conn_ok s' c'))"

lemma good_close: "server_ok s \<Longrightarrow> numActiveProcessors s = numActiveProcessors s0 \<Longrightarrow> maxFrameSize s = maxFrameSize s0
    \<Longrightarrow> good s0 (conn_close s c)"
  by (simp add: good_def conn_close_def returnConnection_def server_ok_def)

lemma good_some: "server_ok s \<Longrightarrow> conn_ok s c \<Longrightarrow> good s (Inr (s, Some c))"
  by (simp add: good_def)

lemma good_readRequest:
  assumes "buffers_ok c" "server_ok s" "readBufferPos c \<le> length (readBuffer c)" "answers_fit proc"
  shows "good s (transReadRequest proc s c)"
proof -
  from packRequest_ok [OF assms(1,3)] obtain c1 where
    c1: "packRequest c = Inr c1" "buffers_ok c1" "length (getBuffer (outputTransport c1)) = 4" "mwBase (outputTransport c1) = 4"
    by blast
  have np: "\<not> threadPoolProcessing (incrementActiveProcessors s)"
    using assms(2) by (simp add: server_ok_def incrementActiveProcessors_def)
  show ?thesis
  proof (cases "proc (getBuffer (inputTransport c1))")
    case None
    with c1 np assms(2) good_close [of s s c1] show ?thesis
      by (simp add: transReadRequest_def runProcessor_def Let_def)
  next
    case (Some ps)
    with assms(4) have "length (concat ps) + 4 \<le> 2 ^ 31" by (auto simp: answers_fit_def)
    from runProcessor_ok [of c1 proc, OF c1(2,4) Some this] obtain m where
      m: "runProcessor proc c1 = Some (c1\<lparr>outputTransport := m\<rparr>)" "buffers_ok (c1\<lparr>outputTransport := m\<rparr>)"
        "getBuffer m = getBuffer (outputTransport c1) @ concat ps" by blast
    let ?c2 = "c1\<lparr>outputTransport := m\<rparr>"
    have t: "transReadRequest proc s c = transWaitTask (incrementActiveProcessors s) ?c2"
      using c1(1) m(1) np by (simp add: transReadRequest_def Let_def)
    show ?thesis
    proof (cases "concat ps = []")
      case True
      then have "transReadRequest proc s c = transInit s ?c2"
        using t m(3) c1(3) by (simp add: transWaitTask_def Let_def)
      with transInit_ok [OF m(2), of s] assms(2) good_some show ?thesis by metis
    next
      case False
      with m(3) c1(3) have "4 < length (getBuffer m)" "getBuffer m \<noteq> []" by simp_all
      with t m(2) have "\<exists>c'. transReadRequest proc s c = Inr (s, Some c') \<and> conn_ok s c'"
        by (simp add: transWaitTask_def Let_def setFlags_def conn_ok_def buffers_ok_def state_ok_def)
      with assms(2) good_some show ?thesis by metis
    qed
  qed
qed

lemma good_recvFraming:
  assumes "server_ok s" "conn_ok s c" "socketState c = SOCKET_RECV_FRAMING"
  shows "good s (recvFraming proc s c)"
proof -
  from assms have c: "buffers_ok c" "appState c = APP_READ_FRAME_SIZE" "readBufferPos c < 4"
    by (auto simp: conn_ok_def state_ok_def)
  then obtain got st where g: "s_read (4 - readBufferPos c) (sock c) = Inr (got, st)" "chunked st"
      "length got \<le> 4 - readBufferPos c"
    using s_read_ok [of "sock c" "4 - readBufferPos c"] by (auto simp: buffers_ok_def)
  show ?thesis
  proof (cases "got = []")
    case True
    with g assms(1) good_close show ?thesis by (simp add: recvFraming_def)
  next
    case ne: False
    let ?c1 = "c\<lparr>sock := st, readBufferPos := readBufferPos c + length got\<rparr>"
    let ?fr = "memcpy (readBufferPos c) got (le32 (readWant c))"
    show ?thesis
    proof (cases "readBufferPos c + length got < 4")
      case True
      then have "recvFraming proc s c = Inr (s, Some (?c1\<lparr>readWant := ofLe32 ?fr\<rparr>))"
        using g ne by (simp add: recvFraming_def Let_def)
      moreover have "conn_ok s (?c1\<lparr>readWant := ofLe32 ?fr\<rparr>)"
        using assms(2,3) g(2) True by (simp add: conn_ok_def buffers_ok_def state_ok_def)
      ultimately show ?thesis using good_some [OF assms(1)] by simp
    next
      case False
      let ?c2 = "?c1\<lparr>readWant := ofBe32 ?fr\<rparr>"
      have ok: "buffers_ok ?c2" using c(1) g(2) by (simp add: buffers_ok_def)
      have r: "recvFraming proc s c = (if ofBe32 ?fr > maxFrameSize s then conn_close s ?c2 else conn_transition proc s ?c2)"
        using g ne False by (simp add: recvFraming_def Let_def)
      show ?thesis
      proof (cases "ofBe32 ?fr > maxFrameSize s")
        case True
        with r good_close [of s s] assms(1) show ?thesis by simp
      next
        case False
        then have "readWant ?c2 \<le> maxFrameSize s" by simp
        from transReadFrameSize_ok [OF ok this] assms(1) have
          "\<exists>c'. transReadFrameSize s ?c2 = Inr (s, Some c') \<and> conn_ok s c'" by (auto simp: server_ok_def)
        moreover have "recvFraming proc s c = transReadFrameSize s ?c2"
          using r False ok c(2) by (auto simp: conn_transition_def buffers_ok_def)
        ultimately show ?thesis using good_some [OF assms(1)] by metis
      qed
    qed
  qed
qed

lemma good_recvBody:
  assumes "server_ok s" "conn_ok s c" "socketState c = SOCKET_RECV" "readWant c \<noteq> 0" "answers_fit proc"
  shows "good s (recvBody proc s c)"
proof -
  from assms have c: "buffers_ok c" "appState c = APP_READ_REQUEST" "readBufferPos c < readWant c"
      "readWant c \<le> length (readBuffer c)" "readWant c \<le> maxFrameSize s" "maxFrameSize s < 2 ^ 31"
    by (auto simp: conn_ok_def state_ok_def server_ok_def)
  then obtain got st where g: "s_read (readWant c - readBufferPos c) (sock c) = Inr (got, st)" "chunked st"
      "length got \<le> readWant c - readBufferPos c"
    using s_read_ok [of "sock c" "readWant c - readBufferPos c"] by (auto simp: buffers_ok_def)
  then have "length got < 2 ^ 31" using c(5,6) by linarith
  then have i: "toInt32 (length got) = int (length got)" by (rule toInt32_small)
  show ?thesis
  proof (cases "got = []")
    case True
    with g c(3) assms(1) good_close i show ?thesis by (simp add: recvBody_def)
  next
    case False
    define c1 where "c1 = c\<lparr>sock := st, readBuffer := memcpy (readBufferPos c) got (readBuffer c),
      readBufferPos := readBufferPos c + length got\<rparr>"
    have l: "readBufferPos c + length got \<le> readWant c" "readBufferPos c + length got \<le> length (readBuffer c)"
      using g(3) c(3,4) by simp_all
    then have c1: "buffers_ok c1" "length (readBuffer c1) = length (readBuffer c)" "readWant c1 = readWant c"
        "readBufferPos c1 = readBufferPos c + length got" "appState c1 = appState c" "socketState c1 = socketState c"
      using c(1) g(2) by (simp_all add: c1_def buffers_ok_def)
    have "recvBody proc s c =
        (if \<not> readBufferPos c1 \<le> readWant c1 then Inl ASSERTION
         else if readBufferPos c1 = readWant c1 then conn_transition proc s c1 else Inr (s, Some c1))"
      using g(1) c(3) False i unfolding recvBody_def c1_def by (simp only: Let_def sum.case prod.case) simp
    then have r: "recvBody proc s c = (if readBufferPos c1 = readWant c1 then transReadRequest proc s c1 else Inr (s, Some c1))"
      using l(1) c1 c(2) by (auto simp: conn_transition_def buffers_ok_def)
    show ?thesis
    proof (cases "readBufferPos c1 = readWant c1")
      case True
      with r good_readRequest [OF c1(1) assms(1) _ assms(5)] c1 c(4) show ?thesis by simp
    next
      case False
      have "conn_ok s c1" using False l c c1 assms(3) by (simp add: conn_ok_def state_ok_def)
      with r False good_some [OF assms(1)] show ?thesis by simp
    qed
  qed
qed

lemma good_sendResult:
  assumes "server_ok s" "conn_ok s c" "socketState c = SOCKET_SEND"
  shows "good s (sendResult proc s c)"
proof -
  from assms have c: "buffers_ok c" "appState c = APP_SEND_RESULT" "writeBufferPos c < length (writeBuffer c)"
    by (auto simp: conn_ok_def state_ok_def)
  consider "accepts c = []" | k ks where "accepts c = k # ks" "\<not> link_up (sock c)" | k ks where "accepts c = k # ks" "link_up (sock c)"
    by (cases "accepts c") auto
  then show ?thesis
  proof cases
    case 1
    with c good_close assms(1) show ?thesis by (simp add: sendResult_def)
  next
    case (2 k ks)
    with c good_close assms(1) show ?thesis by (simp add: sendResult_def s_write_def Let_def)
  next
    case (3 k ks)
    define sent where "sent = take k (drop (writeBufferPos c) (writeBuffer c))"
    define c1 where "c1 = c\<lparr>sock := (sock c)\<lparr>tx := tx (sock c) @ sent\<rparr>, accepts := ks,
      writeBufferPos := writeBufferPos c + length sent\<rparr>"
    have ok: "buffers_ok c1" using c(1) by (simp add: c1_def buffers_ok_def chunked_def)
    note r = sendResult_step [OF c(3) 3 sent_def c1_def, of proc s]
    show ?thesis
    proof (cases "writeBufferPos c + length sent = length (writeBuffer c)")
      case True
      moreover have "conn_transition proc s c1 = transSendResult s c1"
        using ok c(2) by (auto simp: conn_transition_def buffers_ok_def c1_def)
      moreover have "\<exists>c'. transSendResult s c1 = Inr (s, Some c') \<and> conn_ok s c'"
        using transSendResult_ok [OF ok] assms(1) by (auto simp: server_ok_def)
      ultimately show ?thesis using r good_some [OF assms(1)] by metis
    next
      case False
      moreover have "length sent \<le> length (writeBuffer c) - writeBufferPos c" by (simp add: sent_def)
      ultimately have "conn_ok s c1" using ok c(2,3) assms(3) by (simp add: conn_ok_def state_ok_def c1_def)
      with False r good_some [OF assms(1)] show ?thesis by simp
    qed
  qed
qed

text \<open>
  C17. Safety of a connection: on a connection in order (its positions inside its buffers, its socket
  and application states matching), whatever bytes arrive, however few are accepted and whether or
  not the socket fails, a socket event leaves the connection in order or closes it, and the number
  of active processors is balanced. The one exception is a frame announced with length 0: the next
  event on its connection fails an assertion, which ends the server.
\<close>

theorem workSocket_safe:
  assumes "server_ok s" "conn_ok s c" "answers_fit proc"
  shows "if socketState c = SOCKET_RECV \<and> readWant c = 0 then workSocket proc s c = Inl ASSERTION
    else good s (workSocket proc s c)"
  using assms good_recvFraming [OF assms(1,2)] good_recvBody [OF assms(1,2) _ _ assms(3)] good_sendResult [OF assms(1,2)]
  by (cases "socketState c") (auto simp: workSocket_def recvBody_def)

definition short_echo :: processor where
  "short_echo m = (if length m \<le> 3 then echo m else None)"

theorem workSocket_safe_witness: "good nserver_init (workSocket short_echo nserver_init (demo_conn [[0, 0, 0], [9]]))"
proof -
  have "answers_fit short_echo" by (auto simp: answers_fit_def echo_def short_echo_def)
  moreover have "waiting nserver_init (demo_conn [[0, 0, 0], [9]])" by (rule demo_conn_waiting) simp
  ultimately show ?thesis
    using workSocket_safe [OF nserver_init_ok, of "demo_conn [[0, 0, 0], [9]]" short_echo]
    by (simp add: waiting_def)
qed

text \<open>
  C37. Any client can end the server: after the four bytes of an empty frame, however they are cut, the
  next socket event on the connection fails the assertion that there is something left to read.
\<close>

theorem empty_frame_aborts:
  assumes "waiting s c" "maxFrameSize s < 2 ^ 31" "arriving (sock c) = [0, 0, 0, 0] @ rest"
  shows "\<exists>n. nb_run proc n s c = Inl ASSERTION"
proof -
  from assms(1) have c: "buffers_ok c" "appState c = APP_READ_FRAME_SIZE" "socketState c = SOCKET_RECV_FRAMING"
      "readBufferPos c < 4" by (auto simp: waiting_def conn_ok_def state_ok_def)
  have "take (readBufferPos c) (le32 (readWant c)) @ arriving (sock c) = be32 0 @ rest"
    using assms(1,3) by (simp add: waiting_def be32_def)
  from recvFraming_run [OF c(1,3,2,4) this _ assms(2), of proc] obtain k c1 where
    c1: "nb_run proc k s c = conn_transition proc s c1" "buffers_ok c1" "appState c1 = APP_READ_FRAME_SIZE" "readWant c1 = 0"
    by auto
  from transReadFrameSize_ok [OF c1(2) _ assms(2)] c1 obtain c2 where
    c2: "conn_transition proc s c1 = Inr (s, Some c2)" "socketState c2 = SOCKET_RECV" "readWant c2 = 0"
    by (auto simp: conn_transition_def buffers_ok_def)
  then have "nb_run proc (Suc 0) s c2 = Inl ASSERTION" by (simp add: workSocket_def recvBody_def)
  from nb_run_then [OF c1(1) c2(1) this] show ?thesis .
qed

theorem empty_frame_aborts_witness:
  "\<exists>n. nb_run echo n nserver_init (demo_conn [[0, 0, 0, 0], [1]]) = Inl ASSERTION"
proof -
  have "waiting nserver_init (demo_conn [[0, 0, 0, 0], [1]])" by (rule demo_conn_waiting) simp
  then show ?thesis by (rule empty_frame_aborts [of _ _ "[1]"]) (simp_all add: demo_conn_sock nserver_init_def)
qed

section \<open>The pool of connection objects\<close>

text \<open>Every object is in use or on the stack, and the stack is within its limit.\<close>

definition pool_ok :: "nstate \<Rightarrow> bool" where
  "pool_ok x = (case x of (s, cs) \<Rightarrow>
     numTConnections s = length cs + length (connectionStack s)
     \<and> (connectionStackLimit s \<noteq> 0 \<longrightarrow> length (connectionStack s) \<le> connectionStackLimit s)
     \<and> distinct (map socketFD cs) \<and> nextIOThread s < numIOThreads s)"

text \<open>What a handler of one connection does to the counts of the pool.\<close>

definition pool_step :: "nserver \<Rightarrow> nat \<Rightarrow> nres \<Rightarrow> bool" where
  "pool_step s fd r = (case r of Inl _ \<Rightarrow> True | Inr (s', r') \<Rightarrow>
     connectionStackLimit s' = connectionStackLimit s \<and> nextIOThread s' = nextIOThread s \<and> numIOThreads s' = numIOThreads s
     \<and> (connectionStackLimit s \<noteq> 0 \<and> length (connectionStack s) \<le> connectionStackLimit s
          \<longrightarrow> length (connectionStack s') \<le> connectionStackLimit s)
     \<and> (case r' of
          Some c' \<Rightarrow> socketFD c' = fd \<and> numTConnections s' = numTConnections s
            \<and> length (connectionStack s') = length (connectionStack s)
        | None \<Rightarrow> 0 < numTConnections s \<longrightarrow>
            numTConnections s' + length (connectionStack s) + 1 = numTConnections s + length (connectionStack s')))"

lemma pool_step_counters [simp]:
  "pool_step (incrementActiveProcessors s) fd r = pool_step s fd r"
  "pool_step (decrementActiveProcessors s) fd r = pool_step s fd r"
  by (auto simp: pool_step_def incrementActiveProcessors_def decrementActiveProcessors_def split: sum.splits option.splits)

lemma pool_close: "pool_step s fd (conn_close s c)"
  by (auto simp: pool_step_def conn_close_def returnConnection_def)

lemma checkIdle_fd [simp]: "socketFD (checkIdleBufferMemLimit s r w c) = socketFD c"
  by (simp add: checkIdleBufferMemLimit_def Let_def)

lemma setFlags_fd [simp]: "socketFD (setFlags f c) = socketFD c"
  by (simp add: setFlags_def)

lemma pool_init: "socketFD c = fd \<Longrightarrow> pool_step s fd (transInit s c)"
  by (simp add: pool_step_def transInit_def)

lemma pool_sendResult: "socketFD c = fd \<Longrightarrow> pool_step s fd (transSendResult s c)"
  unfolding transSendResult_def Let_def by (rule pool_init) simp

lemma pool_some: "socketFD c = fd \<Longrightarrow> pool_step s fd (Inr (s, Some c))"
  by (simp add: pool_step_def)

lemma pool_waitTask:
  assumes "socketFD c = fd"
  shows "pool_step s fd (transWaitTask s c)"
proof -
  have "pool_step (decrementActiveProcessors s) fd (transWaitTask s c)"
    unfolding transWaitTask_def Let_def using assms
    by (auto intro!: pool_init pool_some simp del: pool_step_counters)
  then show ?thesis by simp
qed

lemma pool_dispatch: "socketFD c = fd \<Longrightarrow> pool_step s fd (dispatchTask s c)"
  using pool_close [of s fd "c\<lparr>appState := APP_WAIT_TASK\<rparr>"]
  by (auto simp: dispatchTask_def Let_def pool_step_def conn_close_def split: list.splits addTask_result.splits)

lemma pool_readRequest: "socketFD c = fd \<Longrightarrow> pool_step s fd (transReadRequest proc s c)"
proof (cases "packRequest c")
  case (Inr c1)
  assume "socketFD c = fd"
  with Inr have c1: "socketFD c1 = fd"
    by (auto simp: packRequest_def split: sum.splits prod.splits)
  have c2: "socketFD c2 = fd" if "runProcessor proc c1 = Some c2" for c2
    using that c1 by (auto simp: runProcessor_def split: option.splits sum.splits)
  let ?s = "incrementActiveProcessors s"
  have "pool_step ?s fd (transReadRequest proc s c)"
    using Inr pool_dispatch [OF c1, of ?s] pool_waitTask [OF c2, of _ ?s] pool_close [of s fd c1]
    by (auto simp: transReadRequest_def Let_def split: option.splits)
  then show ?thesis by simp
qed (simp add: transReadRequest_def pool_step_def)

lemma pool_readFrameSize: "socketFD c = fd \<Longrightarrow> pool_step s fd (transReadFrameSize s c)"
  by (auto simp: transReadFrameSize_def Let_def pool_step_def split: option.splits)

lemma pool_transition: "socketFD c = fd \<Longrightarrow> pool_step s fd (conn_transition proc s c)"
  using pool_readRequest pool_waitTask pool_sendResult pool_init pool_readFrameSize pool_close [of "decrementActiveProcessors s" fd c]
  by (cases "appState c") (auto simp: conn_transition_def pool_step_def [of _ _ "Inl _"])

lemma pool_workSocket:
  assumes "socketFD c = fd"
  shows "pool_step s fd (workSocket proc s c)"
proof -
  have inl: "pool_step s fd (Inl e)" for e by (simp add: pool_step_def)
  note rules = inl pool_some pool_close pool_transition assms
  show ?thesis
  proof (cases "socketState c")
    case SOCKET_RECV_FRAMING
    then show ?thesis by (auto simp: workSocket_def recvFraming_def Let_def intro!: rules split: sum.splits)
  next
    case SOCKET_RECV
    then show ?thesis by (auto simp: workSocket_def recvBody_def Let_def intro!: rules split: sum.splits)
  next
    case SOCKET_SEND
    then show ?thesis by (auto simp: workSocket_def sendResult_def Let_def intro!: rules split: sum.splits list.splits)
  qed
qed

section \<open>The server\<close>

text \<open>What can happen to the server: new clients with new descriptors, a socket event, notifications.\<close>

inductive nb_step :: "processor \<Rightarrow> nstate \<Rightarrow> nstate \<Rightarrow> bool" for proc where
  clients: "handleEvent proc cls x = Inr x' \<Longrightarrow> distinct (map cl_fd cls @ map socketFD (snd x)) \<Longrightarrow> nb_step proc x x'"
| event: "socketEvent proc fd x = Inr x' \<Longrightarrow> nb_step proc x x'"
| notification: "notifyHandler proc x = Inr x' \<Longrightarrow> nb_step proc x x'"

lemma replaceConn_notin: "fd \<notin> set (map socketFD cs) \<Longrightarrow> replaceConn fd r cs = cs"
  by (induction cs) (auto simp: replaceConn_def)

lemma replaceConn_fds:
  assumes "distinct (map socketFD cs)" "fd \<in> set (map socketFD cs)"
  shows "length (replaceConn fd (Some c') cs) = length cs"
    and "socketFD c' = fd \<Longrightarrow> map socketFD (replaceConn fd (Some c') cs) = map socketFD cs"
    and "length (replaceConn fd None cs) + 1 = length cs"
    and "map socketFD (replaceConn fd None cs) = remove1 fd (map socketFD cs)"
  using assms
proof (induction cs)
  case (Cons c cs)
  have *: "replaceConn fd r (c # cs) = (if socketFD c = fd then (case r of None \<Rightarrow> [] | Some c' \<Rightarrow> [c']) else [c]) @ replaceConn fd r cs" for r
    by (simp add: replaceConn_def)
  {
    case 1
    with Cons.IH(1) show ?case by (auto simp: * replaceConn_notin)
  next
    case 2
    with Cons.IH(2) show ?case by (auto simp: * replaceConn_notin)
  next
    case 3
    with Cons.IH(3) show ?case by (auto simp: * replaceConn_notin)
  next
    case 4
    with Cons.IH(4) show ?case by (auto simp: * replaceConn_notin)
  }
qed simp_all

lemma find_fd: "List.find (\<lambda>c. socketFD c = fd) cs = Some c \<Longrightarrow> socketFD c = fd \<and> fd \<in> set (map socketFD cs)"
  by (induction cs) (auto split: if_splits)

text \<open>A handler of one of the connections in use keeps the pool in order.\<close>

lemma pool_ok_replace:
  assumes "pool_ok (s, cs)" "List.find (\<lambda>c. socketFD c = fd) cs = Some c" "pool_step s fd (Inr (s', r))"
  shows "pool_ok (s', replaceConn fd r cs) \<and> set (map socketFD (replaceConn fd r cs)) \<subseteq> set (map socketFD cs)"
proof -
  from find_fd [OF assms(2)] have fd: "fd \<in> set (map socketFD cs)" by blast
  from assms(1) have d: "distinct (map socketFD cs)" by (simp add: pool_ok_def)
  from fd have "0 < length cs" by auto
  then show ?thesis
    using assms(1,3) replaceConn_fds [OF d fd] set_remove1_subset [of fd "map socketFD cs"]
    by (cases r) (auto simp: pool_ok_def pool_step_def)
qed

abbreviation fds :: "nstate \<Rightarrow> nat set" where
  "fds x \<equiv> set (map socketFD (snd x))"

lemma pool_ok_cong:
  assumes "pool_ok (s, cs)" "numTConnections s' = numTConnections s" "connectionStack s' = connectionStack s"
    "connectionStackLimit s' = connectionStackLimit s" "nextIOThread s' = nextIOThread s" "numIOThreads s' = numIOThreads s"
  shows "pool_ok (s', cs)"
  using assms by (simp add: pool_ok_def)

lemma pool_socketEvent:
  assumes "pool_ok x" "socketEvent proc fd x = Inr x'"
  shows "pool_ok x' \<and> fds x' \<subseteq> fds x"
proof (cases "List.find (\<lambda>c. socketFD c = fd) (snd x)")
  case None
  with assms show ?thesis by (auto simp: socketEvent_def split: prod.splits)
next
  case (Some c)
  with assms(2) obtain s' r where "workSocket proc (fst x) c = Inr (s', r)" "x' = (s', replaceConn fd r (snd x))"
    by (cases x) (auto simp: socketEvent_def bindE_Inr_iff)
  with Some assms(1) pool_workSocket [of c fd "fst x" proc] find_fd [OF Some] pool_ok_replace [of "fst x" "snd x" fd c s' r]
  show ?thesis by simp
qed

lemma pool_notifyLoop:
  assumes "pool_ok x" "notifyLoop proc fs x = Inr x'"
  shows "pool_ok x' \<and> fds x' \<subseteq> fds x"
  using assms
proof (induction fs arbitrary: x)
  case (Cons fd fs)
  then obtain c where c: "List.find (\<lambda>c. socketFD c = fd) (snd x) = Some c"
    by (auto split: option.splits)
  with Cons.prems(2) obtain s1 r where r: "conn_transition proc (fst x) c = Inr (s1, r)"
      "notifyLoop proc fs (s1, replaceConn fd r (snd x)) = Inr x'"
    by (auto simp: bindE_Inr_iff)
  from pool_transition [of c fd "fst x" proc] find_fd [OF c] r(1) pool_ok_replace [OF _ c, of "fst x" s1 r] Cons.prems(1)
  have "pool_ok (s1, replaceConn fd r (snd x))" "fds (s1, replaceConn fd r (snd x)) \<subseteq> fds x" by auto
  with Cons.IH [OF _ r(2)] show ?case by blast
qed simp

lemma pool_create:
  assumes "pool_ok (s, cs)" "createConnection fd st acc s = Inr (s1, c)" "fd \<notin> set (map socketFD cs)"
  shows "pool_ok (s1, c # cs) \<and> socketFD c = fd"
  using assms
  by (auto simp: pool_ok_def createConnection_def Let_def conn_new_def conn_init_def split: list.splits if_splits)

lemma pool_accept:
  assumes "pool_ok x" "acceptClient proc cl x = Inr (go, x')" "cl_fd cl \<notin> fds x"
  shows "pool_ok x' \<and> fds x' \<subseteq> insert (cl_fd cl) (fds x)"
proof (cases "cl_nonblock cl")
  case False
  with assms show ?thesis by (cases x) (auto simp: acceptClient_def)
next
  case True
  obtain s cs where x: "x = (s, cs)" by (cases x)
  with True assms(2) obtain s1 c where c: "createConnection (cl_fd cl) (cl_sock cl) (cl_accepts cl) s = Inr (s1, c)"
    by (auto simp: acceptClient_def bindE_Inr_iff)
  from pool_create [OF _ c] assms(1,3) x have p: "pool_ok (s1, c # cs)" "socketFD c = cl_fd cl" by auto
  show ?thesis
  proof (cases "ioThread c = Some 0")
    case th: True
    with True assms(2) x c obtain s2 r where r: "conn_transition proc s1 c = Inr (s2, r)"
        "x' = (s2, (case r of None \<Rightarrow> [] | Some c' \<Rightarrow> [c']) @ cs)"
      by (auto simp: acceptClient_def bindE_Inr_iff)
    have "replaceConn (cl_fd cl) r cs = cs" using assms(3) x by (intro replaceConn_notin) simp
    then have "x' = (s2, replaceConn (cl_fd cl) r (c # cs))" using r(2) p(2) by (simp add: replaceConn_def)
    moreover have "List.find (\<lambda>c. socketFD c = cl_fd cl) (c # cs) = Some c" using p(2) by simp
    ultimately show ?thesis
      using pool_ok_replace [of s1 "c # cs" "cl_fd cl" c s2 r] pool_transition [OF p(2), of s1 proc] r(1) p x by auto
  next
    case False
    with True assms(2) x c have "x' = (notifyIOThread (cl_fd cl) s1, c # cs)" by (auto simp: acceptClient_def)
    with p x pool_ok_cong [OF p(1), of "notifyIOThread (cl_fd cl) s1"] show ?thesis by (simp add: notifyIOThread_def)
  qed
qed

lemma pool_closeTask:
  assumes "pool_ok (s, cs)" "closeTask fd (s, cs) = Inr x'"
  shows "pool_ok x' \<and> fds x' = set (map socketFD cs)"
proof -
  from assms(2) obtain c where c: "List.find (\<lambda>c. socketFD c = fd) cs = Some c"
      "x' = (notifyIOThread fd s, replaceConn fd (Some (c\<lparr>appState := APP_CLOSE_CONNECTION\<rparr>)) cs)"
    by (auto simp: closeTask_def forceClose_def split: option.splits if_splits dest: find_fd)
  from find_fd [OF c(1)] assms(1) replaceConn_fds(1,2) [of cs fd "c\<lparr>appState := APP_CLOSE_CONNECTION\<rparr>"] c(2)
  show ?thesis by (auto simp: pool_ok_def notifyIOThread_def)
qed

lemma pool_drain:
  assumes "pool_ok (s, cs)" "drainPendingTask (s, cs) = Inr (go, x')"
  shows "pool_ok x' \<and> fds x' = set (map socketFD cs)"
proof (cases "threadPoolProcessing s \<and> pendingTasks s \<noteq> []")
  case True
  then obtain fd rest where "pendingTasks s = fd # rest" by (cases "pendingTasks s") auto
  with True assms(2) have "closeTask fd (s\<lparr>pendingTasks := rest\<rparr>, cs) = Inr x'"
    by (auto simp: drainPendingTask_def bindE_Inr_iff)
  moreover have "pool_ok (s\<lparr>pendingTasks := rest\<rparr>, cs)" using assms(1) by (simp add: pool_ok_def)
  ultimately show ?thesis using pool_closeTask by blast
next
  case False
  with assms show ?thesis by (auto simp: drainPendingTask_def split: if_splits list.splits)
qed

lemma pool_drop:
  assumes "pool_ok (s, cs)" "dropOrDrain (s, cs) = Inr (go, x')"
  shows "pool_ok x' \<and> fds x' = set (map socketFD cs)"
proof -
  let ?s = "s\<lparr>nConnectionsDropped := (nConnectionsDropped s + 1) mod U32,
    nTotalConnectionsDropped := (nTotalConnectionsDropped s + 1) mod 2 ^ 64\<rparr>"
  have p: "pool_ok (?s, cs)" using assms(1) by (simp add: pool_ok_def)
  show ?thesis
  proof (cases "overloadAction s = T_OVERLOAD_DRAIN_TASK_QUEUE")
    case True
    with assms(2) have "drainPendingTask (?s, cs) = Inr (go, x')" by (simp add: dropOrDrain_def Let_def)
    with pool_drain [OF p] show ?thesis by blast
  next
    case False
    with assms(2) have "x' = (?s, cs)" by (auto simp: dropOrDrain_def Let_def split: TOverloadAction.splits)
    with p show ?thesis by simp
  qed
qed

lemma pool_overloadCheck:
  assumes "pool_ok x" "overloadCheck x = Inr (go, x')"
  shows "pool_ok x' \<and> fds x' = fds x"
proof -
  obtain s cs where x: "x = (s, cs)" by (cases x)
  obtain over s1 where so: "serverOverloaded s = (over, s1)" by fastforce
  then have p: "pool_ok (s1, cs)" using assms(1) x by (auto simp: serverOverloaded_def pool_ok_def Let_def)
  show ?thesis
    using assms x so p pool_drop [OF p, of go x'] by (auto simp: overloadCheck_def split: if_splits)
qed

lemma pool_handleEvent:
  assumes "pool_ok x" "handleEvent proc cls x = Inr x'" "distinct (map cl_fd cls)" "set (map cl_fd cls) \<inter> fds x = {}"
  shows "pool_ok x'"
  using assms
proof (induction cls arbitrary: x)
  case (Cons cl cls)
  from Cons.prems(2) obtain go x1 where x1: "overloadCheck x = Inr (go, x1)"
    and h: "(if \<not> go then Inr x1 else bindE (acceptClient proc cl x1)
      (\<lambda>(go', x2). if go' then handleEvent proc cls x2 else Inr x2)) = Inr x'"
    by (auto simp: bindE_Inr_iff)
  from pool_overloadCheck [OF Cons.prems(1) x1] have p1: "pool_ok x1" "fds x1 = fds x" by auto
  show ?case
  proof (cases go)
    case False
    with h p1 show ?thesis by simp
  next
    case True
    with h obtain go' x2 where x2: "acceptClient proc cl x1 = Inr (go', x2)"
      and h2: "(if go' then handleEvent proc cls x2 else Inr x2) = Inr x'" by (auto simp: bindE_Inr_iff)
    have "cl_fd cl \<notin> fds x1" using Cons.prems(4) p1(2) by auto
    from pool_accept [OF p1(1) x2 this] p1(2) have p2: "pool_ok x2" "fds x2 \<subseteq> insert (cl_fd cl) (fds x)" by auto
    have "set (map cl_fd cls) \<inter> insert (cl_fd cl) (fds x) = {}" using Cons.prems(3,4) by auto
    with p2(2) have "set (map cl_fd cls) \<inter> fds x2 = {}" by blast
    with Cons.IH [OF p2(1)] Cons.prems(3) h2 p2(1) show ?thesis by (cases go') auto
  qed
qed simp

text \<open>
  C25. The pool accounts for every connection object: starting from a server without connections, after
  any clients, socket events and notifications (closings, refused requests and overload included),
  the objects created and not destroyed are exactly those in use and those on the stack, the stack
  never exceeds its limit, and no two connections in use share a descriptor.
\<close>

theorem pool_accounted:
  assumes "rtranclp (nb_step proc) (s0, []) x" "connectionStack s0 = []" "numTConnections s0 = 0"
    and "nextIOThread s0 < numIOThreads s0"
  shows "pool_ok x"
  using assms(1)
proof (induction rule: rtranclp_induct)
  case base
  then show ?case using assms(2-4) by (simp add: pool_ok_def)
next
  case (step x x')
  from step.hyps(2) step.IH show ?case
  proof (cases rule: nb_step.cases)
    case (clients cls)
    with pool_handleEvent [OF step.IH] show ?thesis by auto
  next
    case (event fd)
    with pool_socketEvent [OF step.IH] show ?thesis by blast
  next
    case notification
    then have "notifyLoop proc (notified (fst x)) ((fst x)\<lparr>notified := []\<rparr>, snd x) = Inr x'"
      by (cases x) (simp add: notifyHandler_def)
    moreover have "pool_ok ((fst x)\<lparr>notified := []\<rparr>, snd x)" using step.IH by (cases x) (simp add: pool_ok_def)
    ultimately show ?thesis using pool_notifyLoop by blast
  qed
qed

theorem pool_accounted_witness:
  "\<exists>x. rtranclp (nb_step echo) (nserver_init, []) x \<and> pool_ok x \<and> length (snd x) = 1"
proof -
  let ?cl = "\<lparr>cl_fd = 3, cl_sock = demo_net, cl_accepts = [], cl_nonblock = True\<rparr>"
  obtain x where x: "handleEvent echo [?cl] (nserver_init, []) = Inr x" "length (snd x) = 1"
    by (simp add: overloadCheck_def acceptClient_def createConnection_def conn_new_def conn_init_def nserver_init_def
        conn_transition_def transInit_def Let_def)
  then have "rtranclp (nb_step echo) (nserver_init, []) x"
    by (intro r_into_rtranclp nb_step.clients [of _ "[?cl]"]) simp_all
  moreover from pool_accounted [OF this] have "pool_ok x" by (simp add: nserver_init_def)
  ultimately show ?thesis using x(2) by blast
qed

text \<open>
  C38. A request that the thread manager does not take. If the manager is not started, the exception is
  caught and the connection closed, but the number of active processors stays one too high for good, and if the
  stack of unused connections is full, the object that was just destroyed is used once more. Every other exception of
  the manager leaves \<open>transition\<close> uncaught.
\<close>

theorem refused_task_leaks:
  assumes "threadPoolProcessing s" "addTask s \<noteq> TaskAdded" "buffers_ok c" "readBufferPos c \<le> length (readBuffer c)"
  shows "if addTask s = TaskOtherException then transReadRequest proc s c = Inl UNCAUGHT
    else if connectionStackLimit s \<noteq> 0 \<and> connectionStackLimit s \<le> length (connectionStack s)
    then transReadRequest proc s c = Inl USE_AFTER_FREE
    else (\<exists>s'. transReadRequest proc s c = Inr (s', None) \<and> numActiveProcessors s' = numActiveProcessors s + 1)"
proof -
  from packRequest_ok [OF assms(3,4)] obtain c1 where "packRequest c = Inr c1" by blast
  with assms(1,2) show ?thesis
    by (cases "addTask s") (auto simp: transReadRequest_def dispatchTask_def conn_close_def returnConnection_def
        incrementActiveProcessors_def Let_def split: list.splits)
qed

theorem refused_task_leaks_witness:
  "(\<exists>s'. transReadRequest echo (nserver_init\<lparr>threadPoolProcessing := True, addTask := TaskIllegalState\<rparr>) (demo_conn [])
     = Inr (s', None) \<and> numActiveProcessors s' = 1) \<and>
   transReadRequest echo (nserver_init\<lparr>threadPoolProcessing := True, addTask := TaskOtherException\<rparr>) (demo_conn []) = Inl UNCAUGHT"
proof -
  let ?s = "\<lambda>r. nserver_init\<lparr>threadPoolProcessing := True, addTask := r\<rparr>"
  have "buffers_ok (demo_conn [])" using demo_conn_waiting [of "[]"] by (simp add: waiting_def conn_ok_def)
  moreover have "readBufferPos (demo_conn []) = 0" by (simp add: demo_conn_simps)
  ultimately show ?thesis
    using refused_task_leaks [of "?s TaskIllegalState" "demo_conn []" echo] refused_task_leaks [of "?s TaskOtherException" "demo_conn []" echo]
    by (simp add: nserver_init_def)
qed

end
