(* ===== verification/Thrift_Binary.thy ===== *)
theory Thrift_Binary
  imports Thrift_Transport
begin

text \<open>
  \<open>TBinaryProtocol\<close>, in which requests and answers of the prototype are written (\<open>TBinaryProtocol.h\<close>,
  \<open>TBinaryProtocol.tcc\<close>), and \<open>skip\<close> of \<open>TProtocol.h\<close>. The transport is a template parameter of the class
  and an argument here: the four operations the protocol calls. Each operation returns the number of
  bytes it says it moved, in 32 bits. A type code is the byte read from the wire, which the code casts to
  the enumeration without a check. A \<open>double\<close> is its bit pattern. The operations at the ends of structs,
  fields, containers and messages do nothing and have no definition; allocations succeed.
\<close>

unbundle bit_operations_syntax

section \<open>State and results\<close>

record 's transport =
  t_readAll :: "nat \<Rightarrow> 's \<Rightarrow> (bytes, 's) tres"
  t_borrow :: "nat \<Rightarrow> 's \<Rightarrow> bytes option \<times> 's"
  t_consume :: "nat \<Rightarrow> 's \<Rightarrow> (unit, 's) tres"
  t_write :: "bytes \<Rightarrow> 's \<Rightarrow> (unit, 's) tres"

record 's tbinary =
  ptrans :: 's
  string_limit :: int
  container_limit :: int
  strict_read :: bool
  strict_write :: bool
  string_buf_size :: int

definition new_TBinaryProtocol :: "'s \<Rightarrow> 's tbinary" where
  "new_TBinaryProtocol t =
     \<lparr>ptrans = t, string_limit = 0, container_limit = 0, strict_read = False, strict_write = True,
      string_buf_size = 0\<rparr>"

definition new_TBinaryProtocol_with :: "'s \<Rightarrow> int \<Rightarrow> int \<Rightarrow> bool \<Rightarrow> bool \<Rightarrow> 's tbinary" where
  "new_TBinaryProtocol_with t sl cl sr sw =
     \<lparr>ptrans = t, string_limit = sl, container_limit = cl, strict_read = sr, strict_write = sw,
      string_buf_size = 0\<rparr>"

datatype pexc =
    Transport texn
  | BAD_VERSION
  | NEGATIVE_SIZE
  | SIZE_LIMIT
  | TOO_DEEP

type_synonym ('a, 's) pres = "(pexc \<times> 's) + ('a \<times> 's)"

definition onTrans :: "('s \<Rightarrow> ('a, 's) tres) \<Rightarrow> 's tbinary \<Rightarrow> ('a, 's tbinary) pres" where
  "onTrans f p =
     (case f (ptrans p) of
        Inl (e, s) \<Rightarrow> Inl (Transport e, p\<lparr>ptrans := s\<rparr>)
      | Inr (x, s) \<Rightarrow> Inr (x, p\<lparr>ptrans := s\<rparr>))"

type_synonym TType = "8 word"
type_synonym TMessageType = w32

abbreviation T_STOP :: TType where "T_STOP \<equiv> 0"
abbreviation T_BOOL :: TType where "T_BOOL \<equiv> 2"
abbreviation T_BYTE :: TType where "T_BYTE \<equiv> 3"
abbreviation T_DOUBLE :: TType where "T_DOUBLE \<equiv> 4"
abbreviation T_I16 :: TType where "T_I16 \<equiv> 6"
abbreviation T_I32 :: TType where "T_I32 \<equiv> 8"
abbreviation T_I64 :: TType where "T_I64 \<equiv> 10"
abbreviation T_STRING :: TType where "T_STRING \<equiv> 11"
abbreviation T_STRUCT :: TType where "T_STRUCT \<equiv> 12"
abbreviation T_MAP :: TType where "T_MAP \<equiv> 13"
abbreviation T_SET :: TType where "T_SET \<equiv> 14"
abbreviation T_LIST :: TType where "T_LIST \<equiv> 15"

abbreviation VERSION_MASK :: w32 where "VERSION_MASK \<equiv> 0xffff0000"
abbreviation VERSION_1 :: w32 where "VERSION_1 \<equiv> 0x80010000"

section \<open>Writing\<close>

text \<open>
  The bytes of an integer in memory after \<open>htons\<close>, \<open>htonl\<close> or \<open>htonll\<close>: most significant byte first, on
  either kind of machine. Reading back is \<open>ntohs\<close>, \<open>ntohl\<close> or \<open>ntohll\<close> of the union.
\<close>

definition netBytes :: "nat \<Rightarrow> 'a :: len word \<Rightarrow> bytes" where
  "netBytes n w = map (\<lambda>i. ucast (drop_bit (8 * i) w)) (rev [0..<n])"

definition ofNet :: "bytes \<Rightarrow> 'a :: len word" where
  "ofNet bs = foldl (\<lambda>w b. push_bit 8 w OR ucast b) 0 bs"

definition writeBytes :: "'s transport \<Rightarrow> bytes \<Rightarrow> 's tbinary \<Rightarrow> (w32, 's tbinary) pres" where
  "writeBytes tr bs p = bindE (onTrans (t_write tr bs) p) (\<lambda>(_, p1). Inr (of_nat (length bs), p1))"

text \<open>One call after the other, adding up the sizes they return.\<close>

definition andThen :: "('p \<Rightarrow> (w32, 'p) pres) \<Rightarrow> ('p \<Rightarrow> (w32, 'p) pres) \<Rightarrow> 'p \<Rightarrow> (w32, 'p) pres" where
  "andThen f g p = bindE (f p) (\<lambda>(n, p1). bindE (g p1) (\<lambda>(m, p2). Inr (n + m, p2)))"

definition writeByte :: "'s transport \<Rightarrow> 8 word \<Rightarrow> 's tbinary \<Rightarrow> (w32, 's tbinary) pres" where
  "writeByte tr b = writeBytes tr [b]"

definition writeBool :: "'s transport \<Rightarrow> bool \<Rightarrow> 's tbinary \<Rightarrow> (w32, 's tbinary) pres" where
  "writeBool tr v = writeBytes tr [if v then 1 else 0]"

definition writeI16 :: "'s transport \<Rightarrow> 16 word \<Rightarrow> 's tbinary \<Rightarrow> (w32, 's tbinary) pres" where
  "writeI16 tr i16 = writeBytes tr (netBytes 2 i16)"

definition writeI32 :: "'s transport \<Rightarrow> w32 \<Rightarrow> 's tbinary \<Rightarrow> (w32, 's tbinary) pres" where
  "writeI32 tr i32 = writeBytes tr (netBytes 4 i32)"

definition writeI64 :: "'s transport \<Rightarrow> 64 word \<Rightarrow> 's tbinary \<Rightarrow> (w32, 's tbinary) pres" where
  "writeI64 tr i64 = writeBytes tr (netBytes 8 i64)"

definition writeDouble :: "'s transport \<Rightarrow> 64 word \<Rightarrow> 's tbinary \<Rightarrow> (w32, 's tbinary) pres" where
  "writeDouble tr bits = writeBytes tr (netBytes 8 bits)"

definition writeString :: "'s transport \<Rightarrow> bytes \<Rightarrow> 's tbinary \<Rightarrow> (w32, 's tbinary) pres" where
  "writeString tr str p =
     (if length str > 0x7fffffff then Inl (SIZE_LIMIT, p)
      else if str \<noteq> [] then andThen (writeI32 tr (of_nat (length str))) (writeBytes tr str) p
      else writeI32 tr (of_nat (length str)) p)"

definition writeBinary :: "'s transport \<Rightarrow> bytes \<Rightarrow> 's tbinary \<Rightarrow> (w32, 's tbinary) pres" where
  "writeBinary tr str = writeString tr str"

definition writeMessageBegin ::
    "'s transport \<Rightarrow> bytes \<Rightarrow> TMessageType \<Rightarrow> w32 \<Rightarrow> 's tbinary \<Rightarrow> (w32, 's tbinary) pres" where
  "writeMessageBegin tr name messageType seqid p =
     (if strict_write p
      then andThen (writeI32 tr (VERSION_1 OR messageType)) (andThen (writeString tr name) (writeI32 tr seqid)) p
      else andThen (writeString tr name) (andThen (writeByte tr (ucast messageType)) (writeI32 tr seqid)) p)"

definition writeFieldBegin :: "'s transport \<Rightarrow> TType \<Rightarrow> 16 word \<Rightarrow> 's tbinary \<Rightarrow> (w32, 's tbinary) pres" where
  "writeFieldBegin tr fieldType fieldId = andThen (writeByte tr fieldType) (writeI16 tr fieldId)"

definition writeFieldStop :: "'s transport \<Rightarrow> 's tbinary \<Rightarrow> (w32, 's tbinary) pres" where
  "writeFieldStop tr = writeByte tr T_STOP"

definition writeMapBegin :: "'s transport \<Rightarrow> TType \<Rightarrow> TType \<Rightarrow> w32 \<Rightarrow> 's tbinary \<Rightarrow> (w32, 's tbinary) pres" where
  "writeMapBegin tr keyType valType sz =
     andThen (writeByte tr keyType) (andThen (writeByte tr valType) (writeI32 tr sz))"

definition writeListBegin :: "'s transport \<Rightarrow> TType \<Rightarrow> w32 \<Rightarrow> 's tbinary \<Rightarrow> (w32, 's tbinary) pres" where
  "writeListBegin tr elemType sz = andThen (writeByte tr elemType) (writeI32 tr sz)"

definition writeSetBegin :: "'s transport \<Rightarrow> TType \<Rightarrow> w32 \<Rightarrow> 's tbinary \<Rightarrow> (w32, 's tbinary) pres" where
  "writeSetBegin tr elemType sz = andThen (writeByte tr elemType) (writeI32 tr sz)"

section \<open>Reading\<close>

text \<open>A reading operation returns the value and the number of bytes it says it read.\<close>

definition readWord :: "'s transport \<Rightarrow> nat \<Rightarrow> 's tbinary \<Rightarrow> ('a :: len word \<times> w32, 's tbinary) pres" where
  "readWord tr n p = bindE (onTrans (t_readAll tr n) p) (\<lambda>(bs, p1). Inr ((ofNet bs, of_nat n), p1))"

definition readByte :: "'s transport \<Rightarrow> 's tbinary \<Rightarrow> (8 word \<times> w32, 's tbinary) pres" where
  "readByte tr = readWord tr 1"

definition readBool :: "'s transport \<Rightarrow> 's tbinary \<Rightarrow> (bool \<times> w32, 's tbinary) pres" where
  "readBool tr p = bindE (readByte tr p) (\<lambda>((b, n), p1). Inr ((b \<noteq> 0, n), p1))"

definition readI16 :: "'s transport \<Rightarrow> 's tbinary \<Rightarrow> (16 word \<times> w32, 's tbinary) pres" where
  "readI16 tr = readWord tr 2"

definition readI32 :: "'s transport \<Rightarrow> 's tbinary \<Rightarrow> (w32 \<times> w32, 's tbinary) pres" where
  "readI32 tr = readWord tr 4"

definition readI64 :: "'s transport \<Rightarrow> 's tbinary \<Rightarrow> (64 word \<times> w32, 's tbinary) pres" where
  "readI64 tr = readWord tr 8"

definition readDouble :: "'s transport \<Rightarrow> 's tbinary \<Rightarrow> (64 word \<times> w32, 's tbinary) pres" where
  "readDouble tr = readWord tr 8"

definition readStringBody :: "'s transport \<Rightarrow> w32 \<Rightarrow> 's tbinary \<Rightarrow> (bytes \<times> w32, 's tbinary) pres" where
  "readStringBody tr sz p =
     (if sint sz < 0 then Inl (NEGATIVE_SIZE, p)
      else if string_limit p > 0 \<and> sint sz > string_limit p then Inl (SIZE_LIMIT, p)
      else if sz = 0 then Inr (([], 0), p)
      else (case t_borrow tr (unat sz) (ptrans p) of
              (Some borrow_buf, s) \<Rightarrow>
                bindE (onTrans (t_consume tr (unat sz)) (p\<lparr>ptrans := s\<rparr>)) (\<lambda>(_, p1).
                Inr ((take (unat sz) borrow_buf, sz), p1))
            | (None, s) \<Rightarrow>
                (let p1 = (if sint sz > string_buf_size p then p\<lparr>ptrans := s, string_buf_size := sint sz\<rparr>
                           else p\<lparr>ptrans := s\<rparr>) in
                 bindE (onTrans (t_readAll tr (unat sz)) p1) (\<lambda>(bs, p2). Inr ((bs, sz), p2)))))"

definition readString :: "'s transport \<Rightarrow> 's tbinary \<Rightarrow> (bytes \<times> w32, 's tbinary) pres" where
  "readString tr p =
     bindE (readI32 tr p) (\<lambda>((sz, result), p1).
     bindE (readStringBody tr sz p1) (\<lambda>((str, n), p2). Inr ((str, result + n), p2)))"

definition readBinary :: "'s transport \<Rightarrow> 's tbinary \<Rightarrow> (bytes \<times> w32, 's tbinary) pres" where
  "readBinary tr = readString tr"

definition readMessageBegin ::
    "'s transport \<Rightarrow> 's tbinary \<Rightarrow> ((bytes \<times> TMessageType \<times> w32) \<times> w32, 's tbinary) pres" where
  "readMessageBegin tr p =
     bindE (readI32 tr p) (\<lambda>((sz, r1), p1).
     if sint sz < 0
     then if sz AND VERSION_MASK \<noteq> VERSION_1 then Inl (BAD_VERSION, p1)
          else bindE (readString tr p1) (\<lambda>((name, r2), p2).
               bindE (readI32 tr p2) (\<lambda>((seqid, r3), p3).
               Inr (((name, sz AND 0x000000ff, seqid), r1 + r2 + r3), p3)))
     else if strict_read p1 then Inl (BAD_VERSION, p1)
     else bindE (readStringBody tr sz p1) (\<lambda>((name, r2), p2).
          bindE (readByte tr p2) (\<lambda>((type, r3), p3).
          bindE (readI32 tr p3) (\<lambda>((seqid, r4), p4).
          Inr (((name, scast type, seqid), r1 + r2 + r3 + r4), p4)))))"

definition readFieldBegin :: "'s transport \<Rightarrow> 's tbinary \<Rightarrow> ((TType \<times> 16 word) \<times> w32, 's tbinary) pres" where
  "readFieldBegin tr p =
     bindE (readByte tr p) (\<lambda>((type, r1), p1).
     if type = T_STOP then Inr (((T_STOP, 0), r1), p1)
     else bindE (readI16 tr p1) (\<lambda>((fieldId, r2), p2). Inr (((type, fieldId), r1 + r2), p2)))"

definition checkSize :: "w32 \<Rightarrow> 's tbinary \<Rightarrow> (unit, 's tbinary) pres" where
  "checkSize sizei p =
     (if sint sizei < 0 then Inl (NEGATIVE_SIZE, p)
      else if container_limit p \<noteq> 0 \<and> sint sizei > container_limit p then Inl (SIZE_LIMIT, p)
      else Inr ((), p))"

definition readMapBegin :: "'s transport \<Rightarrow> 's tbinary \<Rightarrow> ((TType \<times> TType \<times> w32) \<times> w32, 's tbinary) pres" where
  "readMapBegin tr p =
     bindE (readByte tr p) (\<lambda>((k, r1), p1).
     bindE (readByte tr p1) (\<lambda>((v, r2), p2).
     bindE (readI32 tr p2) (\<lambda>((sizei, r3), p3).
     bindE (checkSize sizei p3) (\<lambda>(_, p4). Inr (((k, v, sizei), r1 + r2 + r3), p4)))))"

definition readListBegin :: "'s transport \<Rightarrow> 's tbinary \<Rightarrow> ((TType \<times> w32) \<times> w32, 's tbinary) pres" where
  "readListBegin tr p =
     bindE (readByte tr p) (\<lambda>((e, r1), p1).
     bindE (readI32 tr p1) (\<lambda>((sizei, r2), p2).
     bindE (checkSize sizei p2) (\<lambda>(_, p3). Inr (((e, sizei), r1 + r2), p3))))"

definition readSetBegin :: "'s transport \<Rightarrow> 's tbinary \<Rightarrow> ((TType \<times> w32) \<times> w32, 's tbinary) pres" where
  "readSetBegin tr p =
     bindE (readByte tr p) (\<lambda>((e, r1), p1).
     bindE (readI32 tr p1) (\<lambda>((sizei, r2), p2).
     bindE (checkSize sizei p2) (\<lambda>(_, p3). Inr (((e, sizei), r1 + r2), p3))))"

section \<open>Skipping\<close>

text \<open>
  A loop of \<open>n\<close> calls that adds up the sizes they return. \<open>skip\<close> calls itself for the parts of a value
  and goes round its loop for the fields of a struct; \<open>fuel\<close> bounds both, and running out is \<open>TOO_DEEP\<close>.
\<close>

primrec repeatE :: "nat \<Rightarrow> ('p \<Rightarrow> (w32, 'p) pres) \<Rightarrow> 'p \<Rightarrow> (w32, 'p) pres" where
  "repeatE 0 f p = Inr (0, p)"
| "repeatE (Suc n) f p = andThen f (repeatE n f) p"

definition valueOf :: "('a \<times> w32, 'p) pres \<Rightarrow> (w32, 'p) pres" where
  "valueOf r = bindE r (\<lambda>((_, n), p). Inr (n, p))"

fun skip :: "'s transport \<Rightarrow> nat \<Rightarrow> TType \<Rightarrow> 's tbinary \<Rightarrow> (w32, 's tbinary) pres"
  and skipFields :: "'s transport \<Rightarrow> nat \<Rightarrow> 's tbinary \<Rightarrow> (w32, 's tbinary) pres" where
  "skip tr 0 ty p = Inl (TOO_DEEP, p)"
| "skip tr (Suc f) ty p =
     (if ty = T_BOOL then valueOf (readBool tr p)
      else if ty = T_BYTE then valueOf (readByte tr p)
      else if ty = T_I16 then valueOf (readI16 tr p)
      else if ty = T_I32 then valueOf (readI32 tr p)
      else if ty = T_I64 then valueOf (readI64 tr p)
      else if ty = T_DOUBLE then valueOf (readDouble tr p)
      else if ty = T_STRING then valueOf (readBinary tr p)
      else if ty = T_STRUCT then skipFields tr f p
      else if ty = T_MAP
      then bindE (readMapBegin tr p) (\<lambda>(((keyType, valType, sz), r1), p1).
           bindE (repeatE (unat sz) (andThen (skip tr f keyType) (skip tr f valType)) p1) (\<lambda>(r2, p2).
           Inr (r1 + r2, p2)))
      else if ty = T_SET
      then bindE (readSetBegin tr p) (\<lambda>(((elemType, sz), r1), p1).
           bindE (repeatE (unat sz) (skip tr f elemType) p1) (\<lambda>(r2, p2). Inr (r1 + r2, p2)))
      else if ty = T_LIST
      then bindE (readListBegin tr p) (\<lambda>(((elemType, sz), r1), p1).
           bindE (repeatE (unat sz) (skip tr f elemType) p1) (\<lambda>(r2, p2). Inr (r1 + r2, p2)))
      else Inr (0, p))"
| "skipFields tr 0 p = Inl (TOO_DEEP, p)"
| "skipFields tr (Suc f) p =
     bindE (readFieldBegin tr p) (\<lambda>(((ftype, fid), r1), p1).
     if ftype = T_STOP then Inr (r1, p1)
     else bindE (andThen (skip tr f ftype) (skipFields tr f) p1) (\<lambda>(r2, p2). Inr (r1 + r2, p2)))"

declare skip.simps [simp del] skipFields.simps [simp del]

end
