(* ===== verification/Thrift_Wire.thy ===== *)
theory Thrift_Wire
  imports Thrift_Binary Thrift_Framing Thrift_Memory
begin

text \<open>
  The binary protocol over any transport that keeps its promises does what it does on a plain string of
  bytes (locale \<open>wire_transport\<close>, interpreted on the framed transport and on the memory buffer). On a
  string of bytes, values of every type are read back as they were written, \<open>skip\<close> passes over exactly
  one value, and it always comes to an end.
\<close>

section \<open>Integers on the wire\<close>

lemma netBytes_Suc: "netBytes (Suc n) w = netBytes n (drop_bit 8 w) @ [ucast w]"
proof -
  have "rev [0..<Suc n] = map Suc (rev [0..<n]) @ [0]"
    by (simp only: upt_conv_Cons zero_less_Suc map_Suc_upt [symmetric] rev.simps rev_map)
  then show ?thesis by (simp add: netBytes_def add.commute)
qed

lemma length_netBytes [simp]: "length (netBytes n w) = n"
  by (simp add: netBytes_def)

lemma ofNet_netBytes: "ofNet (netBytes n (w :: 'a :: len word)) = take_bit (8 * n) w"
proof (induction n arbitrary: w)
  case 0
  show ?case by (simp add: ofNet_def netBytes_def)
next
  case (Suc n)
  have "ofNet (netBytes (Suc n) w) = push_bit 8 (take_bit (8 * n) (drop_bit 8 w)) OR (ucast (ucast w :: 8 word) :: 'a word)"
    using Suc.IH [of "drop_bit 8 w"] by (simp add: netBytes_Suc ofNet_def)
  also have "\<dots> = take_bit (8 * Suc n) w"
    by (rule bit_word_eqI) (auto simp: bit_simps)
  finally show ?case .
qed

lemma ofNet_net [simp]: "LENGTH('a) \<le> 8 * n \<Longrightarrow> ofNet (netBytes n (w :: 'a :: len word)) = w"
  by (simp add: ofNet_netBytes take_bit_word_eq_self)

lemma ofNet_single [simp]: "ofNet [b :: 8 word] = b"
  by (simp add: ofNet_def)

lemma sint_size: "n < 2 ^ 31 \<Longrightarrow> sint (of_nat n :: w32) = int n"
  by (simp add: signed_of_nat signed_take_bit_int_eq_self)

lemma unat_size: "n < 2 ^ 31 \<Longrightarrow> unat (of_nat n :: w32) = n"
  by (simp add: unat_of_nat take_bit_nat_eq_self)

section \<open>Values\<close>

text \<open>
  What travels over the wire. \<open>readValue\<close> reads a value of any type with the operations of the protocol, as a
  caller that follows the type codes does; \<open>skip\<close> is what it does without keeping the value.
\<close>

datatype tval =
    VNone
  | VBool bool
  | VByte "8 word"
  | VI16 "16 word"
  | VI32 w32
  | VI64 "64 word"
  | VDouble "64 word"
  | VString bytes
  | VStruct "(16 word \<times> tval) list"
  | VMap TType TType "(tval \<times> tval) list"
  | VSet TType "tval list"
  | VList TType "tval list"

definition mapV :: "('a \<Rightarrow> 'b) \<Rightarrow> ('a \<times> w32, 'p) pres \<Rightarrow> ('b \<times> w32, 'p) pres" where
  "mapV h r = bindE r (\<lambda>((x, n), p). Inr ((h x, n), p))"

definition pairV :: "('p \<Rightarrow> ('a \<times> w32, 'p) pres) \<Rightarrow> ('p \<Rightarrow> ('b \<times> w32, 'p) pres) \<Rightarrow> 'p \<Rightarrow> (('a \<times> 'b) \<times> w32, 'p) pres" where
  "pairV f g p = bindE (f p) (\<lambda>((x, n), p1). bindE (g p1) (\<lambda>((y, m), p2). Inr (((x, y), n + m), p2)))"

primrec repeatV :: "nat \<Rightarrow> ('p \<Rightarrow> ('a \<times> w32, 'p) pres) \<Rightarrow> 'p \<Rightarrow> ('a list \<times> w32, 'p) pres" where
  "repeatV 0 f p = Inr (([], 0), p)"
| "repeatV (Suc n) f p = mapV (\<lambda>(x, xs). x # xs) (pairV f (repeatV n f) p)"

fun readValue :: "'s transport \<Rightarrow> nat \<Rightarrow> TType \<Rightarrow> 's tbinary \<Rightarrow> (tval \<times> w32, 's tbinary) pres"
  and readFields :: "'s transport \<Rightarrow> nat \<Rightarrow> 's tbinary \<Rightarrow> ((16 word \<times> tval) list \<times> w32, 's tbinary) pres" where
  "readValue tr 0 ty p = Inl (TOO_DEEP, p)"
| "readValue tr (Suc f) ty p =
     (if ty = T_BOOL then mapV VBool (readBool tr p)
      else if ty = T_BYTE then mapV VByte (readByte tr p)
      else if ty = T_I16 then mapV VI16 (readI16 tr p)
      else if ty = T_I32 then mapV VI32 (readI32 tr p)
      else if ty = T_I64 then mapV VI64 (readI64 tr p)
      else if ty = T_DOUBLE then mapV VDouble (readDouble tr p)
      else if ty = T_STRING then mapV VString (readBinary tr p)
      else if ty = T_STRUCT then mapV VStruct (readFields tr f p)
      else if ty = T_MAP
      then bindE (readMapBegin tr p) (\<lambda>(((k, v, sz), r1), p1).
           bindE (repeatV (unat sz) (pairV (readValue tr f k) (readValue tr f v)) p1) (\<lambda>((kvs, r2), p2).
           Inr ((VMap k v kvs, r1 + r2), p2)))
      else if ty = T_SET
      then bindE (readSetBegin tr p) (\<lambda>(((e, sz), r1), p1).
           bindE (repeatV (unat sz) (readValue tr f e) p1) (\<lambda>((vs, r2), p2). Inr ((VSet e vs, r1 + r2), p2)))
      else if ty = T_LIST
      then bindE (readListBegin tr p) (\<lambda>(((e, sz), r1), p1).
           bindE (repeatV (unat sz) (readValue tr f e) p1) (\<lambda>((vs, r2), p2). Inr ((VList e vs, r1 + r2), p2)))
      else Inr ((VNone, 0), p))"
| "readFields tr 0 p = Inl (TOO_DEEP, p)"
| "readFields tr (Suc f) p =
     bindE (readFieldBegin tr p) (\<lambda>(((ftype, fid), r1), p1).
     if ftype = T_STOP then Inr (([], r1), p1)
     else bindE (pairV (readValue tr f ftype) (readFields tr f) p1) (\<lambda>(((v, fs), r2), p2).
          Inr (((fid, v) # fs, r1 + r2), p2)))"

declare readValue.simps [simp del] readFields.simps [simp del]

lemma valueOf_mapV [simp]: "valueOf (mapV h r) = valueOf r"
  by (cases r) (auto simp: valueOf_def mapV_def)

lemma valueOf_pairV [simp]: "valueOf (pairV f g p) = andThen (\<lambda>p. valueOf (f p)) (\<lambda>p. valueOf (g p)) p"
  by (auto simp: valueOf_def pairV_def andThen_def bindE_def split: sum.split prod.split)

lemma valueOf_repeatV [simp]: "valueOf (repeatV n f p) = repeatE n (\<lambda>p. valueOf (f p)) p"
proof (induction n arbitrary: p)
  case (Suc n)
  have "(\<lambda>p. valueOf (repeatV n f p)) = repeatE n (\<lambda>p. valueOf (f p))" using Suc by blast
  then show ?case by simp
qed (simp add: valueOf_def)

lemma valueOf_simps [simp]: "valueOf (Inr ((x, n), p)) = Inr (n, p)" "valueOf (Inl e) = Inl e"
  by (simp_all add: valueOf_def)

lemma valueOf_bind: "valueOf (bindE r g) = bindE r (\<lambda>x. valueOf (g x))"
  by (cases r) (simp_all add: valueOf_def)

lemma bind_valueOf: "bindE (valueOf r) (\<lambda>(n, p). g n p) = bindE r (\<lambda>((_, n), p). g n p)"
  by (cases r) (auto simp: valueOf_def)

text \<open>Skipping is reading without keeping the value.\<close>

lemma skip_readValue_both:
  "skip tr f ty p = valueOf (readValue tr f ty p) \<and> skipFields tr f p = valueOf (readFields tr f p)"
proof (induction f arbitrary: ty p)
  case 0
  show ?case by (simp add: skip.simps skipFields.simps readValue.simps readFields.simps valueOf_def)
next
  case (Suc f)
  have e: "skip tr f ty = (\<lambda>p. valueOf (readValue tr f ty p))" "skipFields tr f = (\<lambda>p. valueOf (readFields tr f p))" for ty
    using Suc by blast+
  have b: "valueOf (bindE (repeatV n h p1) (\<lambda>((x, r2), p2). Inr ((g x, r1 + r2), p2)))
      = bindE (repeatE n (\<lambda>p. valueOf (h p)) p1) (\<lambda>(r2, p2). Inr (r1 + r2, p2))"
    for n r1 p1 and h :: "'s tbinary \<Rightarrow> ('c \<times> w32, 's tbinary) pres" and g :: "'c list \<Rightarrow> tval"
    by (simp only: valueOf_repeatV [symmetric] bind_valueOf) (auto simp: valueOf_def bindE_def split: sum.split)
  have "skipFields tr (Suc f) p = valueOf (readFields tr (Suc f) p)"
    unfolding skipFields.simps readFields.simps e valueOf_bind valueOf_pairV [symmetric] bind_valueOf
    by (rule arg_cong [of _ _ "bindE _"]) (auto simp: valueOf_def bindE_def split: sum.split)
  moreover have "skip tr (Suc f) ty p = valueOf (readValue tr (Suc f) ty p)"
    unfolding skip.simps readValue.simps e
    by (cases "readMapBegin tr p"; cases "readSetBegin tr p"; cases "readListBegin tr p") (auto simp: b)
  ultimately show ?case by blast
qed

lemmas skip_readValue = skip_readValue_both [THEN conjunct1]

section \<open>Transports\<close>

text \<open>A string of bytes as a transport.\<close>

definition listT :: "bytes transport" where
  "listT =
     \<lparr>t_readAll = \<lambda>n s. if n \<le> length s then Inr (take n s, drop n s) else Inl (END_OF_FILE, []),
      t_borrow = \<lambda>n s. (None, s), t_consume = \<lambda>n s. Inr ((), drop n s), t_write = \<lambda>bs s. Inr ((), s @ bs)\<rparr>"

lemma listT_simps [simp]:
  "t_readAll listT n s = (if n \<le> length s then Inr (take n s, drop n s) else Inl (END_OF_FILE, []))"
  "t_borrow listT n s = (None, s)" "t_consume listT n s = Inr ((), drop n s)" "t_write listT bs s = Inr ((), s @ bs)"
  by (simp_all add: listT_def)

text \<open>Two runs of the protocol that see the same bytes and have the same settings, and results in step.\<close>

definition in_step :: "('s \<Rightarrow> bool) \<Rightarrow> ('s \<Rightarrow> bytes) \<Rightarrow> 's tbinary \<Rightarrow> bytes tbinary \<Rightarrow> bool" where
  "in_step rinv inc p q \<longleftrightarrow> rinv (ptrans p) \<and> ptrans q = inc (ptrans p) \<and> string_limit p = string_limit q \<and>
     container_limit p = container_limit q \<and> strict_read p = strict_read q"

definition agree :: "('p \<Rightarrow> 'q \<Rightarrow> bool) \<Rightarrow> ('a, 'p) pres \<Rightarrow> ('a, 'q) pres \<Rightarrow> bool" where
  "agree R = rel_sum (rel_prod (=) R) (rel_prod (=) R)"

lemma agree_Inr [simp]: "agree R (Inr (x, p)) (Inr (y, q)) \<longleftrightarrow> x = y \<and> R p q"
  by (simp add: agree_def)

lemma agree_Inl [simp]: "agree R (Inl (d, p)) (Inl (e, q)) \<longleftrightarrow> d = e \<and> R p q"
  by (simp add: agree_def)

lemma agreeD:
  assumes "agree R r r'"
  shows "(\<exists>e p q. r = Inl (e, p) \<and> r' = Inl (e, q) \<and> R p q) \<or> (\<exists>x p q. r = Inr (x, p) \<and> r' = Inr (x, q) \<and> R p q)"
  using assms by (cases r; cases r') (auto simp: agree_def)

lemma agree_bind:
  assumes "agree R r r'" "\<And>x p q. R p q \<Longrightarrow> agree R (f (x, p)) (g (x, q))"
  shows "agree R (bindE r f) (bindE r' g)"
  using agreeD [OF assms(1)] assms(2) by auto

lemma agree_bindV:
  assumes "agree R r r'" "\<And>x n p q. R p q \<Longrightarrow> agree R (f x n p) (g x n q)"
  shows "agree R (bindE r (\<lambda>((x, n), p). f x n p)) (bindE r' (\<lambda>((x, n), p). g x n p))"
  by (rule agree_bind [OF assms(1)]) (auto intro: assms(2))

lemma agree_mapV: "agree R r r' \<Longrightarrow> agree R (mapV h r) (mapV h r')"
  unfolding mapV_def by (erule agree_bind) auto

lemma agree_pairV:
  assumes "R p q" "\<And>p q. R p q \<Longrightarrow> agree R (f p) (f' q)" "\<And>p q. R p q \<Longrightarrow> agree R (g p) (g' q)"
  shows "agree R (pairV f g p) (pairV f' g' q)"
  unfolding pairV_def by (intro agree_bind assms) (clarsimp, intro agree_bind assms, auto)

lemma agree_repeatV:
  assumes "R p q" "\<And>p q. R p q \<Longrightarrow> agree R (f p) (f' q)"
  shows "agree R (repeatV n f p) (repeatV n f' q)"
  using assms(1)
proof (induction n arbitrary: p q)
  case (Suc n)
  then show ?case by (auto intro!: agree_mapV agree_pairV assms(2))
qed simp

locale wire_transport =
  fixes rinv :: "'s \<Rightarrow> bool"
    and inc :: "'s \<Rightarrow> bytes"
    and tr :: "'s transport"
  assumes readAll_ok: "rinv s \<Longrightarrow> n \<le> length (inc s) \<Longrightarrow>
      \<exists>s'. t_readAll tr n s = Inr (take n (inc s), s') \<and> rinv s' \<and> inc s' = drop n (inc s)"
    and readAll_eof: "rinv s \<Longrightarrow> length (inc s) < n \<Longrightarrow>
      \<exists>s'. t_readAll tr n s = Inl (END_OF_FILE, s') \<and> rinv s' \<and> inc s' = []"
    and borrow_ok: "rinv s \<Longrightarrow> t_borrow tr n s = (b, s') \<Longrightarrow> rinv s' \<and> inc s' = inc s \<and>
      (case b of None \<Rightarrow> True | Some bs \<Rightarrow> n \<le> length (inc s) \<and> take n bs = take n (inc s) \<and>
         (\<exists>s2. t_consume tr n s' = Inr ((), s2) \<and> rinv s2 \<and> inc s2 = drop n (inc s)))"
begin

lemma onTrans_readAll:
  assumes "in_step rinv inc p q"
  shows "agree (in_step rinv inc) (onTrans (t_readAll tr n) p) (onTrans (t_readAll listT n) q)"
proof (cases "n \<le> length (inc (ptrans p))")
  case True
  with assms readAll_ok [of "ptrans p" n] show ?thesis by (auto simp: onTrans_def in_step_def)
next
  case False
  with assms readAll_eof [of "ptrans p" n] show ?thesis by (auto simp: onTrans_def in_step_def)
qed

lemma readWord_wire:
  "in_step rinv inc p q \<Longrightarrow> agree (in_step rinv inc) (readWord tr n p) (readWord listT n q)"
  unfolding readWord_def by (rule agree_bind [OF onTrans_readAll]) auto

lemma readBool_wire: "in_step rinv inc p q \<Longrightarrow> agree (in_step rinv inc) (readBool tr p) (readBool listT q)"
  unfolding readBool_def readByte_def by (rule agree_bind [OF readWord_wire]) auto

lemma readStringBody_wire:
  assumes "in_step rinv inc p q"
  shows "agree (in_step rinv inc) (readStringBody tr sz p) (readStringBody listT sz q)"
proof -
  obtain b s where b: "t_borrow tr (unat sz) (ptrans p) = (b, s)" by (cases "t_borrow tr (unat sz) (ptrans p)")
  have r: "rinv (ptrans p)" "inc (ptrans p) = ptrans q" "string_limit p = string_limit q"
    using assms by (simp_all add: in_step_def)
  note bo = borrow_ok [OF r(1) b]
  show ?thesis
  proof (cases b)
    case (Some bs)
    with bo obtain s2 where "t_consume tr (unat sz) s = Inr ((), s2)" "rinv s2" "inc s2 = drop (unat sz) (ptrans q)"
      "unat sz \<le> length (ptrans q)" "take (unat sz) bs = take (unat sz) (ptrans q)" using r(2) by auto
    with Some b r assms show ?thesis
      by (auto simp: readStringBody_def onTrans_def in_step_def Let_def)
  next
    case None
    define p1 where "p1 = (if sint sz > string_buf_size p then p\<lparr>ptrans := s, string_buf_size := sint sz\<rparr> else p\<lparr>ptrans := s\<rparr>)"
    define q1 where "q1 = (if sint sz > string_buf_size q
        then q\<lparr>ptrans := ptrans q, string_buf_size := sint sz\<rparr> else q\<lparr>ptrans := ptrans q\<rparr>)"
    have "in_step rinv inc p1 q1" using None b bo r assms by (simp add: in_step_def p1_def q1_def)
    from agree_bind [OF onTrans_readAll [OF this, of "unat sz"], of "\<lambda>(bs, p2). Inr ((bs, sz), p2)" "\<lambda>(bs, p2). Inr ((bs, sz), p2)"]
    have "agree (in_step rinv inc) (bindE (onTrans (t_readAll tr (unat sz)) p1) (\<lambda>(bs, p2). Inr ((bs, sz), p2)))
        (bindE (onTrans (t_readAll listT (unat sz)) q1) (\<lambda>(bs, p2). Inr ((bs, sz), p2)))" by simp
    moreover have "readStringBody tr sz p =
        (if sint sz < 0 then Inl (NEGATIVE_SIZE, p)
         else if string_limit q > 0 \<and> sint sz > string_limit q then Inl (SIZE_LIMIT, p)
         else if sz = 0 then Inr (([], 0), p)
         else bindE (onTrans (t_readAll tr (unat sz)) p1) (\<lambda>(bs, p2). Inr ((bs, sz), p2)))"
      using None b r by (simp only: readStringBody_def Let_def p1_def prod.case option.case)
    moreover have "readStringBody listT sz q =
        (if sint sz < 0 then Inl (NEGATIVE_SIZE, q)
         else if string_limit q > 0 \<and> sint sz > string_limit q then Inl (SIZE_LIMIT, q)
         else if sz = 0 then Inr (([], 0), q)
         else bindE (onTrans (t_readAll listT (unat sz)) q1) (\<lambda>(bs, p2). Inr ((bs, sz), p2)))"
      by (simp only: readStringBody_def Let_def q1_def prod.case option.case listT_simps)
    ultimately show ?thesis using assms by (simp only: agree_Inl agree_Inr split: if_split) auto
  qed
qed

lemma readString_wire: "in_step rinv inc p q \<Longrightarrow> agree (in_step rinv inc) (readString tr p) (readString listT q)"
  unfolding readString_def readI32_def
  by (rule agree_bind [OF readWord_wire], assumption) (auto intro!: agree_bind [OF readStringBody_wire])

lemma wire_words:
  assumes "in_step rinv inc p q"
  shows "agree (in_step rinv inc) (readByte tr p) (readByte listT q)"
    and "agree (in_step rinv inc) (readI16 tr p) (readI16 listT q)"
    and "agree (in_step rinv inc) (readI32 tr p) (readI32 listT q)"
    and "agree (in_step rinv inc) (readI64 tr p) (readI64 listT q)"
    and "agree (in_step rinv inc) (readDouble tr p) (readDouble listT q)"
    and "agree (in_step rinv inc) (readBinary tr p) (readBinary listT q)"
  using assms by (simp_all add: readByte_def readI16_def readI32_def readI64_def readDouble_def readBinary_def
      readWord_wire readString_wire)

lemma checkSize_wire:
  "in_step rinv inc p q \<Longrightarrow> agree (in_step rinv inc) (checkSize sz p) (checkSize sz q)"
  by (auto simp: checkSize_def in_step_def)

lemma wire_headers:
  assumes "in_step rinv inc p q"
  shows "agree (in_step rinv inc) (readFieldBegin tr p) (readFieldBegin listT q)"
    and "agree (in_step rinv inc) (readListBegin tr p) (readListBegin listT q)"
    and "agree (in_step rinv inc) (readSetBegin tr p) (readSetBegin listT q)"
    and "agree (in_step rinv inc) (readMapBegin tr p) (readMapBegin listT q)"
  unfolding readFieldBegin_def readListBegin_def readSetBegin_def readMapBegin_def
  using assms by (auto intro!: agree_bindV wire_words agree_bind [OF checkSize_wire])

lemma readMessageBegin_wire:
  assumes "in_step rinv inc p q"
  shows "agree (in_step rinv inc) (readMessageBegin tr p) (readMessageBegin listT q)"
proof -
  have s: "strict_read p1 = strict_read q1" if "in_step rinv inc p1 q1" for p1 q1
    using that by (simp add: in_step_def)
  show ?thesis unfolding readMessageBegin_def
    by (rule agree_bindV [OF wire_words(3) [OF assms]])
      (auto simp: s intro!: agree_bindV wire_words readString_wire readStringBody_wire)
qed

lemma readValue_wire:
  assumes "in_step rinv inc p q"
  shows "agree (in_step rinv inc) (readValue tr f ty p) (readValue listT f ty q) \<and>
    agree (in_step rinv inc) (readFields tr f p) (readFields listT f q)"
  using assms
proof (induction f arbitrary: ty p q)
  case 0
  then show ?case by (simp add: readValue.simps readFields.simps)
next
  case (Suc f)
  then show ?case unfolding readValue.simps readFields.simps
    by (auto intro!: agree_mapV agree_bindV agree_pairV agree_repeatV wire_words wire_headers readBool_wire)
qed

lemma skip_wire:
  "in_step rinv inc p q \<Longrightarrow> agree (in_step rinv inc) (skip tr f ty p) (skip listT f ty q)"
  using readValue_wire [of p q f ty] unfolding skip_readValue valueOf_def by (auto intro!: agree_bindV)

end

text \<open>The transports of the two sides of a connection.\<close>

definition framedT :: "tbuf transport" where
  "framedT =
     \<lparr>t_readAll = bb_readAll framed_readSlow, t_borrow = bb_borrow framed_borrowSlow, t_consume = bb_consume,
      t_write = bb_write framed_writeSlow\<rparr>"

definition memoryT :: "mbuf transport" where
  "memoryT = \<lparr>t_readAll = mem_readAll, t_borrow = mem_borrow, t_consume = mem_consume, t_write = mem_write\<rparr>"

lemma transport_simps [simp]:
  "t_readAll framedT = bb_readAll framed_readSlow" "t_borrow framedT = bb_borrow framed_borrowSlow"
  "t_consume framedT = bb_consume" "t_write framedT = bb_write framed_writeSlow"
  "t_readAll memoryT = mem_readAll" "t_borrow memoryT = mem_borrow"
  "t_consume memoryT = mem_consume" "t_write memoryT = mem_write"
  by (simp_all add: framedT_def memoryT_def)

lemma framed_readAll_eof:
  assumes "fr_inv t" "length (fr_inc t) < n"
  shows "\<exists>t'. bb_readAll framed_readSlow n t = Inl (END_OF_FILE, t') \<and> fr_inv t' \<and> fr_inc t' = []"
proof -
  have "\<not> rBase t + n \<le> rBound t" using assms by (auto simp: fr_inc_def fr_inv_def)
  with fr.readAll_eof [OF assms] show ?thesis by (simp add: bb_readAll_def)
qed

lemma framed_borrow_ok:
  assumes "fr_inv t" "bb_borrow framed_borrowSlow n t = (b, t')"
  shows "fr_inv t' \<and> fr_inc t' = fr_inc t \<and>
    (case b of None \<Rightarrow> True | Some bs \<Rightarrow> n \<le> length (fr_inc t) \<and> take n bs = take n (fr_inc t) \<and>
       (\<exists>t2. bb_consume n t' = Inr ((), t2) \<and> fr_inv t2 \<and> fr_inc t2 = drop n (fr_inc t)))"
proof (cases "n \<le> rBound t - rBase t")
  case True
  with assms have "rBase t + n \<le> rBound t" "rBound t \<le> length (rBuf t)" by (auto simp: fr_inv_def)
  with True assms bb_read_buffered(2,3) [of t n] show ?thesis
    by (auto simp: bb_borrow_def bb_consume_def fr_inv_def fr_inc_def)
next
  case False
  with assms show ?thesis by (auto simp: bb_borrow_def framed_borrowSlow_def)
qed

interpretation framed_wire: wire_transport fr_inv fr_inc framedT
  by unfold_locales (unfold transport_simps, fact framed_readAll_ok, fact framed_readAll_eof, fact framed_borrow_ok)

lemma mem_readAll_cases:
  assumes "mb_inv m"
  shows "n \<le> length (getBuffer m) \<Longrightarrow>
      \<exists>m'. mem_readAll n m = Inr (take n (getBuffer m), m') \<and> mb_inv m' \<and> getBuffer m' = drop n (getBuffer m)"
    and "length (getBuffer m) < n \<Longrightarrow> \<exists>m'. mem_readAll n m = Inl (END_OF_FILE, m') \<and> mb_inv m' \<and> getBuffer m' = []"
proof -
  have fast: "mem_readAll n m = mem_read n m" if "mrBase m + n \<le> mrBound m"
    using that by (simp add: mem_readAll_def mem_read_def)
  have slow: "mem_readAll n m = readAll mem_read n m" if "\<not> mrBase m + n \<le> mrBound m"
    using that by (simp add: mem_readAll_def)
  show "n \<le> length (getBuffer m) \<Longrightarrow>
      \<exists>m'. mem_readAll n m = Inr (take n (getBuffer m), m') \<and> mb_inv m' \<and> getBuffer m' = drop n (getBuffer m)"
    using fast slow mem_read_ok [OF assms, of n] mr.readAll_ok [OF assms, of n]
    by (cases "mrBase m + n \<le> mrBound m") auto
  assume l: "length (getBuffer m) < n"
  moreover have "length (getBuffer m) = mwBase m - mrBase m"
    using assms by (auto simp: mb_inv_def getBuffer_def)
  ultimately have "\<not> mrBase m + n \<le> mrBound m" using assms by (auto simp: mb_inv_def)
  with slow mr.readAll_eof [OF assms l]
  show "\<exists>m'. mem_readAll n m = Inl (END_OF_FILE, m') \<and> mb_inv m' \<and> getBuffer m' = []" by simp
qed

lemma mem_borrow_ok:
  assumes "mb_inv m" "mem_borrow n m = (b, m')"
  shows "mb_inv m' \<and> getBuffer m' = getBuffer m \<and>
    (case b of None \<Rightarrow> True | Some bs \<Rightarrow> n \<le> length (getBuffer m) \<and> take n bs = take n (getBuffer m) \<and>
       (\<exists>m2. mem_consume n m' = Inr ((), m2) \<and> mb_inv m2 \<and> getBuffer m2 = drop n (getBuffer m)))"
  using assms
  by (auto simp: mem_borrow_def mem_consume_def mb_inv_def getBuffer_def bsub_def available_read_def Let_def drop_take
      diff_diff_add add.commute min_def split: if_splits)

interpretation memory_wire: wire_transport mb_inv getBuffer memoryT
  by unfold_locales (unfold transport_simps, fact mem_readAll_cases(1), fact mem_readAll_cases(2), fact mem_borrow_ok)

end
