(* ===== verification/Thrift_Messages.thy ===== *)
theory Thrift_Messages
  imports Thrift_Wire
begin

text \<open>
  The wire format: the bytes of a value, that they are what the writing operations produce and what the
  reading operations take back, and the ends \<open>skip\<close> can come to on bytes that nobody vouches for. With
  the framed transport below, a message arrives at the other side as it was sent.
\<close>

section \<open>The format\<close>

fun ttype :: "tval \<Rightarrow> TType" where
  "ttype VNone = 1"
| "ttype (VBool b) = T_BOOL"
| "ttype (VByte b) = T_BYTE"
| "ttype (VI16 w) = T_I16"
| "ttype (VI32 w) = T_I32"
| "ttype (VI64 w) = T_I64"
| "ttype (VDouble w) = T_DOUBLE"
| "ttype (VString s) = T_STRING"
| "ttype (VStruct fs) = T_STRUCT"
| "ttype (VMap k v kvs) = T_MAP"
| "ttype (VSet e vs) = T_SET"
| "ttype (VList e vs) = T_LIST"

abbreviation sizeBytes :: "nat \<Rightarrow> bytes" where
  "sizeBytes n \<equiv> netBytes 4 (of_nat n :: w32)"

fun encode :: "tval \<Rightarrow> bytes" where
  "encode VNone = []"
| "encode (VBool b) = [if b then 1 else 0]"
| "encode (VByte b) = [b]"
| "encode (VI16 w) = netBytes 2 w"
| "encode (VI32 w) = netBytes 4 w"
| "encode (VI64 w) = netBytes 8 w"
| "encode (VDouble w) = netBytes 8 w"
| "encode (VString s) = sizeBytes (length s) @ s"
| "encode (VStruct fs) = concat (map (\<lambda>(i, v). ttype v # netBytes 2 i @ encode v) fs) @ [T_STOP]"
| "encode (VMap k v kvs) = k # v # sizeBytes (length kvs) @ concat (map (\<lambda>(a, b). encode a @ encode b) kvs)"
| "encode (VSet e vs) = e # sizeBytes (length vs) @ concat (map encode vs)"
| "encode (VList e vs) = e # sizeBytes (length vs) @ concat (map encode vs)"

definition string_fits :: "int \<Rightarrow> nat \<Rightarrow> bool" where
  "string_fits most n \<longleftrightarrow> n < 2 ^ 31 \<and> (most > 0 \<longrightarrow> int n \<le> most)"

definition count_fits :: "int \<Rightarrow> nat \<Rightarrow> bool" where
  "count_fits most n \<longleftrightarrow> n < 2 ^ 31 \<and> (most \<noteq> 0 \<longrightarrow> int n \<le> most)"

text \<open>Elements have the type their container announces, and no length exceeds the limits.\<close>

fun well_typed :: "int \<Rightarrow> int \<Rightarrow> tval \<Rightarrow> bool" where
  "well_typed sl cl (VString s) \<longleftrightarrow> string_fits sl (length s)"
| "well_typed sl cl (VStruct fs) \<longleftrightarrow> (\<forall>(i, v) \<in> set fs. well_typed sl cl v)"
| "well_typed sl cl (VMap k v kvs) \<longleftrightarrow> count_fits cl (length kvs) \<and>
     (\<forall>(a, b) \<in> set kvs. ttype a = k \<and> ttype b = v \<and> well_typed sl cl a \<and> well_typed sl cl b)"
| "well_typed sl cl (VSet e vs) \<longleftrightarrow> count_fits cl (length vs) \<and> (\<forall>v \<in> set vs. ttype v = e \<and> well_typed sl cl v)"
| "well_typed sl cl (VList e vs) \<longleftrightarrow> count_fits cl (length vs) \<and> (\<forall>v \<in> set vs. ttype v = e \<and> well_typed sl cl v)"
| "well_typed sl cl v \<longleftrightarrow> True"

section \<open>Reading what was encoded\<close>

definition limits :: "'s tbinary \<Rightarrow> int \<times> int \<times> bool" where
  "limits p = (string_limit p, container_limit p, strict_read p)"

text \<open>\<open>f\<close> reads \<open>x\<close> off the bytes \<open>bs\<close>, whatever comes behind them, and reports their number.\<close>

definition reads :: "int \<times> int \<times> bool \<Rightarrow> (bytes tbinary \<Rightarrow> ('a \<times> w32, bytes tbinary) pres) \<Rightarrow> 'a \<Rightarrow> bytes \<Rightarrow> bool" where
  "reads l f x bs \<longleftrightarrow> (\<forall>q rest. limits q = l \<and> ptrans q = bs @ rest \<longrightarrow>
     (\<exists>q'. f q = Inr ((x, of_nat (length bs)), q') \<and> limits q' = l \<and> ptrans q' = rest))"

lemma readsD:
  assumes "reads l f x bs" "limits q = l" "ptrans q = bs @ rest"
  obtains q' where "f q = Inr ((x, of_nat (length bs)), q')" "limits q' = l" "ptrans q' = rest"
  using assms by (auto simp: reads_def)

lemma reads_mapV: "reads l f x bs \<Longrightarrow> reads l (\<lambda>q. mapV h (f q)) (h x) bs"
  by (fastforce simp: reads_def mapV_def)

lemma reads_bindV:
  assumes "reads l f x bs" "reads l (g x) y cs"
  shows "reads l (\<lambda>q. bindE (f q) (\<lambda>((a, n), q1). bindE (g a q1) (\<lambda>((b, m), q2). Inr ((h a b, n + m), q2)))) (h x y) (bs @ cs)"
  unfolding reads_def
proof clarify
  fix q rest
  assume q: "l = limits q" "ptrans q = (bs @ cs) @ rest"
  from readsD [OF assms(1), of q "cs @ rest"] q obtain q1 where
    1: "f q = Inr ((x, of_nat (length bs)), q1)" "limits q1 = limits q" "ptrans q1 = cs @ rest" by auto
  from readsD [OF assms(2), of q1 rest] 1 q(1) obtain q2 where
    "g x q1 = Inr ((y, of_nat (length cs)), q2)" "limits q2 = limits q" "ptrans q2 = rest" by auto
  with 1 show "\<exists>q'. bindE (f q) (\<lambda>((a, n), q1). bindE (g a q1) (\<lambda>((b, m), q2). Inr ((h a b, n + m), q2)))
      = Inr ((h x y, of_nat (length (bs @ cs))), q') \<and> limits q' = limits q \<and> ptrans q' = rest" by simp
qed

lemma reads_pairV:
  assumes "reads l f x bs" "reads l g y cs"
  shows "reads l (pairV f g) (x, y) (bs @ cs)"
  using reads_bindV [of l f x bs "\<lambda>_. g" y cs "\<lambda>a b. (a, b)"] assms by (simp only: pairV_def [abs_def])

lemma reads_repeatV:
  assumes "\<And>x. x \<in> set xs \<Longrightarrow> reads l f x (enc x)"
  shows "reads l (repeatV (length xs) f) xs (concat (map enc xs))"
  using assms
proof (induction xs)
  case Nil
  show ?case by (simp add: reads_def)
next
  case (Cons x xs)
  then have "reads l (pairV f (repeatV (length xs) f)) (x, xs) (enc x @ concat (map enc xs))" by (intro reads_pairV) simp_all
  from reads_mapV [OF this, of "\<lambda>(x, xs). x # xs"] show ?case by simp
qed

text \<open>What the operations do on a string of bytes that begins as they expect.\<close>

lemma readWord_list:
  "ptrans q = bs @ rest \<Longrightarrow> length bs = n \<Longrightarrow> readWord listT n q = Inr ((ofNet bs, of_nat n), q\<lparr>ptrans := rest\<rparr>)"
  by (simp add: readWord_def onTrans_def)

lemma readByte_list:
  "ptrans q = b # rest \<Longrightarrow> readByte listT q = Inr ((b, 1), q\<lparr>ptrans := rest\<rparr>)"
  by (simp add: readByte_def readWord_list [of q "[b]" rest])

lemma readI16_list:
  "ptrans q = netBytes 2 w @ rest \<Longrightarrow> readI16 listT q = Inr ((w, 2), q\<lparr>ptrans := rest\<rparr>)"
  by (simp add: readI16_def readWord_list)

lemma readI32_list:
  "ptrans q = netBytes 4 w @ rest \<Longrightarrow> readI32 listT q = Inr ((w, 4), q\<lparr>ptrans := rest\<rparr>)"
  by (simp add: readI32_def readWord_list)

lemma readStringBody_list:
  assumes "ptrans q = s @ rest" "string_fits (string_limit q) (length s)"
  shows "\<exists>q'. readStringBody listT (of_nat (length s)) q = Inr ((s, of_nat (length s)), q') \<and>
    limits q' = limits q \<and> ptrans q' = rest"
proof -
  have n: "length s < 2 ^ 31" using assms(2) by (simp add: string_fits_def)
  have z: "(of_nat (length s) :: w32) = 0 \<longleftrightarrow> s = []" using unat_size [OF n] by (auto simp: unat_eq_0 [symmetric])
  show ?thesis
    using assms(1) assms(2) [unfolded string_fits_def] sint_size [OF n] unat_size [OF n] z
    by (auto simp: readStringBody_def Let_def onTrans_def limits_def)
qed

lemma reads_string:
  assumes "string_fits (fst l) (length s)"
  shows "reads l (readString listT) s (sizeBytes (length s) @ s)"
  unfolding reads_def
proof clarify
  fix q rest
  assume q: "l = limits q" "ptrans q = (sizeBytes (length s) @ s) @ rest"
  let ?q = "q\<lparr>ptrans := s @ rest\<rparr>"
  from readStringBody_list [of ?q s rest] q assms obtain q' where
    "readStringBody listT (of_nat (length s)) ?q = Inr ((s, of_nat (length s)), q')" "limits q' = limits ?q" "ptrans q' = rest"
    by (auto simp: limits_def)
  with q show "\<exists>q'. readString listT q = Inr ((s, of_nat (length (sizeBytes (length s) @ s))), q') \<and>
      limits q' = limits q \<and> ptrans q' = rest"
    by (simp add: readString_def readI32_list limits_def)
qed

lemma checkSize_ok:
  "count_fits (container_limit p) n \<Longrightarrow> checkSize (of_nat n) p = Inr ((), p)"
  by (auto simp: checkSize_def count_fits_def sint_size)

lemma headers_list:
  assumes "count_fits (container_limit q) n"
  shows "ptrans q = k # v # sizeBytes n @ rest \<Longrightarrow>
      readMapBegin listT q = Inr (((k, v, of_nat n), 6), q\<lparr>ptrans := rest\<rparr>)"
    and "ptrans q = k # sizeBytes n @ rest \<Longrightarrow> readListBegin listT q = Inr (((k, of_nat n), 5), q\<lparr>ptrans := rest\<rparr>)"
    and "ptrans q = k # sizeBytes n @ rest \<Longrightarrow> readSetBegin listT q = Inr (((k, of_nat n), 5), q\<lparr>ptrans := rest\<rparr>)"
  using assms by (simp_all add: readMapBegin_def readListBegin_def readSetBegin_def readByte_list readI32_list checkSize_ok)

lemma fieldBegin_list:
  "ptrans q = ty # netBytes 2 i @ rest \<Longrightarrow> ty \<noteq> T_STOP \<Longrightarrow> readFieldBegin listT q = Inr (((ty, i), 3), q\<lparr>ptrans := rest\<rparr>)"
  "ptrans q = T_STOP # rest \<Longrightarrow> readFieldBegin listT q = Inr (((T_STOP, 0), 1), q\<lparr>ptrans := rest\<rparr>)"
  by (simp_all add: readFieldBegin_def readByte_list readI16_list)

lemma reads_headers:
  assumes "count_fits (fst (snd l)) n"
  shows "reads l (readMapBegin listT) (k, v, of_nat n) (k # v # sizeBytes n)"
    and "reads l (readListBegin listT) (k, of_nat n) (k # sizeBytes n)"
    and "reads l (readSetBegin listT) (k, of_nat n) (k # sizeBytes n)"
  using assms by (auto simp: reads_def headers_list [where n = n] limits_def)

lemma reads_list:
  assumes "count_fits (fst (snd l)) (length vs)" "\<And>v. v \<in> set vs \<Longrightarrow> reads l (readValue listT f e) v (encode v)"
  shows "reads l (readValue listT (Suc f) T_LIST) (VList e vs) (encode (VList e vs))"
    and "reads l (readValue listT (Suc f) T_SET) (VSet e vs) (encode (VSet e vs))"
proof -
  have n: "unat (of_nat (length vs) :: w32) = length vs" using assms(1) by (simp add: count_fits_def unat_size)
  have r: "reads l ((\<lambda>(e, sz). repeatV (unat sz) (readValue listT f e)) (e, of_nat (length vs) :: w32)) vs (concat (map encode vs))"
    using reads_repeatV [OF assms(2)] by (simp add: n)
  show "reads l (readValue listT (Suc f) T_LIST) (VList e vs) (encode (VList e vs))"
    using reads_bindV [where g = "\<lambda>(e, sz). repeatV (unat sz) (readValue listT f e)" and h = "\<lambda>(e, sz) vs. VList e vs",
        OF reads_headers(2) [OF assms(1)] r]
    by (simp add: readValue.simps [abs_def] split_def)
  show "reads l (readValue listT (Suc f) T_SET) (VSet e vs) (encode (VSet e vs))"
    using reads_bindV [where g = "\<lambda>(e, sz). repeatV (unat sz) (readValue listT f e)" and h = "\<lambda>(e, sz) vs. VSet e vs",
        OF reads_headers(3) [OF assms(1)] r]
    by (simp add: readValue.simps [abs_def] split_def)
qed

lemma reads_map:
  assumes "count_fits (fst (snd l)) (length kvs)"
    and "\<And>a b. (a, b) \<in> set kvs \<Longrightarrow> reads l (readValue listT f k) a (encode a)"
    and "\<And>a b. (a, b) \<in> set kvs \<Longrightarrow> reads l (readValue listT f v) b (encode b)"
  shows "reads l (readValue listT (Suc f) T_MAP) (VMap k v kvs) (encode (VMap k v kvs))"
proof -
  have n: "unat (of_nat (length kvs) :: w32) = length kvs" using assms(1) by (simp add: count_fits_def unat_size)
  have "reads l (pairV (readValue listT f k) (readValue listT f v)) x ((\<lambda>(a, b). encode a @ encode b) x)" if "x \<in> set kvs" for x
  proof -
    obtain a b where "x = (a, b)" by (cases x)
    with that assms(2,3) show ?thesis by (simp add: reads_pairV)
  qed
  then have r: "reads l ((\<lambda>(k, v, sz). repeatV (unat sz) (pairV (readValue listT f k) (readValue listT f v)))
      (k, v, of_nat (length kvs) :: w32)) kvs (concat (map (\<lambda>(a, b). encode a @ encode b) kvs))"
    using reads_repeatV [of kvs l] by (simp add: n)
  show ?thesis
    using reads_bindV [where g = "\<lambda>(k, v, sz). repeatV (unat sz) (pairV (readValue listT f k) (readValue listT f v))"
        and h = "\<lambda>(k, v, sz). VMap k v", OF reads_headers(1) [OF assms(1)] r]
    by (simp add: readValue.simps [abs_def] split_def)
qed

lemma ttype_not_stop: "ttype v \<noteq> T_STOP"
  by (cases v) simp_all

abbreviation encodeFields :: "(16 word \<times> tval) list \<Rightarrow> bytes" where
  "encodeFields fs \<equiv> concat (map (\<lambda>(i, v). ttype v # netBytes 2 i @ encode v) fs) @ [T_STOP]"

lemma reads_fields:
  assumes "\<And>i v k. (i, v) \<in> set fs \<Longrightarrow> length (encode v) + 2 \<le> k \<Longrightarrow> reads l (readValue listT k (ttype v)) v (encode v)"
    and "length (encodeFields fs) < f"
  shows "reads l (readFields listT f) fs (encodeFields fs)"
  using assms
proof (induction fs arbitrary: f)
  case Nil
  then obtain k where "f = Suc k" by (cases f) auto
  then show ?case by (auto simp: reads_def readFields.simps fieldBegin_list limits_def)
next
  case (Cons iv fs)
  obtain i v where iv: "iv = (i, v)" by (cases iv)
  from Cons.prems(2) obtain k where k: "f = Suc k" by (cases f) auto
  have v: "reads l (readValue listT k (ttype v)) v (encode v)"
    using Cons.prems(2) iv k by (intro Cons.prems(1) [of i]) simp_all
  have fs: "reads l (readFields listT k) fs (encodeFields fs)"
  proof (rule Cons.IH)
    show "reads l (readValue listT k (ttype v)) v (encode v)" if "(i, v) \<in> set fs" "length (encode v) + 2 \<le> k" for i v k
      using that by (intro Cons.prems(1) [of i]) simp_all
    show "length (encodeFields fs) < k" using Cons.prems(2) iv k by simp
  qed
  show ?case unfolding reads_def
  proof clarify
    fix q rest
    assume q: "l = limits q" "ptrans q = encodeFields (iv # fs) @ rest"
    let ?q = "q\<lparr>ptrans := encode v @ encodeFields fs @ rest\<rparr>"
    from q iv have h: "readFieldBegin listT q = Inr (((ttype v, i), 3), ?q)"
      by (simp add: fieldBegin_list(1) ttype_not_stop)
    have "limits ?q = l" using q by (simp add: limits_def)
    with readsD [OF reads_pairV [OF v fs], of ?q rest] obtain q' where
      q': "pairV (readValue listT k (ttype v)) (readFields listT k) ?q
        = Inr (((v, fs), of_nat (length (encode v @ encodeFields fs))), q')" "limits q' = l" "ptrans q' = rest" by auto
    with h show "\<exists>q'. readFields listT f q = Inr ((iv # fs, of_nat (length (encodeFields (iv # fs)))), q') \<and>
        limits q' = limits q \<and> ptrans q' = rest"
      using iv k q(1) by (simp add: readFields.simps ttype_not_stop)
  qed
qed

lemma length_part:
  "x \<in> set xs \<Longrightarrow> length (enc x) \<le> length (concat (map enc xs))"
  using member_le_sum_list [of "length (enc x)" "map (length \<circ> enc) xs"] by (force simp: length_concat comp_def)

lemma reads_value:
  assumes "well_typed (fst l) (fst (snd l)) v" "length (encode v) + 2 \<le> f"
  shows "reads l (readValue listT f (ttype v)) v (encode v)"
  using assms
proof (induction v arbitrary: f rule: encode.induct)
  case (9 fs)
  then obtain k where k: "f = Suc k" by (cases f) auto
  have "reads l (readValue listT j (ttype v)) v (encode v)" if "(i, v) \<in> set fs" "length (encode v) + 2 \<le> j" for i v j
    using 9 that by (intro "9.IH") auto
  then have "reads l (readFields listT k) fs (encodeFields fs)"
    using "9.prems"(2) by (intro reads_fields) (simp_all add: k)
  from reads_mapV [OF this, of VStruct] show ?case by (simp add: k readValue.simps [abs_def])
next
  case (10 k v kvs)
  then obtain j where j: "f = Suc j" by (cases f) auto
  have len: "length (encode a) + 2 \<le> j" "length (encode b) + 2 \<le> j" if "(a, b) \<in> set kvs" for a b
    using length_part [OF that, of "\<lambda>(a, b). encode a @ encode b"] "10.prems"(2) j by simp_all
  have "reads l (readValue listT j k) a (encode a)" "reads l (readValue listT j v) b (encode b)"
    if "(a, b) \<in> set kvs" for a b
    using "10.IH"(1) [OF that refl, of j] "10.IH"(2) [OF that refl, of j] len [OF that] "10.prems"(1) that by auto
  then show ?case unfolding j ttype.simps using "10.prems"(1) by (intro reads_map) auto
next
  case (11 e vs)
  then obtain j where j: "f = Suc j" by (cases f) auto
  have "reads l (readValue listT j e) v (encode v)" if "v \<in> set vs" for v
    using "11.IH" [OF that, of j] length_part [OF that, of encode] "11.prems" that j by auto
  then show ?case unfolding j ttype.simps using "11.prems"(1) by (intro reads_list) auto
next
  case (12 e vs)
  then obtain j where j: "f = Suc j" by (cases f) auto
  have "reads l (readValue listT j e) v (encode v)" if "v \<in> set vs" for v
    using "12.IH" [OF that, of j] length_part [OF that, of encode] "12.prems" that j by auto
  then show ?case unfolding j ttype.simps using "12.prems"(1) by (intro reads_list) auto
next
  case (8 s)
  then obtain j where j: "f = Suc j" by (cases f) auto
  from reads_mapV [OF reads_string [of l s], of VString] "8.prems" show ?case
    by (simp add: j readValue.simps [abs_def] readBinary_def)
next
  case (4 w)
  then obtain j where "f = Suc j" by (cases f) auto
  then show ?case by (auto simp: reads_def readValue.simps mapV_def readI16_list limits_def)
next
  case (5 w)
  then obtain j where "f = Suc j" by (cases f) auto
  then show ?case by (auto simp: reads_def readValue.simps mapV_def readI32_list limits_def)
next
  case (6 w)
  then obtain j where "f = Suc j" by (cases f) auto
  then show ?case by (auto simp: reads_def readValue.simps mapV_def readI64_def readWord_list limits_def)
next
  case (7 w)
  then obtain j where "f = Suc j" by (cases f) auto
  then show ?case by (auto simp: reads_def readValue.simps mapV_def readDouble_def readWord_list limits_def)
qed (auto simp: reads_def readValue.simps mapV_def readBool_def readByte_list limits_def
      dest!: Suc_le_D)

section \<open>Messages\<close>

definition encodeHeader :: "bool \<Rightarrow> bytes \<Rightarrow> TMessageType \<Rightarrow> w32 \<Rightarrow> bytes" where
  "encodeHeader strict name ty seqid =
     (if strict then netBytes 4 (VERSION_1 OR ty) @ sizeBytes (length name) @ name @ netBytes 4 seqid
      else sizeBytes (length name) @ name @ [ucast ty] @ netBytes 4 seqid)"

text \<open>The codes of \<open>TMessageType\<close>: \<open>T_CALL\<close>, \<open>T_REPLY\<close>, \<open>T_EXCEPTION\<close>, \<open>T_ONEWAY\<close>.\<close>

definition message_types :: "TMessageType list" where
  "message_types = [1, 2, 3, 4]"

lemma version_bits:
  assumes "ty \<in> set message_types"
  shows "sint (VERSION_1 OR ty) < 0" "(VERSION_1 OR ty) AND VERSION_MASK = VERSION_1" "(VERSION_1 OR ty) AND 0xff = ty"
    "scast (ucast ty :: 8 word) = ty"
  using assms by (auto simp: message_types_def)

lemma reads_header:
  assumes "string_fits (fst l) (length name)" "ty \<in> set message_types" "strict \<or> \<not> snd (snd l)"
  shows "reads l (readMessageBegin listT) (name, ty, seqid) (encodeHeader strict name ty seqid)"
  unfolding reads_def
proof clarify
  fix q rest
  assume q: "l = limits q" "ptrans q = encodeHeader strict name ty seqid @ rest"
  show "\<exists>q'. readMessageBegin listT q = Inr (((name, ty, seqid), of_nat (length (encodeHeader strict name ty seqid))), q') \<and>
      limits q' = limits q \<and> ptrans q' = rest"
  proof (cases strict)
    case True
    let ?q = "q\<lparr>ptrans := sizeBytes (length name) @ name @ netBytes 4 seqid @ rest\<rparr>"
    have "limits ?q = limits q" by (simp add: limits_def)
    with readsD [OF reads_string [OF assms(1)], of ?q "netBytes 4 seqid @ rest"] q obtain q' where
      "readString listT ?q = Inr ((name, of_nat (length (sizeBytes (length name) @ name))), q')" "limits q' = limits q"
      "ptrans q' = netBytes 4 seqid @ rest" by auto
    with True q version_bits [OF assms(2)] show ?thesis
      by (auto simp: readMessageBegin_def encodeHeader_def readI32_list limits_def algebra_simps)
  next
    case False
    let ?q = "q\<lparr>ptrans := name @ [ucast ty] @ netBytes 4 seqid @ rest\<rparr>"
    have "limits ?q = limits q" by (simp add: limits_def)
    with readStringBody_list [of ?q name "[ucast ty] @ netBytes 4 seqid @ rest"] q assms(1) obtain q' where
      q': "readStringBody listT (of_nat (length name)) ?q = Inr ((name, of_nat (length name)), q')" "limits q' = limits q"
      "ptrans q' = ucast ty # netBytes 4 seqid @ rest" by (auto simp: limits_def)
    have "\<not> sint (of_nat (length name) :: w32) < 0" using assms(1) by (simp add: string_fits_def sint_size)
    with False q q' version_bits(4) [OF assms(2)] assms(3) show ?thesis
      by (auto simp: readMessageBegin_def encodeHeader_def readI32_list readByte_list limits_def algebra_simps)
  qed
qed

section \<open>Writing\<close>

text \<open>The calls that write a value, as a caller makes them.\<close>

primrec writeSeq :: "('p \<Rightarrow> (w32, 'p) pres) list \<Rightarrow> 'p \<Rightarrow> (w32, 'p) pres" where
  "writeSeq [] p = Inr (0, p)"
| "writeSeq (w # ws) p = andThen w (writeSeq ws) p"

fun writeValue :: "'s transport \<Rightarrow> tval \<Rightarrow> 's tbinary \<Rightarrow> (w32, 's tbinary) pres" where
  "writeValue tr VNone p = Inr (0, p)"
| "writeValue tr (VBool b) p = writeBool tr b p"
| "writeValue tr (VByte b) p = writeByte tr b p"
| "writeValue tr (VI16 w) p = writeI16 tr w p"
| "writeValue tr (VI32 w) p = writeI32 tr w p"
| "writeValue tr (VI64 w) p = writeI64 tr w p"
| "writeValue tr (VDouble w) p = writeDouble tr w p"
| "writeValue tr (VString s) p = writeBinary tr s p"
| "writeValue tr (VStruct fs) p =
     andThen (writeSeq (map (\<lambda>(i, v). andThen (writeFieldBegin tr (ttype v) i) (writeValue tr v)) fs)) (writeFieldStop tr) p"
| "writeValue tr (VMap k v kvs) p =
     andThen (writeMapBegin tr k v (of_nat (length kvs)))
       (writeSeq (map (\<lambda>(a, b). andThen (writeValue tr a) (writeValue tr b)) kvs)) p"
| "writeValue tr (VSet e vs) p = andThen (writeSetBegin tr e (of_nat (length vs))) (writeSeq (map (writeValue tr) vs)) p"
| "writeValue tr (VList e vs) p = andThen (writeListBegin tr e (of_nat (length vs))) (writeSeq (map (writeValue tr) vs)) p"

text \<open>\<open>f\<close> succeeds where there is room for the bytes \<open>bs\<close>, adds them to the output and reports their number.\<close>

definition emits :: "('s \<Rightarrow> bool) \<Rightarrow> ('s \<Rightarrow> bytes) \<Rightarrow> (nat \<Rightarrow> 's \<Rightarrow> bool)
    \<Rightarrow> ('s tbinary \<Rightarrow> (w32, 's tbinary) pres) \<Rightarrow> bytes \<Rightarrow> bool" where
  "emits winv out fits f bs \<longleftrightarrow> (\<forall>p k. winv (ptrans p) \<and> fits (length bs + k) (ptrans p) \<longrightarrow>
     (\<exists>s. f p = Inr (of_nat (length bs), p\<lparr>ptrans := s\<rparr>) \<and> winv s \<and> out s = out (ptrans p) @ bs \<and> fits k s))"

lemma emitsD:
  assumes "emits winv out fits f bs" "winv (ptrans p)" "fits (length bs + k) (ptrans p)"
  shows "\<exists>s. f p = Inr (of_nat (length bs), p\<lparr>ptrans := s\<rparr>) \<and> winv s \<and> out s = out (ptrans p) @ bs \<and> fits k s"
  using assms unfolding emits_def by blast

lemma emits_andThen:
  fixes f g :: "'s tbinary \<Rightarrow> (w32, 's tbinary) pres"
  assumes "emits winv out fits f bs" "emits winv out fits g cs"
  shows "emits winv out fits (andThen f g) (bs @ cs)"
  unfolding emits_def
proof clarify
  fix p :: "'s tbinary" and k
  assume p: "winv (ptrans p)" "fits (length (bs @ cs) + k) (ptrans p)"
  then have "fits (length bs + (length cs + k)) (ptrans p)" by (simp add: add.assoc)
  with assms(1) p(1) obtain s where s: "f p = Inr (of_nat (length bs), p\<lparr>ptrans := s\<rparr>)" "winv s"
      "out s = out (ptrans p) @ bs" "fits (length cs + k) s" unfolding emits_def by blast
  with assms(2) obtain s' where "g (p\<lparr>ptrans := s\<rparr>) = Inr (of_nat (length cs), p\<lparr>ptrans := s'\<rparr>)" "winv s'"
      "out s' = out s @ cs" "fits k s'" using emitsD [of winv out fits g cs "p\<lparr>ptrans := s\<rparr>" k] by auto
  with s show "\<exists>s. andThen f g p = Inr (of_nat (length (bs @ cs)), p\<lparr>ptrans := s\<rparr>) \<and> winv s \<and>
      out s = out (ptrans p) @ bs @ cs \<and> fits k s" by (intro exI [of _ s']) (simp add: andThen_def)
qed

lemma emits_Nil: "emits winv out fits (\<lambda>p. Inr (0, p)) []"
  by (force simp: emits_def)

lemma emits_writeSeq:
  assumes "\<And>x. x \<in> set xs \<Longrightarrow> emits winv out fits (f x) (enc x)"
  shows "emits winv out fits (writeSeq (map f xs)) (concat (map enc xs))"
  using assms
proof (induction xs)
  case Nil
  show ?case using emits_Nil by (simp add: writeSeq.simps(1) [abs_def])
next
  case (Cons x xs)
  then show ?case using emits_andThen [of winv out fits "f x" "enc x"] by (simp add: writeSeq.simps(2) [abs_def])
qed

locale wire_writer = byte_writer winv out fits "t_write tr"
  for winv :: "'s \<Rightarrow> bool" and out :: "'s \<Rightarrow> bytes" and fits :: "nat \<Rightarrow> 's \<Rightarrow> bool" and tr :: "'s transport"
begin

lemma writeBytes_emits: "emits winv out fits (writeBytes tr bs) bs"
  unfolding emits_def
proof clarify
  fix p :: "'s tbinary" and k
  assume "winv (ptrans p)" "fits (length bs + k) (ptrans p)"
  from wr_ok [OF this] show "\<exists>s. writeBytes tr bs p = Inr (of_nat (length bs), p\<lparr>ptrans := s\<rparr>) \<and> winv s \<and>
      out s = out (ptrans p) @ bs \<and> fits k s" by (auto simp: writeBytes_def onTrans_def)
qed

lemma words_emit:
  "emits winv out fits (writeByte tr b) [b]" "emits winv out fits (writeBool tr v) [if v then 1 else 0]"
  "emits winv out fits (writeI16 tr i) (netBytes 2 i)" "emits winv out fits (writeI32 tr w) (netBytes 4 w)"
  "emits winv out fits (writeI64 tr d) (netBytes 8 d)" "emits winv out fits (writeDouble tr d) (netBytes 8 d)"
  unfolding writeByte_def writeBool_def writeI16_def writeI32_def writeI64_def writeDouble_def
  by (rule writeBytes_emits)+

lemma string_emits:
  assumes "length s < 2 ^ 31"
  shows "emits winv out fits (writeString tr s) (sizeBytes (length s) @ s)"
proof (cases "s = []")
  case True
  then have "writeString tr s = writeI32 tr (of_nat (length s))" by (simp add: writeString_def fun_eq_iff)
  with True words_emit(4) show ?thesis by simp
next
  case False
  with assms have "writeString tr s = andThen (writeI32 tr (of_nat (length s))) (writeBytes tr s)"
    by (simp add: writeString_def fun_eq_iff)
  with emits_andThen [OF words_emit(4) writeBytes_emits] show ?thesis by simp
qed

lemma headers_emit:
  "emits winv out fits (writeFieldBegin tr ty i) (ty # netBytes 2 i)"
  "emits winv out fits (writeFieldStop tr) [T_STOP]"
  "emits winv out fits (writeMapBegin tr k v (of_nat n)) (k # v # sizeBytes n)"
  "emits winv out fits (writeSetBegin tr k (of_nat n)) (k # sizeBytes n)"
  "emits winv out fits (writeListBegin tr k (of_nat n)) (k # sizeBytes n)"
  unfolding writeFieldBegin_def writeFieldStop_def writeMapBegin_def writeSetBegin_def writeListBegin_def
  using emits_andThen [OF words_emit(1) words_emit(3)] emits_andThen [OF words_emit(1) words_emit(4)]
    emits_andThen [OF words_emit(1) emits_andThen [OF words_emit(1) words_emit(4)]] words_emit(1)
  by simp_all

lemma value_emits:
  assumes "well_typed sl cl v"
  shows "emits winv out fits (writeValue tr v) (encode v)"
  using assms
proof (induction v rule: encode.induct)
  case (8 s)
  then show ?case using string_emits [of s] by (simp add: writeValue.simps [abs_def] writeBinary_def string_fits_def)
next
  case (9 fs)
  have "emits winv out fits ((\<lambda>(i, v). andThen (writeFieldBegin tr (ttype v) i) (writeValue tr v)) x)
      ((\<lambda>(i, v). (ttype v # netBytes 2 i) @ encode v) x)" if "x \<in> set fs" for x
  proof -
    obtain i v where x: "x = (i, v)" by (cases x)
    from "9.IH" [OF that x [symmetric]] "9.prems" that x have "emits winv out fits (writeValue tr v) (encode v)" by auto
    from emits_andThen [OF headers_emit(1) this] x show ?thesis by simp
  qed
  from emits_andThen [OF emits_writeSeq [OF this] headers_emit(2)] show ?case
    by (simp add: writeValue.simps [abs_def])
next
  case (10 k v kvs)
  have "emits winv out fits ((\<lambda>(a, b). andThen (writeValue tr a) (writeValue tr b)) x)
      ((\<lambda>(a, b). encode a @ encode b) x)" if "x \<in> set kvs" for x
  proof -
    obtain a b where x: "x = (a, b)" by (cases x)
    from "10.IH" [OF that x [symmetric]] "10.prems" that x show ?thesis by (auto intro: emits_andThen)
  qed
  from emits_andThen [OF headers_emit(3) emits_writeSeq [OF this]] show ?case by (simp add: writeValue.simps [abs_def])
next
  case (11 e vs)
  then have "emits winv out fits (writeValue tr v) (encode v)" if "v \<in> set vs" for v using that by simp
  from emits_andThen [OF headers_emit(4) emits_writeSeq [OF this]] show ?case by (simp add: writeValue.simps [abs_def])
next
  case (12 e vs)
  then have "emits winv out fits (writeValue tr v) (encode v)" if "v \<in> set vs" for v using that by simp
  from emits_andThen [OF headers_emit(5) emits_writeSeq [OF this]] show ?case by (simp add: writeValue.simps [abs_def])
qed (simp_all add: writeValue.simps [abs_def] emits_Nil words_emit)

lemma header_emits:
  assumes "length name < 2 ^ 31" "winv (ptrans p)" "fits (length (encodeHeader (strict_write p) name ty seqid) + k) (ptrans p)"
  shows "\<exists>s. writeMessageBegin tr name ty seqid p
      = Inr (of_nat (length (encodeHeader (strict_write p) name ty seqid)), p\<lparr>ptrans := s\<rparr>) \<and> winv s \<and>
    out s = out (ptrans p) @ encodeHeader (strict_write p) name ty seqid \<and> fits k s"
proof -
  let ?f = "if strict_write p
      then andThen (writeI32 tr (VERSION_1 OR ty)) (andThen (writeString tr name) (writeI32 tr seqid))
      else andThen (writeString tr name) (andThen (writeByte tr (ucast ty)) (writeI32 tr seqid))"
  have "emits winv out fits ?f (encodeHeader (strict_write p) name ty seqid)"
    using emits_andThen [OF words_emit(4) emits_andThen [OF string_emits [OF assms(1)] words_emit(4)]]
      emits_andThen [OF string_emits [OF assms(1)] emits_andThen [OF words_emit(1) words_emit(4)]]
    by (simp add: encodeHeader_def)
  moreover have "writeMessageBegin tr name ty seqid p = ?f p" by (simp add: writeMessageBegin_def)
  ultimately show ?thesis using assms(2,3) by (simp add: emits_def)
qed

end

section \<open>Arbitrary bytes\<close>

text \<open>
  On at most \<open>n\<close> bytes of any content \<open>f\<close> ends, with one of three exceptions or after \<open>m\<close> bytes or more,
  whose number it reports.
\<close>

definition ends_on :: "nat \<Rightarrow> nat \<Rightarrow> (bytes tbinary \<Rightarrow> ('a \<times> w32, bytes tbinary) pres) \<Rightarrow> bool" where
  "ends_on n m f \<longleftrightarrow> (\<forall>q. length (ptrans q) \<le> n \<longrightarrow>
     (\<forall>e q'. f q = Inl (e, q') \<longrightarrow> e \<in> {Transport END_OF_FILE, NEGATIVE_SIZE, SIZE_LIMIT}) \<and>
     (\<forall>x k q'. f q = Inr ((x, k), q') \<longrightarrow> (\<exists>bs. ptrans q = bs @ ptrans q' \<and> m \<le> length bs \<and> k = of_nat (length bs))))"

lemma ends_onE:
  assumes "ends_on n m f" "length (ptrans q) \<le> n"
  obtains e q' where "f q = Inl (e, q')" "e \<in> {Transport END_OF_FILE, NEGATIVE_SIZE, SIZE_LIMIT}"
    | x q' bs where "f q = Inr ((x, of_nat (length bs)), q')" "ptrans q = bs @ ptrans q'" "m \<le> length bs"
proof (cases "f q")
  case (Inl a)
  then show ?thesis using that(1) assms by (cases a) (simp add: ends_on_def)
next
  case (Inr b)
  then obtain x k q' where f: "f q = Inr ((x, k), q')" by (cases b) auto
  with assms obtain bs where "ptrans q = bs @ ptrans q'" "m \<le> length bs" "k = of_nat (length bs)"
    unfolding ends_on_def by blast
  with f that(2) show ?thesis by simp
qed

lemma ends_onI:
  assumes "\<And>q. length (ptrans q) \<le> n \<Longrightarrow>
    (\<exists>e q'. f q = Inl (e, q') \<and> e \<in> {Transport END_OF_FILE, NEGATIVE_SIZE, SIZE_LIMIT}) \<or>
    (\<exists>x q' bs. f q = Inr ((x, of_nat (length bs)), q') \<and> ptrans q = bs @ ptrans q' \<and> m \<le> length bs)"
  shows "ends_on n m f"
  unfolding ends_on_def
proof (intro allI impI)
  fix q :: "bytes tbinary"
  assume "length (ptrans q) \<le> n"
  from assms [OF this] show "(\<forall>e q'. f q = Inl (e, q') \<longrightarrow> e \<in> {Transport END_OF_FILE, NEGATIVE_SIZE, SIZE_LIMIT}) \<and>
     (\<forall>x k q'. f q = Inr ((x, k), q') \<longrightarrow> (\<exists>bs. ptrans q = bs @ ptrans q' \<and> m \<le> length bs \<and> k = of_nat (length bs)))"
  proof (elim disjE exE conjE)
    fix x q' bs
    assume "f q = Inr ((x, of_nat (length bs)), q')" "ptrans q = bs @ ptrans q'" "m \<le> length bs"
    then show ?thesis by (simp only: sum.inject prod.inject sum.distinct) blast
  qed simp
qed

lemma ends_on_bindV:
  assumes "ends_on n m f" "\<And>x. m \<le> n \<Longrightarrow> ends_on (n - m) m' (g x)"
  shows "ends_on n (m + m') (\<lambda>q. bindE (f q) (\<lambda>((a, k), q1). bindE (g a q1) (\<lambda>((b, j), q2). Inr ((h a b, k + j), q2))))"
    (is "ends_on n _ ?f")
proof -
  have "(\<exists>e q'. ?f q = Inl (e, q') \<and> e \<in> {Transport END_OF_FILE, NEGATIVE_SIZE, SIZE_LIMIT}) \<or>
      (\<exists>x q' bs. ?f q = Inr ((x, of_nat (length bs)), q') \<and> ptrans q = bs @ ptrans q' \<and> m + m' \<le> length bs)"
    if n: "length (ptrans q) \<le> n" for q
    using assms(1) n
  proof (cases rule: ends_onE)
    case 1: (2 x q1 bs)
    then have "length (ptrans q1) \<le> n - m" "m \<le> n" using n by simp_all
    from assms(2) [OF this(2), of x] this(1) show ?thesis
    proof (cases rule: ends_onE)
      case (2 y q2 cs)
      with 1 have "?f q = Inr ((h x y, of_nat (length (bs @ cs))), q2)" "ptrans q = (bs @ cs) @ ptrans q2" "m + m' \<le> length (bs @ cs)"
        by auto
      then show ?thesis by blast
    qed (use 1 in auto)
  qed auto
  then show ?thesis by (rule ends_onI)
qed

lemma ends_on_weaken: "ends_on n m f \<Longrightarrow> n' \<le> n \<Longrightarrow> m' \<le> m \<Longrightarrow> ends_on n' m' f"
  unfolding ends_on_def by (meson le_trans)

lemma ends_on_mapV: "ends_on n m f \<Longrightarrow> ends_on n m (\<lambda>q. mapV h (f q))"
  unfolding ends_on_def mapV_def by (auto simp: bindE_def split: sum.splits prod.splits)

lemma ends_on_pairV: "ends_on n m f \<Longrightarrow> ends_on n m' g \<Longrightarrow> ends_on n (m + m') (pairV f g)"
  using ends_on_bindV [of n m f m' "\<lambda>_. g" "\<lambda>a b. (a, b)"] ends_on_weaken [of n m' g "n - m" m']
  by (simp add: pairV_def [abs_def])

lemma ends_on_repeatV: "ends_on n 0 f \<Longrightarrow> ends_on n 0 (repeatV k f)"
proof (induction k)
  case 0
  show ?case by (simp add: ends_on_def)
next
  case (Suc k)
  then show ?case using ends_on_mapV [OF ends_on_pairV [of n 0 f 0 "repeatV k f"]] by simp
qed

lemma taken:
  "n \<le> length xs \<Longrightarrow> \<exists>bs. xs = bs @ drop n xs \<and> n \<le> length bs \<and> (of_nat n :: w32) = of_nat (length bs)"
  by (intro exI [of _ "take n xs"]) simp

lemma ends_on_readWord: "ends_on n k (readWord listT k)"
  by (auto simp: ends_on_def readWord_def onTrans_def taken split: if_splits)

lemma ends_on_words:
  "ends_on n 1 (readByte listT)" "ends_on n 1 (readBool listT)" "ends_on n 2 (readI16 listT)"
  "ends_on n 4 (readI32 listT)" "ends_on n 8 (readI64 listT)" "ends_on n 8 (readDouble listT)"
proof -
  show b: "ends_on n 1 (readByte listT)" and "ends_on n 2 (readI16 listT)"
    "ends_on n 4 (readI32 listT)" "ends_on n 8 (readI64 listT)" "ends_on n 8 (readDouble listT)"
    unfolding readByte_def readI16_def readI32_def readI64_def readDouble_def by (rule ends_on_readWord)+
  show "ends_on n 1 (readBool listT)"
    using ends_on_mapV [OF b, of "\<lambda>b. b \<noteq> 0"] by (simp add: readBool_def [abs_def] mapV_def)
qed

lemma ends_on_stringBody: "ends_on n 0 (readStringBody listT sz)"
proof -
  have "\<exists>bs. xs = bs @ drop (unat sz) xs \<and> sz = of_nat (length bs)" if "unat sz \<le> length xs" for xs :: bytes
    using taken [OF that] by auto
  then show ?thesis by (auto simp: ends_on_def readStringBody_def onTrans_def Let_def split: if_splits)
qed

lemma ends_on_string: "ends_on n 4 (readString listT)"
  using ends_on_bindV [OF ends_on_words(4) ends_on_stringBody, of n "\<lambda>sz. sz" "\<lambda>_ s. s"]
  by (simp add: readString_def [abs_def])

lemma ends_on_bind_pure:
  assumes "ends_on n m f" "\<And>x q. (\<exists>e. g x q = Inl (e, q) \<and> e \<in> {NEGATIVE_SIZE, SIZE_LIMIT}) \<or> (\<exists>y. g x q = Inr (y, q))"
  shows "ends_on n m (\<lambda>q. bindE (f q) (\<lambda>((x, k), q1). bindE (g x q1) (\<lambda>(_, q2). Inr ((x, k), q2))))"
proof (rule ends_onI)
  fix q :: "bytes tbinary"
  assume "length (ptrans q) \<le> n"
  with assms(1) show "(\<exists>e q'. bindE (f q) (\<lambda>((x, k), q1). bindE (g x q1) (\<lambda>(_, q2). Inr ((x, k), q2))) = Inl (e, q') \<and>
        e \<in> {Transport END_OF_FILE, NEGATIVE_SIZE, SIZE_LIMIT}) \<or>
      (\<exists>x q' bs. bindE (f q) (\<lambda>((x, k), q1). bindE (g x q1) (\<lambda>(_, q2). Inr ((x, k), q2))) = Inr ((x, of_nat (length bs)), q') \<and>
        ptrans q = bs @ ptrans q' \<and> m \<le> length bs)"
  proof (cases rule: ends_onE)
    case (2 x q' bs)
    with assms(2) [of x q'] show ?thesis by fastforce
  qed auto
qed

lemma checkSize_cases: "(\<exists>e. checkSize sz q = Inl (e, q) \<and> e \<in> {NEGATIVE_SIZE, SIZE_LIMIT}) \<or> (\<exists>y. checkSize sz q = Inr (y, q))"
  by (simp add: checkSize_def)

lemma ends_on_headers:
  "ends_on n 5 (readListBegin listT)" "ends_on n 5 (readSetBegin listT)" "ends_on n 6 (readMapBegin listT)"
proof -
  show l: "ends_on n 5 (readListBegin listT)"
    using ends_on_bind_pure [OF ends_on_pairV [OF ends_on_words(1,4)], where g = "\<lambda>x. checkSize (snd x)", OF checkSize_cases, of n]
    by (simp add: readListBegin_def [abs_def] pairV_def bindE_assoc split_def)
  show "ends_on n 5 (readSetBegin listT)"
    using l by (simp add: readListBegin_def [abs_def] readSetBegin_def [abs_def])
  show "ends_on n 6 (readMapBegin listT)"
    using ends_on_bind_pure [OF ends_on_pairV [OF ends_on_words(1) ends_on_pairV [OF ends_on_words(1,4)]],
        where g = "\<lambda>x. checkSize (snd (snd x))", OF checkSize_cases, of n]
    by (simp add: readMapBegin_def [abs_def] pairV_def bindE_assoc split_def add.assoc)
qed

lemma ends_on_simple:
  "ends_on n 0 (readByte listT)" "ends_on n 0 (readBool listT)" "ends_on n 0 (readI16 listT)" "ends_on n 0 (readI32 listT)"
  "ends_on n 0 (readI64 listT)" "ends_on n 0 (readDouble listT)" "ends_on n 0 (readBinary listT)"
  unfolding readBinary_def
  using ends_on_weaken [OF ends_on_words(1), of n n 0] ends_on_weaken [OF ends_on_words(2), of n n 0]
    ends_on_weaken [OF ends_on_words(3), of n n 0] ends_on_weaken [OF ends_on_words(4), of n n 0]
    ends_on_weaken [OF ends_on_words(5), of n n 0] ends_on_weaken [OF ends_on_words(6), of n n 0]
    ends_on_weaken [OF ends_on_string, of n n 0]
  by simp_all

lemma ends_on_none: "ends_on n 0 (\<lambda>q. Inr ((x, 0), q))"
  by (simp add: ends_on_def)

lemma ends_on_if:
  "(P \<Longrightarrow> ends_on n m f) \<Longrightarrow> (\<not> P \<Longrightarrow> ends_on n m g) \<Longrightarrow> ends_on n m (\<lambda>q. if P then f q else g q)"
  by (cases P) simp_all

lemma fieldBegin_cases:
  obtains e q' where "readFieldBegin listT q = Inl (e, q')" "e = Transport END_OF_FILE"
  | ty i q' bs where "readFieldBegin listT q = Inr (((ty, i), of_nat (length bs)), q')" "ptrans q = bs @ ptrans q'"
      "if ty = T_STOP then 1 \<le> length bs else 3 \<le> length bs"
proof (cases "ptrans q")
  case Nil
  then show ?thesis using that(1) by (simp add: readFieldBegin_def readByte_def readWord_def onTrans_def)
next
  case (Cons ty rest)
  note b = readByte_list [OF Cons]
  consider "ty = T_STOP" | "ty \<noteq> T_STOP" "length rest < 2" | "ty \<noteq> T_STOP" "2 \<le> length rest" by linarith
  then show ?thesis
  proof cases
    case 1
    with that(2) [of T_STOP 0 "[ty]" "q\<lparr>ptrans := rest\<rparr>"] b Cons show ?thesis by (simp add: readFieldBegin_def)
  next
    case 2
    with that(1) b show ?thesis by (simp add: readFieldBegin_def readI16_def readWord_def onTrans_def)
  next
    case 3
    with that(2) [of ty "ofNet (take 2 rest)" "ty # take 2 rest" "q\<lparr>ptrans := drop 2 rest\<rparr>"] b Cons show ?thesis
      by (simp add: readFieldBegin_def readI16_def readWord_def onTrans_def min_absorb2)
  qed
qed

lemma ends_on_value:
  "(n + 2 \<le> f \<longrightarrow> ends_on n 0 (readValue listT f ty)) \<and> (n + 1 \<le> f \<longrightarrow> ends_on n 0 (readFields listT f))"
proof (induction f arbitrary: n ty)
  case (Suc f)
  have v: "ends_on m 0 (readValue listT f ty)" if "m + 2 \<le> f" for m ty using Suc that by blast
  have fs: "ends_on m 0 (readFields listT f)" if "m + 1 \<le> f" for m using Suc that by blast
  have "ends_on n 0 (readFields listT (Suc f))" if n: "n + 1 \<le> Suc f"
  proof (rule ends_onI)
    fix q :: "bytes tbinary"
    assume q: "length (ptrans q) \<le> n"
    show "(\<exists>e q'. readFields listT (Suc f) q = Inl (e, q') \<and> e \<in> {Transport END_OF_FILE, NEGATIVE_SIZE, SIZE_LIMIT}) \<or>
      (\<exists>x q' bs. readFields listT (Suc f) q = Inr ((x, of_nat (length bs)), q') \<and> ptrans q = bs @ ptrans q' \<and> 0 \<le> length bs)"
    proof (cases rule: fieldBegin_cases [of q])
      case 1
      then show ?thesis by (simp add: readFields.simps)
    next
      case h: (2 ty i q1 bs)
      show ?thesis
      proof (cases "ty = T_STOP")
        case True
        with h show ?thesis by (auto simp: readFields.simps)
      next
        case False
        with h q n have l: "length (ptrans q1) + 2 \<le> f" by auto
        have "ends_on (length (ptrans q1)) 0 (pairV (readValue listT f ty) (readFields listT f))"
          using ends_on_pairV [OF v fs, of "length (ptrans q1)"] l by simp
        from this order_refl show ?thesis
        proof (cases rule: ends_onE)
          case (2 x q2 cs)
          obtain a b where "x = (a, b)" by (cases x)
          with 2 h False have "readFields listT (Suc f) q = Inr (((i, a) # b, of_nat (length (bs @ cs))), q2)"
            "ptrans q = (bs @ cs) @ ptrans q2" by (simp_all add: readFields.simps)
          then show ?thesis by blast
        qed (use h False in \<open>auto simp: readFields.simps\<close>)
      qed
    qed
  qed
  moreover have "ends_on n 0 (readValue listT (Suc f) ty)" if n: "n + 2 \<le> Suc f"
  proof -
    have r: "ends_on (n - 5) 0 (repeatV k (readValue listT f e))" if "5 \<le> n" for k e
      using n that by (intro ends_on_repeatV v) simp
    have m: "ends_on (n - 6) 0 (repeatV k (pairV (readValue listT f e) (readValue listT f e')))" if "6 \<le> n" for k e e'
      using ends_on_pairV [OF v v, of "n - 6"] n that by (intro ends_on_repeatV) simp
    have "ends_on n 0 (\<lambda>q. bindE (readListBegin listT q) (\<lambda>(((e, sz), r1), p1).
        bindE (repeatV (unat sz) (readValue listT f e) p1) (\<lambda>((vs, r2), p2). Inr ((h e vs, r1 + r2), p2))))"
      "ends_on n 0 (\<lambda>q. bindE (readSetBegin listT q) (\<lambda>(((e, sz), r1), p1).
        bindE (repeatV (unat sz) (readValue listT f e) p1) (\<lambda>((vs, r2), p2). Inr ((h e vs, r1 + r2), p2))))"
      for h :: "TType \<Rightarrow> tval list \<Rightarrow> tval"
      using ends_on_weaken [OF ends_on_bindV [OF ends_on_headers(1), of n 0 "\<lambda>x. repeatV (unat (snd x)) (readValue listT f (fst x))" "\<lambda>x. h (fst x)", OF r], of n 0]
        ends_on_weaken [OF ends_on_bindV [OF ends_on_headers(2), of n 0 "\<lambda>x. repeatV (unat (snd x)) (readValue listT f (fst x))" "\<lambda>x. h (fst x)", OF r], of n 0]
      by (simp_all add: split_def)
    moreover have "ends_on n 0 (\<lambda>q. bindE (readMapBegin listT q) (\<lambda>(((k, v, sz), r1), p1).
        bindE (repeatV (unat sz) (pairV (readValue listT f k) (readValue listT f v)) p1) (\<lambda>((vs, r2), p2). Inr ((VMap k v vs, r1 + r2), p2))))"
      using ends_on_weaken [OF ends_on_bindV [OF ends_on_headers(3), of n 0
          "\<lambda>x. repeatV (unat (snd (snd x))) (pairV (readValue listT f (fst x)) (readValue listT f (fst (snd x))))"
          "\<lambda>x. VMap (fst x) (fst (snd x))", OF m], of n 0]
      by (simp add: split_def)
    moreover have "ends_on n 0 (readFields listT f)" using n by (intro fs) simp
    ultimately show ?thesis
      unfolding readValue.simps [abs_def] by (intro ends_on_if ends_on_mapV ends_on_simple ends_on_none)
  qed
  ultimately show ?case by blast
qed simp

end
