(* ===== verification/Thrift_RPC.thy ===== *)
theory Thrift_RPC
  imports Thrift_Messages
begin

text \<open>
  Messages of the binary protocol over framed transports: what is sent arrives, \<open>skip\<close> passes over one
  value, comes to an end on any input, and a wrong version is refused.
\<close>

section \<open>Sending and receiving\<close>

text \<open>Writing does not touch the connection, so the wrapped stream stays the one it was.\<close>

interpretation framed_out: wire_writer "\<lambda>t. fw_inv t \<and> trans t = st" fw_out fw_fits framedT
proof
  fix t k and p :: bytes
  assume "fw_inv t \<and> trans t = st" "fw_fits (length p + k) t"
  with framed_write_ok [of t p k] show "\<exists>t'. t_write framedT p t = Inr ((), t') \<and> (fw_inv t' \<and> trans t' = st) \<and>
      fw_out t' = fw_out t @ p \<and> fw_fits k t'" by auto
qed

interpretation memory_out: wire_writer mb_inv getBuffer mb_fits memoryT
proof
  fix m k and p :: bytes
  assume "mb_inv m" "mb_fits (length p + k) m"
  from mem_write_ok [OF this] show "\<exists>m'. t_write memoryT p m = Inr ((), m') \<and> mb_inv m' \<and>
      getBuffer m' = getBuffer m @ p \<and> mb_fits k m'" by auto
qed

lemma wire_reads:
  assumes "reads l f x bs"
    and "\<And>p q. in_step rinv inc p q \<Longrightarrow> agree (in_step rinv inc) (g p) (f q)"
    and "rinv (ptrans p)" "limits p = l" "inc (ptrans p) = bs @ rest"
  shows "\<exists>p'. g p = Inr ((x, of_nat (length bs)), p') \<and> rinv (ptrans p') \<and> limits p' = l \<and> inc (ptrans p') = rest"
proof -
  let ?q = "\<lparr>ptrans = inc (ptrans p), string_limit = string_limit p, container_limit = container_limit p,
    strict_read = strict_read p, strict_write = strict_write p, string_buf_size = 0\<rparr>"
  have s: "in_step rinv inc p ?q" using assms(3) by (simp add: in_step_def)
  from readsD [OF assms(1), of ?q rest] assms(4,5) obtain q' where
    q': "f ?q = Inr ((x, of_nat (length bs)), q')" "limits q' = l" "ptrans q' = rest" by (auto simp: limits_def)
  from agreeD [OF assms(2) [OF s]] q' show ?thesis by (auto simp: in_step_def limits_def)
qed

lemma framed_sends:
  assumes "fw_inv t0" "wBase t0 = 4" "trans t0 = st" "length name < 2 ^ 31" "well_typed sl cl v"
    and "length (encodeHeader strict name ty seqid @ encode v) + 4 \<le> 0x7fffffff"
  shows "\<exists>p1 p2 t3. writeMessageBegin framedT name ty seqid (new_TBinaryProtocol_with t0 sl' cl' sr strict)
        = Inr (of_nat (length (encodeHeader strict name ty seqid)), p1) \<and>
      writeValue framedT v p1 = Inr (of_nat (length (encode v)), p2) \<and> framed_flush (ptrans p2) = Inr ((), t3) \<and>
      tx (trans t3) = tx st @ frame (encodeHeader strict name ty seqid @ encode v)"
proof -
  let ?p = "new_TBinaryProtocol_with t0 sl' cl' sr strict" and ?h = "encodeHeader strict name ty seqid"
  have p: "ptrans ?p = t0" "strict_write ?p = strict" by (simp_all add: new_TBinaryProtocol_with_def)
  from assms have o: "fw_out t0 = []" and f: "fw_fits (length ?h + (length (encode v) + 0)) t0"
    by (simp_all add: fw_defs)
  from framed_out.header_emits [OF assms(4), of ?p st ty seqid "length (encode v) + 0"] p f assms(1,3) o obtain t1 where
    t1: "writeMessageBegin framedT name ty seqid ?p = Inr (of_nat (length ?h), ?p\<lparr>ptrans := t1\<rparr>)" "fw_inv t1" "trans t1 = st"
      "fw_out t1 = ?h" "fw_fits (length (encode v) + 0) t1" by auto
  from emitsD [OF framed_out.value_emits [OF assms(5), of st], where p = "?p\<lparr>ptrans := t1\<rparr>" and k = 0] t1(2-5) obtain t2 where
    t2: "writeValue framedT v (?p\<lparr>ptrans := t1\<rparr>) = Inr (of_nat (length (encode v)), ?p\<lparr>ptrans := t2\<rparr>)"
      "fw_inv t2" "trans t2 = st" "fw_out t2 = ?h @ encode v" by auto
  have "?h \<noteq> []" by (auto simp: encodeHeader_def netBytes_def)
  with framed_flush_ok [OF t2(2)] t2(3,4) obtain t3 where "framed_flush t2 = Inr ((), t3)"
      "tx (trans t3) = tx st @ frame (?h @ encode v)" by auto
  with t1(1) t2(1) show ?thesis by (intro exI [of _ "?p\<lparr>ptrans := t1\<rparr>"] exI [of _ "?p\<lparr>ptrans := t2\<rparr>"] exI [of _ t3]) simp
qed

lemma framed_receives:
  assumes "chunked rcv" "arriving rcv = frame (encodeHeader strict name ty seqid @ encode v)"
    and "length (encodeHeader strict name ty seqid @ encode v) < 2 ^ 31"
    and "string_fits sl (length name)" "ty \<in> set message_types" "strict \<or> \<not> sr" "well_typed sl cl v"
  shows "\<exists>q1 q2. readMessageBegin framedT (new_TBinaryProtocol_with (framed_init sz rcv) sl cl sr sw)
        = Inr (((name, ty, seqid), of_nat (length (encodeHeader strict name ty seqid))), q1) \<and>
      readValue framedT (length (encode v) + 2) (ttype v) q1 = Inr ((v, of_nat (length (encode v))), q2) \<and>
      fr_inc (ptrans q2) = []"
proof -
  let ?h = "encodeHeader strict name ty seqid"
  let ?p = "new_TBinaryProtocol_with (framed_init sz rcv) sl cl sr sw"
  have "?h \<noteq> []" by (auto simp: encodeHeader_def netBytes_def)
  with frames_framed [of "[?h @ encode v]"] assms(1-3) have p: "fr_inv (ptrans ?p)" "fr_inc (ptrans ?p) = ?h @ encode v"
    by (simp_all add: fr_inv_def fr_inc_def framed_init_def setReadBuffer_def setWriteBuffer_def new_TBinaryProtocol_with_def)
  have l: "limits ?p = (sl, cl, sr)" by (simp add: limits_def new_TBinaryProtocol_with_def)
  have "reads (sl, cl, sr) (readMessageBegin listT) (name, ty, seqid) ?h" using assms(4-6) by (intro reads_header) simp_all
  from wire_reads [where g = "readMessageBegin framedT", OF this framed_wire.readMessageBegin_wire p(1) l p(2)] obtain q1 where
    q1: "readMessageBegin framedT ?p = Inr (((name, ty, seqid), of_nat (length ?h)), q1)" "fr_inv (ptrans q1)"
      "limits q1 = (sl, cl, sr)" "fr_inc (ptrans q1) = encode v @ []" by auto
  have "reads (sl, cl, sr) (readValue listT (length (encode v) + 2) (ttype v)) v (encode v)"
    using assms(7) by (intro reads_value) simp_all
  from wire_reads [where g = "readValue framedT (length (encode v) + 2) (ttype v)" and rest = "[]",
      OF this framed_wire.readValue_wire [THEN conjunct1] q1(2-4)] q1(1) show ?thesis by blast
qed

text \<open>
  C4. A call sent is the call received: a client writes the header of a message and a value of any type with the binary
  protocol to a framed transport and flushes; whatever way the network cuts the bytes, the server reads
  the same name, message type, sequence number and value, every operation reports on both sides
  the same number of bytes, and nothing is left. Strict and old-style headers are both understood.
\<close>

theorem message_roundtrip:
  assumes "link_up st" "tx st = []" "sz < 2 ^ 31" "well_typed sl cl v" "string_fits sl (length name)"
    and "ty \<in> set message_types" "strict \<or> \<not> sr" "length (encodeHeader strict name ty seqid @ encode v) + 4 \<le> 0x7fffffff"
  shows "\<exists>t0 n1 p1 n2 p2 t3. framed_new sz st = Inr ((), t0) \<and>
      writeMessageBegin framedT name ty seqid (new_TBinaryProtocol_with t0 0 0 False strict) = Inr (n1, p1) \<and>
      writeValue framedT v p1 = Inr (n2, p2) \<and> framed_flush (ptrans p2) = Inr ((), t3) \<and>
      (\<forall>rcv. chunked rcv \<and> arriving rcv = tx (trans t3) \<longrightarrow>
        (\<exists>q1 q2. readMessageBegin framedT (new_TBinaryProtocol_with (framed_init sz' rcv) sl cl sr sw)
            = Inr (((name, ty, seqid), n1), q1) \<and>
          readValue framedT (length (encode v) + 2) (ttype v) q1 = Inr ((v, n2), q2) \<and> fr_inc (ptrans q2) = []))"
proof -
  from framed_new_ok [OF assms(1,3)] obtain t0 where t0: "framed_new sz st = Inr ((), t0)" "fw_inv t0" "wBase t0 = 4" "trans t0 = st"
    by blast
  have "length name < 2 ^ 31" using assms(5) by (simp add: string_fits_def)
  from framed_sends [OF t0(2-4) this assms(4,8), of 0 0 False] assms(2) obtain p1 p2 t3 where
    s: "writeMessageBegin framedT name ty seqid (new_TBinaryProtocol_with t0 0 0 False strict)
        = Inr (of_nat (length (encodeHeader strict name ty seqid)), p1)"
      "writeValue framedT v p1 = Inr (of_nat (length (encode v)), p2)" "framed_flush (ptrans p2) = Inr ((), t3)"
      "tx (trans t3) = frame (encodeHeader strict name ty seqid @ encode v)" by auto
  have "length (encodeHeader strict name ty seqid @ encode v) < 2 ^ 31" using assms(8) by simp
  with framed_receives [OF _ _ this assms(5-7,4), of _ sz' sw] s(4)
  have "\<exists>q1 q2. readMessageBegin framedT (new_TBinaryProtocol_with (framed_init sz' rcv) sl cl sr sw)
        = Inr (((name, ty, seqid), of_nat (length (encodeHeader strict name ty seqid))), q1) \<and>
      readValue framedT (length (encode v) + 2) (ttype v) q1 = Inr ((v, of_nat (length (encode v))), q2) \<and> fr_inc (ptrans q2) = []"
    if "chunked rcv" "arriving rcv = tx (trans t3)" for rcv using that by simp
  with t0(1) s(1-3) show ?thesis by blast
qed

definition demo_args :: tval where
  "demo_args = VStruct [(1, VString [107]), (2, VList T_I32 [VI32 1, VI32 2]), (3, VMap T_BYTE T_BOOL [(VByte 7, VBool True)])]"

theorem message_roundtrip_witness:
  "\<exists>t0 n1 p1 n2 p2 t3. framed_new 512 demo_net = Inr ((), t0) \<and>
      writeMessageBegin framedT [103, 101, 116] 1 9 (new_TBinaryProtocol_with t0 0 0 False True) = Inr (n1, p1) \<and>
      writeValue framedT demo_args p1 = Inr (n2, p2) \<and> framed_flush (ptrans p2) = Inr ((), t3) \<and>
      (\<forall>rcv. chunked rcv \<and> arriving rcv = tx (trans t3) \<longrightarrow>
        (\<exists>q1 q2. readMessageBegin framedT (new_TBinaryProtocol_with (framed_init 512 rcv) 100 10 True True)
            = Inr ((([103, 101, 116], 1, 9), n1), q1) \<and>
          readValue framedT (length (encode demo_args) + 2) (ttype demo_args) q1 = Inr ((demo_args, n2), q2) \<and>
          fr_inc (ptrans q2) = []))"
  by (rule message_roundtrip)
    (simp_all add: demo_net_def demo_args_def string_fits_def count_fits_def message_types_def encodeHeader_def)

section \<open>Skipping\<close>

lemma valueOf_Inr_iff: "valueOf r = Inr (n, p) \<longleftrightarrow> (\<exists>x. r = Inr ((x, n), p))"
  by (cases r) (auto simp: valueOf_def)

lemma valueOf_Inl_iff: "valueOf r = Inl e \<longleftrightarrow> r = Inl e"
  by (cases r) (auto simp: valueOf_def)

text \<open>
  C15. A reader that does not know a field can skip it: from the first byte of a value of any type, \<open>skip\<close>
  moves to the first byte behind it and returns the number of bytes in between.
\<close>

theorem skip_one_value:
  assumes "fr_inv (ptrans p)" "fr_inc (ptrans p) = encode v @ rest"
    and "well_typed (string_limit p) (container_limit p) v" "length (encode v) + 2 \<le> f"
  shows "\<exists>p'. skip framedT f (ttype v) p = Inr (of_nat (length (encode v)), p') \<and>
    fr_inv (ptrans p') \<and> fr_inc (ptrans p') = rest"
proof -
  have "reads (limits p) (readValue listT f (ttype v)) v (encode v)"
    using assms(3,4) by (intro reads_value) (simp_all add: limits_def)
  from wire_reads [where g = "readValue framedT f (ttype v)",
      OF this framed_wire.readValue_wire [THEN conjunct1] assms(1) refl assms(2)]
  show ?thesis by (auto simp: skip_readValue valueOf_Inr_iff)
qed

theorem skip_one_value_witness:
  "\<exists>p'. skip framedT 8 T_I32 (new_TBinaryProtocol (framed_init 512 (demo_net\<lparr>rx := [[0, 0, 0], [5, 0, 0, 0], [1, 9]]\<rparr>)))
     = Inr (4, p') \<and> fr_inv (ptrans p') \<and> fr_inc (ptrans p') = [9]"
proof -
  let ?t = "framed_init 512 (demo_net\<lparr>rx := [[0, 0, 0], [5, 0, 0, 0], [1, 9]]\<rparr>)"
  have a: "arriving (trans ?t) = frame [0, 0, 0, 1, 9]" and c: "chunked (trans ?t)"
    by (simp_all add: framed_init_def setReadBuffer_def setWriteBuffer_def demo_net_def arriving_def chunked_def frame_def be32_def)
  with frames_framed [of "[[0, 0, 0, 1, 9]]"] have "fr_inv ?t" "fr_inc ?t = encode (VI32 1) @ [9]"
    by (simp_all add: fr_inv_def fr_inc_def framed_init_def setReadBuffer_def setWriteBuffer_def netBytes_def upt_conv_Cons)
  with skip_one_value [of "new_TBinaryProtocol ?t" "VI32 1" "[9]" 8] show ?thesis
    by (simp add: new_TBinaryProtocol_def)
qed

text \<open>Enough is enough: where the fuel does not run out, more of it gives the same result.\<close>

definition deep :: "('a, 'p) pres \<Rightarrow> bool" where
  "deep r \<longleftrightarrow> (\<exists>p. r = Inl (TOO_DEEP, p))"

lemma deep_bind:
  assumes "\<not> deep (bindE r f)"
  shows "\<not> deep r" and "r = Inr x \<Longrightarrow> \<not> deep (f x)"
  using assms by (auto simp: deep_def)

lemma bind_same:
  assumes "\<not> deep (bindE r f)" "\<not> deep r \<Longrightarrow> r = r'" "\<And>x. \<not> deep (f x) \<Longrightarrow> f x = g x"
  shows "bindE r f = bindE r' g"
  using assms by (cases r) (auto simp: deep_def)

lemma pairV_same:
  assumes "\<not> deep (pairV f g p)" "\<And>p. \<not> deep (f p) \<Longrightarrow> f p = f' p" "\<And>p. \<not> deep (g p) \<Longrightarrow> g p = g' p"
  shows "pairV f g p = pairV f' g' p"
  using assms(1) unfolding pairV_def
proof (rule bind_same)
  fix x
  show "(case x of (xn, p1) \<Rightarrow> (case xn of (x, n) \<Rightarrow> \<lambda>p1. bindE (g p1) (\<lambda>((y, m), p2). Inr (((x, y), n + m), p2))) p1)
      = (case x of (xn, p1) \<Rightarrow> (case xn of (x, n) \<Rightarrow> \<lambda>p1. bindE (g' p1) (\<lambda>((y, m), p2). Inr (((x, y), n + m), p2))) p1)"
    if "\<not> deep (case x of (xn, p1) \<Rightarrow> (case xn of (x, n) \<Rightarrow> \<lambda>p1. bindE (g p1) (\<lambda>((y, m), p2). Inr (((x, y), n + m), p2))) p1)"
    using that by (auto intro: bind_same [OF _ assms(3)] split: prod.splits)
qed (rule assms(2))

lemma mapV_deep [simp]: "deep (mapV h r) \<longleftrightarrow> deep r"
  by (cases r) (auto simp: deep_def mapV_def)

lemma repeatV_same:
  assumes "\<not> deep (repeatV n f p)" "\<And>p. \<not> deep (f p) \<Longrightarrow> f p = f' p"
  shows "repeatV n f p = repeatV n f' p"
  using assms(1)
proof (induction n arbitrary: p)
  case (Suc n)
  then have "\<not> deep (pairV f (repeatV n f) p)" by simp
  from pairV_same [OF this assms(2) Suc.IH] show ?case by simp
qed simp

lemma readValue_more:
  "(\<not> deep (readValue tr f ty p) \<longrightarrow> readValue tr f ty p = readValue tr (Suc f) ty p) \<and>
   (\<not> deep (readFields tr f p) \<longrightarrow> readFields tr f p = readFields tr (Suc f) p)"
proof (induction f arbitrary: ty p)
  case 0
  show ?case by (simp add: readValue.simps readFields.simps deep_def)
next
  case (Suc f)
  have v: "\<not> deep (readValue tr f ty p) \<Longrightarrow> readValue tr f ty p = readValue tr (Suc f) ty p" for ty p using Suc by blast
  have fs: "\<not> deep (readFields tr f p) \<Longrightarrow> readFields tr f p = readFields tr (Suc f) p" for p using Suc by blast
  have r: "bindE (repeatV n (readValue tr f e) p) h = bindE (repeatV n (readValue tr (Suc f) e) p) h"
    if "\<not> deep (bindE (repeatV n (readValue tr f e) p) h)" for n e p and h :: "_ \<Rightarrow> (tval \<times> w32, _) pres"
    using that by (rule bind_same) (erule repeatV_same, erule v, rule refl)
  have m: "bindE (repeatV n (pairV (readValue tr f k) (readValue tr f e)) p) h
      = bindE (repeatV n (pairV (readValue tr (Suc f) k) (readValue tr (Suc f) e)) p) h"
    if "\<not> deep (bindE (repeatV n (pairV (readValue tr f k) (readValue tr f e)) p) h)" for n k e p and h :: "_ \<Rightarrow> (tval \<times> w32, _) pres"
    using that by (rule bind_same) (erule repeatV_same, erule pairV_same, erule v, erule v, rule refl)
  have g: "bindE (pairV (readValue tr f e) (readFields tr f) p) h = bindE (pairV (readValue tr (Suc f) e) (readFields tr (Suc f)) p) h"
    if "\<not> deep (bindE (pairV (readValue tr f e) (readFields tr f) p) h)" for e p and h :: "_ \<Rightarrow> ((16 word \<times> tval) list \<times> w32, _) pres"
    using that by (rule bind_same) (erule pairV_same, erule v, erule fs, rule refl)
  have "readFields tr (Suc f) p = readFields tr (Suc (Suc f)) p" if "\<not> deep (readFields tr (Suc f) p)"
    using that unfolding readFields.simps(2) [of tr f p] readFields.simps(2) [of tr "Suc f" p]
    by (rule bind_same) (auto intro!: g split: if_splits)
  moreover have "readValue tr (Suc f) ty p = readValue tr (Suc (Suc f)) ty p" if "\<not> deep (readValue tr (Suc f) ty p)"
    using that unfolding readValue.simps(2) [of tr f ty p] readValue.simps(2) [of tr "Suc f" ty p]
    by (auto intro!: bind_same r m arg_cong [where f = "mapV VStruct", OF fs] split: if_splits)
  ultimately show ?case by blast
qed

lemma skip_more:
  assumes "\<not> deep (skip tr f ty p)" "f \<le> g"
  shows "skip tr g ty p = skip tr f ty p"
  using assms(2)
proof (induction g rule: dec_induct)
  case (step n)
  have "deep (valueOf r) \<longleftrightarrow> deep r" for r :: "(tval \<times> w32, 's tbinary) pres" by (cases r) (auto simp: deep_def valueOf_def)
  then have "\<not> deep (readValue tr n ty p)" using step.IH assms(1) by (metis skip_readValue)
  with readValue_more [of tr n ty p] have "readValue tr (Suc n) ty p = readValue tr n ty p" by simp
  with step.IH show ?case by (simp add: skip_readValue)
qed simp

text \<open>
  C12. \<open>skip\<close> ends on any input. Whatever bytes arrive and whatever type is asked for, it returns
  after the end of a value, with the number of bytes it has passed, or fails because the input ends, a size is
  negative or a size exceeds a limit. Its recursion and its loop over fields together go no deeper than the number of
  bytes plus two; a larger bound changes nothing.
\<close>

theorem skip_ends:
  assumes "fr_inv (ptrans p)" "length (fr_inc (ptrans p)) + 2 \<le> f"
  shows "((\<exists>bs p'. skip framedT f ty p = Inr (of_nat (length bs), p') \<and> fr_inc (ptrans p) = bs @ fr_inc (ptrans p')) \<or>
      (\<exists>e p'. skip framedT f ty p = Inl (e, p') \<and> e \<in> {Transport END_OF_FILE, NEGATIVE_SIZE, SIZE_LIMIT})) \<and>
    (\<forall>g \<ge> f. skip framedT g ty p = skip framedT f ty p)"
proof -
  let ?q = "\<lparr>ptrans = fr_inc (ptrans p), string_limit = string_limit p, container_limit = container_limit p,
    strict_read = strict_read p, strict_write = strict_write p, string_buf_size = 0\<rparr>"
  have "in_step fr_inv fr_inc p ?q" using assms(1) by (simp add: in_step_def)
  note ag = agreeD [OF framed_wire.skip_wire [OF this, of f ty]]
  have "ends_on (length (ptrans ?q)) 0 (readValue listT f ty)" using ends_on_value assms(2) by simp
  from this order_refl have "(\<exists>bs p'. skip framedT f ty p = Inr (of_nat (length bs), p') \<and> fr_inc (ptrans p) = bs @ fr_inc (ptrans p')) \<or>
      (\<exists>e p'. skip framedT f ty p = Inl (e, p') \<and> e \<in> {Transport END_OF_FILE, NEGATIVE_SIZE, SIZE_LIMIT})"
  proof (cases rule: ends_onE)
    case (1 e q')
    with ag show ?thesis by (auto simp: skip_readValue)
  next
    case (2 x q' bs)
    with ag show ?thesis by (fastforce simp: skip_readValue in_step_def)
  qed
  moreover from this have "\<not> deep (skip framedT f ty p)" by (auto simp: deep_def)
  ultimately show ?thesis using skip_more by blast
qed

theorem skip_ends_witness:
  "skip framedT 100 T_LIST (new_TBinaryProtocol (framed_init 512 (demo_net\<lparr>rx := [[0, 0, 0, 5, 12, 128, 0, 0, 1]]\<rparr>)))
     = skip framedT 7 T_LIST (new_TBinaryProtocol (framed_init 512 (demo_net\<lparr>rx := [[0, 0, 0, 5, 12, 128, 0, 0, 1]]\<rparr>)))"
proof -
  let ?t = "framed_init 512 (demo_net\<lparr>rx := [[0, 0, 0, 5, 12, 128, 0, 0, 1]]\<rparr>)"
  have "arriving (trans ?t) = frame [12, 128, 0, 0, 1]" "chunked (trans ?t)"
    by (simp_all add: framed_init_def setReadBuffer_def setWriteBuffer_def demo_net_def arriving_def chunked_def frame_def be32_def)
  with frames_framed [of "[[12, 128, 0, 0, 1]]"] have "fr_inv ?t" "fr_inc ?t = [12, 128, 0, 0, 1]"
    by (simp_all add: fr_inv_def fr_inc_def framed_init_def setReadBuffer_def setWriteBuffer_def)
  then have "fr_inv (ptrans (new_TBinaryProtocol ?t))" "length (fr_inc (ptrans (new_TBinaryProtocol ?t))) + 2 \<le> 7"
    by (simp_all add: new_TBinaryProtocol_def)
  from conjunct2 [OF skip_ends [OF this, of T_LIST], THEN spec, of 100, THEN mp] show ?thesis by (simp only: numeral_le_iff semiring_norm)
qed

section \<open>Refusing\<close>

text \<open>
  C40. What the first four bytes of a message decide. A word with the sign bit set must carry the version of
  this protocol, and a word without it is refused in strict mode; the rest of the message is left
  unread. Otherwise the word is a version and the name follows, or it is the length of the name.
\<close>

theorem version_checked:
  assumes "fr_inv (ptrans p)" "fr_inc (ptrans p) = netBytes 4 (w :: w32) @ rest"
    and "if sint w < 0 then w AND VERSION_MASK \<noteq> VERSION_1 else strict_read p"
  shows "\<exists>p'. readMessageBegin framedT p = Inl (BAD_VERSION, p') \<and> fr_inv (ptrans p') \<and> fr_inc (ptrans p') = rest"
proof -
  let ?q = "\<lparr>ptrans = fr_inc (ptrans p), string_limit = string_limit p, container_limit = container_limit p,
    strict_read = strict_read p, strict_write = strict_write p, string_buf_size = 0\<rparr>"
  have "in_step fr_inv fr_inc p ?q" using assms(1) by (simp add: in_step_def)
  note ag = agreeD [OF framed_wire.readMessageBegin_wire [OF this]]
  have "readMessageBegin listT ?q = Inl (BAD_VERSION, ?q\<lparr>ptrans := rest\<rparr>)"
    using assms(2,3) by (simp add: readMessageBegin_def readI32_list split: if_splits)
  with ag show ?thesis by (auto simp: in_step_def)
qed

theorem version_checked_witness:
  "\<exists>p'. readMessageBegin framedT (new_TBinaryProtocol (framed_init 512 (demo_net\<lparr>rx := [[0, 0, 0, 5, 128, 2, 0, 1, 7]]\<rparr>)))
     = Inl (BAD_VERSION, p') \<and> fr_inv (ptrans p') \<and> fr_inc (ptrans p') = [7]"
proof -
  let ?t = "framed_init 512 (demo_net\<lparr>rx := [[0, 0, 0, 5, 128, 2, 0, 1, 7]]\<rparr>)"
  have "arriving (trans ?t) = frame [128, 2, 0, 1, 7]" "chunked (trans ?t)"
    by (simp_all add: framed_init_def setReadBuffer_def setWriteBuffer_def demo_net_def arriving_def chunked_def frame_def be32_def)
  with frames_framed [of "[[128, 2, 0, 1, 7]]"] have "fr_inv ?t" "fr_inc ?t = netBytes 4 (0x80020001 :: w32) @ [7]"
    by (simp_all add: fr_inv_def fr_inc_def framed_init_def setReadBuffer_def setWriteBuffer_def netBytes_def upt_conv_Cons)
  with version_checked [of "new_TBinaryProtocol ?t" "0x80020001" "[7]"] show ?thesis by (simp add: new_TBinaryProtocol_def)
qed

end
