(* ===== verification/Memcached_Hash.thy ===== *)
theory Memcached_Hash
  imports Prelude
begin

text \<open>
  The hash function of memcached (\<open>hash.c\<close>), for both byte orders. The little endian version reads the
  key in words of 32 bits, of 16 bits or in bytes, depending on the alignment of its address, and the
  32-bit version reads up to three bytes behind the key and masks them off. Memory from the start of
  the key on is a function, so that what lies behind the key is arbitrary.
\<close>

unbundle bit_operations_syntax

section \<open>Mixing\<close>

type_synonym memory = "nat \<Rightarrow> 8 word"

definition rot :: "w32 \<Rightarrow> nat \<Rightarrow> w32" where
  "rot x k = push_bit k x XOR drop_bit (32 - k) x"

definition mix :: "w32 \<times> w32 \<times> w32 \<Rightarrow> w32 \<times> w32 \<times> w32" where
  "mix = (\<lambda>(a, b, c).
     (let a = a - c; a = a XOR rot c 4; c = c + b;
          b = b - a; b = b XOR rot a 6; a = a + c;
          c = c - b; c = c XOR rot b 8; b = b + a;
          a = a - c; a = a XOR rot c 16; c = c + b;
          b = b - a; b = b XOR rot a 19; a = a + c;
          c = c - b; c = c XOR rot b 4; b = b + a in
      (a, b, c)))"

definition final :: "w32 \<times> w32 \<times> w32 \<Rightarrow> w32" where
  "final = (\<lambda>(a, b, c).
     (let c = c XOR b; c = c - rot b 14;
          a = a XOR c; a = a - rot c 11;
          b = b XOR a; b = b - rot a 25;
          c = c XOR b; c = c - rot b 16;
          a = a XOR c; a = a - rot c 4;
          b = b XOR a; b = b - rot a 14;
          c = c XOR b; c = c - rot b 24 in
      c))"

definition initState :: "nat \<Rightarrow> w32 \<Rightarrow> w32 \<times> w32 \<times> w32" where
  "initState len initval = (let x = 0xdeadbeef + of_nat len + initval in (x, x, x))"

text \<open>A byte as \<open>uint32_t\<close>, and reading 16 and 32 bits at an aligned address in either byte order.\<close>

definition k8 :: "memory \<Rightarrow> nat \<Rightarrow> w32" where
  "k8 m i = ucast (m i)"

definition k16 :: "memory \<Rightarrow> nat \<Rightarrow> w32" where
  "k16 m i = k8 m (2 * i) + push_bit 8 (k8 m (2 * i + 1))"

definition k32 :: "memory \<Rightarrow> nat \<Rightarrow> w32" where
  "k32 m i = k8 m (4 * i) + push_bit 8 (k8 m (4 * i + 1)) + push_bit 16 (k8 m (4 * i + 2)) + push_bit 24 (k8 m (4 * i + 3))"

definition k32_big :: "memory \<Rightarrow> nat \<Rightarrow> w32" where
  "k32_big m i = push_bit 24 (k8 m (4 * i)) + push_bit 16 (k8 m (4 * i + 1)) + push_bit 8 (k8 m (4 * i + 2)) + k8 m (4 * i + 3)"

abbreviation advance :: "nat \<Rightarrow> memory \<Rightarrow> memory" where
  "advance n m \<equiv> (\<lambda>i. m (i + n))"

section \<open>Little endian\<close>

text \<open>The last block of each version; \<open>None\<close> is the early return for len 0.\<close>

definition last32 :: "memory \<Rightarrow> nat \<Rightarrow> w32 \<times> w32 \<times> w32 \<Rightarrow> (w32 \<times> w32 \<times> w32) option" where
  "last32 m len = (\<lambda>(a, b, c).
     if len = 12 then Some (a + k32 m 0, b + k32 m 1, c + k32 m 2)
     else if len = 11 then Some (a + k32 m 0, b + k32 m 1, c + (k32 m 2 AND 0xffffff))
     else if len = 10 then Some (a + k32 m 0, b + k32 m 1, c + (k32 m 2 AND 0xffff))
     else if len = 9 then Some (a + k32 m 0, b + k32 m 1, c + (k32 m 2 AND 0xff))
     else if len = 8 then Some (a + k32 m 0, b + k32 m 1, c)
     else if len = 7 then Some (a + k32 m 0, b + (k32 m 1 AND 0xffffff), c)
     else if len = 6 then Some (a + k32 m 0, b + (k32 m 1 AND 0xffff), c)
     else if len = 5 then Some (a + k32 m 0, b + (k32 m 1 AND 0xff), c)
     else if len = 4 then Some (a + k32 m 0, b, c)
     else if len = 3 then Some (a + (k32 m 0 AND 0xffffff), b, c)
     else if len = 2 then Some (a + (k32 m 0 AND 0xffff), b, c)
     else if len = 1 then Some (a + (k32 m 0 AND 0xff), b, c)
     else None)"

fun hash32 :: "memory \<Rightarrow> nat \<Rightarrow> w32 \<times> w32 \<times> w32 \<Rightarrow> w32" where
  "hash32 m len (a, b, c) =
     (if len > 12 then hash32 (advance 12 m) (len - 12) (mix (a + k32 m 0, b + k32 m 1, c + k32 m 2))
      else (case last32 m len (a, b, c) of None \<Rightarrow> c | Some s \<Rightarrow> final s))"

definition last16 :: "memory \<Rightarrow> nat \<Rightarrow> w32 \<times> w32 \<times> w32 \<Rightarrow> (w32 \<times> w32 \<times> w32) option" where
  "last16 m len = (\<lambda>(a, b, c).
     (let w = (\<lambda>i. k16 m i + push_bit 16 (k16 m (i + 1))) in
      if len = 12 then Some (a + w 0, b + w 2, c + w 4)
      else if len = 11 then Some (a + w 0, b + w 2, c + push_bit 16 (k8 m 10) + k16 m 4)
      else if len = 10 then Some (a + w 0, b + w 2, c + k16 m 4)
      else if len = 9 then Some (a + w 0, b + w 2, c + k8 m 8)
      else if len = 8 then Some (a + w 0, b + w 2, c)
      else if len = 7 then Some (a + w 0, b + push_bit 16 (k8 m 6) + k16 m 2, c)
      else if len = 6 then Some (a + w 0, b + k16 m 2, c)
      else if len = 5 then Some (a + w 0, b + k8 m 4, c)
      else if len = 4 then Some (a + w 0, b, c)
      else if len = 3 then Some (a + push_bit 16 (k8 m 2) + k16 m 0, b, c)
      else if len = 2 then Some (a + k16 m 0, b, c)
      else if len = 1 then Some (a + k8 m 0, b, c)
      else None))"

fun hash16 :: "memory \<Rightarrow> nat \<Rightarrow> w32 \<times> w32 \<times> w32 \<Rightarrow> w32" where
  "hash16 m len (a, b, c) =
     (if len > 12
      then hash16 (advance 12 m) (len - 12)
             (mix (a + (k16 m 0 + push_bit 16 (k16 m 1)), b + (k16 m 2 + push_bit 16 (k16 m 3)),
                   c + (k16 m 4 + push_bit 16 (k16 m 5))))
      else (case last16 m len (a, b, c) of None \<Rightarrow> c | Some s \<Rightarrow> final s))"

text \<open>Bytes: the cases of the switch fall through, from the last byte to the first.\<close>

definition last8 :: "memory \<Rightarrow> nat \<Rightarrow> w32 \<times> w32 \<times> w32 \<Rightarrow> (w32 \<times> w32 \<times> w32) option" where
  "last8 m len = (\<lambda>(a, b, c).
     if len = 0 then None
     else (let c = (if len \<ge> 12 then c + push_bit 24 (k8 m 11) else c);
               c = (if len \<ge> 11 then c + push_bit 16 (k8 m 10) else c);
               c = (if len \<ge> 10 then c + push_bit 8 (k8 m 9) else c);
               c = (if len \<ge> 9 then c + k8 m 8 else c);
               b = (if len \<ge> 8 then b + push_bit 24 (k8 m 7) else b);
               b = (if len \<ge> 7 then b + push_bit 16 (k8 m 6) else b);
               b = (if len \<ge> 6 then b + push_bit 8 (k8 m 5) else b);
               b = (if len \<ge> 5 then b + k8 m 4 else b);
               a = (if len \<ge> 4 then a + push_bit 24 (k8 m 3) else a);
               a = (if len \<ge> 3 then a + push_bit 16 (k8 m 2) else a);
               a = (if len \<ge> 2 then a + push_bit 8 (k8 m 1) else a);
               a = a + k8 m 0 in
           Some (a, b, c)))"

fun hash8 :: "memory \<Rightarrow> nat \<Rightarrow> w32 \<times> w32 \<times> w32 \<Rightarrow> w32" where
  "hash8 m len (a, b, c) =
     (if len > 12
      then hash8 (advance 12 m) (len - 12)
             (mix (a + k8 m 0 + push_bit 8 (k8 m 1) + push_bit 16 (k8 m 2) + push_bit 24 (k8 m 3),
                   b + k8 m 4 + push_bit 8 (k8 m 5) + push_bit 16 (k8 m 6) + push_bit 24 (k8 m 7),
                   c + k8 m 8 + push_bit 8 (k8 m 9) + push_bit 16 (k8 m 10) + push_bit 24 (k8 m 11)))
      else (case last8 m len (a, b, c) of None \<Rightarrow> c | Some s \<Rightarrow> final s))"

declare hash32.simps [simp del] hash16.simps [simp del] hash8.simps [simp del]

definition hash_little :: "nat \<Rightarrow> memory \<Rightarrow> nat \<Rightarrow> w32 \<Rightarrow> w32" where
  "hash_little addr m len initval =
     (let s = initState len initval in
      if addr mod 4 = 0 then hash32 m len s
      else if addr mod 2 = 0 then hash16 m len s
      else hash8 m len s)"

section \<open>Big endian\<close>

definition last32_big :: "memory \<Rightarrow> nat \<Rightarrow> w32 \<times> w32 \<times> w32 \<Rightarrow> (w32 \<times> w32 \<times> w32) option" where
  "last32_big m len = (\<lambda>(a, b, c).
     if len = 12 then Some (a + k32_big m 0, b + k32_big m 1, c + k32_big m 2)
     else if len = 11 then Some (a + k32_big m 0, b + k32_big m 1, c + (k32_big m 2 AND 0xffffff00))
     else if len = 10 then Some (a + k32_big m 0, b + k32_big m 1, c + (k32_big m 2 AND 0xffff0000))
     else if len = 9 then Some (a + k32_big m 0, b + k32_big m 1, c + (k32_big m 2 AND 0xff000000))
     else if len = 8 then Some (a + k32_big m 0, b + k32_big m 1, c)
     else if len = 7 then Some (a + k32_big m 0, b + (k32_big m 1 AND 0xffffff00), c)
     else if len = 6 then Some (a + k32_big m 0, b + (k32_big m 1 AND 0xffff0000), c)
     else if len = 5 then Some (a + k32_big m 0, b + (k32_big m 1 AND 0xff000000), c)
     else if len = 4 then Some (a + k32_big m 0, b, c)
     else if len = 3 then Some (a + (k32_big m 0 AND 0xffffff00), b, c)
     else if len = 2 then Some (a + (k32_big m 0 AND 0xffff0000), b, c)
     else if len = 1 then Some (a + (k32_big m 0 AND 0xff000000), b, c)
     else None)"

fun hash32_big :: "memory \<Rightarrow> nat \<Rightarrow> w32 \<times> w32 \<times> w32 \<Rightarrow> w32" where
  "hash32_big m len (a, b, c) =
     (if len > 12 then hash32_big (advance 12 m) (len - 12) (mix (a + k32_big m 0, b + k32_big m 1, c + k32_big m 2))
      else (case last32_big m len (a, b, c) of None \<Rightarrow> c | Some s \<Rightarrow> final s))"

definition last8_big :: "memory \<Rightarrow> nat \<Rightarrow> w32 \<times> w32 \<times> w32 \<Rightarrow> (w32 \<times> w32 \<times> w32) option" where
  "last8_big m len = (\<lambda>(a, b, c).
     if len = 0 then None
     else (let c = (if len \<ge> 12 then c + k8 m 11 else c);
               c = (if len \<ge> 11 then c + push_bit 8 (k8 m 10) else c);
               c = (if len \<ge> 10 then c + push_bit 16 (k8 m 9) else c);
               c = (if len \<ge> 9 then c + push_bit 24 (k8 m 8) else c);
               b = (if len \<ge> 8 then b + k8 m 7 else b);
               b = (if len \<ge> 7 then b + push_bit 8 (k8 m 6) else b);
               b = (if len \<ge> 6 then b + push_bit 16 (k8 m 5) else b);
               b = (if len \<ge> 5 then b + push_bit 24 (k8 m 4) else b);
               a = (if len \<ge> 4 then a + k8 m 3 else a);
               a = (if len \<ge> 3 then a + push_bit 8 (k8 m 2) else a);
               a = (if len \<ge> 2 then a + push_bit 16 (k8 m 1) else a);
               a = a + push_bit 24 (k8 m 0) in
           Some (a, b, c)))"

fun hash8_big :: "memory \<Rightarrow> nat \<Rightarrow> w32 \<times> w32 \<times> w32 \<Rightarrow> w32" where
  "hash8_big m len (a, b, c) =
     (if len > 12
      then hash8_big (advance 12 m) (len - 12)
             (mix (a + push_bit 24 (k8 m 0) + push_bit 16 (k8 m 1) + push_bit 8 (k8 m 2) + k8 m 3,
                   b + push_bit 24 (k8 m 4) + push_bit 16 (k8 m 5) + push_bit 8 (k8 m 6) + k8 m 7,
                   c + push_bit 24 (k8 m 8) + push_bit 16 (k8 m 9) + push_bit 8 (k8 m 10) + k8 m 11))
      else (case last8_big m len (a, b, c) of None \<Rightarrow> c | Some s \<Rightarrow> final s))"

declare hash32_big.simps [simp del] hash8_big.simps [simp del]

definition hash_big :: "nat \<Rightarrow> memory \<Rightarrow> nat \<Rightarrow> w32 \<Rightarrow> w32" where
  "hash_big addr m len initval =
     (let s = initState len initval in if addr mod 4 = 0 then hash32_big m len s else hash8_big m len s)"

section \<open>The versions agree\<close>

lemma bit_piece:
  assumes "n \<le> 24"
  shows "bit (push_bit n (k8 m i)) j = (n \<le> j \<and> j < n + 8 \<and> bit (m i) (j - n))"
proof -
  have "bit (m i) (j - n) \<Longrightarrow> j - n < 8" using bit_imp_le_length [of "m i" "j - n"] by simp
  then show ?thesis using assms by (auto simp: k8_def bit_simps)
qed

lemma bit_k8: "bit (k8 m i) j = (j < 8 \<and> bit (m i) j)"
  using bit_piece [of 0 m i j] by simp

text \<open>Pieces at different places do not overlap: their sum is their union, and masks select among them.\<close>

lemma pieces_or:
  "k8 m i + push_bit 8 (k8 m j) = k8 m i OR push_bit 8 (k8 m j)"
  "k8 m i + push_bit 8 (k8 m j) + push_bit 16 (k8 m k) = k8 m i OR push_bit 8 (k8 m j) OR push_bit 16 (k8 m k)"
  "k8 m i + push_bit 8 (k8 m j) + push_bit 16 (k8 m k) + push_bit 24 (k8 m l)
     = k8 m i OR push_bit 8 (k8 m j) OR push_bit 16 (k8 m k) OR push_bit 24 (k8 m l)"
proof -
  show 1: "k8 m i + push_bit 8 (k8 m j) = k8 m i OR push_bit 8 (k8 m j)"
    by (rule disjunctive_add) (auto simp: bit_piece bit_k8)
  show 2: "k8 m i + push_bit 8 (k8 m j) + push_bit 16 (k8 m k) = k8 m i OR push_bit 8 (k8 m j) OR push_bit 16 (k8 m k)"
    unfolding 1 or.assoc [symmetric] by (rule disjunctive_add) (auto simp: bit_piece bit_k8 bit_or_iff)
  show "k8 m i + push_bit 8 (k8 m j) + push_bit 16 (k8 m k) + push_bit 24 (k8 m l)
     = k8 m i OR push_bit 8 (k8 m j) OR push_bit 16 (k8 m k) OR push_bit 24 (k8 m l)"
    unfolding 2 or.assoc [symmetric] by (rule disjunctive_add) (auto simp: bit_piece bit_k8 bit_or_iff)
qed

lemma pieces_big:
  "push_bit 24 (k8 m i) + push_bit 16 (k8 m j) = push_bit 24 (k8 m i) OR push_bit 16 (k8 m j)"
  "push_bit 24 (k8 m i) + push_bit 16 (k8 m j) + push_bit 8 (k8 m k)
     = push_bit 24 (k8 m i) OR push_bit 16 (k8 m j) OR push_bit 8 (k8 m k)"
  "push_bit 24 (k8 m i) + push_bit 16 (k8 m j) + push_bit 8 (k8 m k) + k8 m l
     = push_bit 24 (k8 m i) OR push_bit 16 (k8 m j) OR push_bit 8 (k8 m k) OR k8 m l"
proof -
  show 1: "push_bit 24 (k8 m i) + push_bit 16 (k8 m j) = push_bit 24 (k8 m i) OR push_bit 16 (k8 m j)"
    by (rule disjunctive_add) (auto simp: bit_piece bit_k8)
  show 2: "push_bit 24 (k8 m i) + push_bit 16 (k8 m j) + push_bit 8 (k8 m k)
      = push_bit 24 (k8 m i) OR push_bit 16 (k8 m j) OR push_bit 8 (k8 m k)"
    unfolding 1 or.assoc [symmetric] by (rule disjunctive_add) (auto simp: bit_piece bit_k8 bit_or_iff)
  show "push_bit 24 (k8 m i) + push_bit 16 (k8 m j) + push_bit 8 (k8 m k) + k8 m l
      = push_bit 24 (k8 m i) OR push_bit 16 (k8 m j) OR push_bit 8 (k8 m k) OR k8 m l"
    unfolding 2 or.assoc [symmetric] by (rule disjunctive_add) (auto simp: bit_piece bit_k8 bit_or_iff)
qed

lemma masks: "(0xff :: w32) = mask 8" "(0xffff :: w32) = mask 16" "(0xffffff :: w32) = mask 24"
    "(0xff000000 :: w32) = NOT (mask 24)" "(0xffff0000 :: w32) = NOT (mask 16)" "(0xffffff00 :: w32) = NOT (mask 8)"
  by (simp_all add: mask_eq_exp_minus_1)

lemma k32_mask:
  "k32 m i AND 0xff = k8 m (4 * i)"
  "k32 m i AND 0xffff = k8 m (4 * i) + push_bit 8 (k8 m (4 * i + 1))"
  "k32 m i AND 0xffffff = k8 m (4 * i) + push_bit 8 (k8 m (4 * i + 1)) + push_bit 16 (k8 m (4 * i + 2))"
  unfolding k32_def masks unfolding pieces_or(3) unfolding pieces_or(2) unfolding pieces_or(1)
  by (rule bit_word_eqI; auto simp: bit_simps bit_piece bit_k8)+

lemma k32_big_mask:
  "k32_big m i AND 0xff000000 = push_bit 24 (k8 m (4 * i))"
  "k32_big m i AND 0xffff0000 = push_bit 24 (k8 m (4 * i)) + push_bit 16 (k8 m (4 * i + 1))"
  "k32_big m i AND 0xffffff00 = push_bit 24 (k8 m (4 * i)) + push_bit 16 (k8 m (4 * i + 1)) + push_bit 8 (k8 m (4 * i + 2))"
  unfolding k32_big_def masks unfolding pieces_big(3) unfolding pieces_big(2) unfolding pieces_big(1)
  by (rule bit_word_eqI; auto simp: bit_simps bit_piece bit_k8)+

lemma upto_12: "len \<le> 12 \<Longrightarrow> len \<in> {0, 1, 2, 3, 4, 5, 6, 7, 8, 9, 10, 11, 12 :: nat}"
  by (simp; arith)

lemma last32_last8: "len \<le> 12 \<Longrightarrow> last32 m len s = last8 m len s"
proof -
  assume "len \<le> 12"
  then have "len \<in> {0, 1, 2, 3, 4, 5, 6, 7, 8, 9, 10, 11, 12}" by (rule upto_12)
  then show ?thesis
    by (elim insertE; cases s; simp add: last32_def last8_def k32_mask) (simp_all add: k32_def ac_simps flip: numeral_2_eq_2)
qed

lemma last16_last8: "len \<le> 12 \<Longrightarrow> last16 m len s = last8 m len s"
proof -
  assume "len \<le> 12"
  then have "len \<in> {0, 1, 2, 3, 4, 5, 6, 7, 8, 9, 10, 11, 12}" by (rule upto_12)
  then show ?thesis
    by (elim insertE; cases s; simp add: last16_def last8_def k16_def push_bit_add ac_simps push_bit_push_bit flip: numeral_2_eq_2)
qed

lemma last32_big_last8: "len \<le> 12 \<Longrightarrow> last32_big m len s = last8_big m len s"
proof -
  assume "len \<le> 12"
  then have "len \<in> {0, 1, 2, 3, 4, 5, 6, 7, 8, 9, 10, 11, 12}" by (rule upto_12)
  then show ?thesis
    by (elim insertE; cases s; simp add: last32_big_def last8_big_def k32_big_mask) (simp_all add: k32_big_def ac_simps flip: numeral_2_eq_2)
qed

lemma hash32_hash8: "hash32 m len s = hash8 m len s"
proof (induction m len s rule: hash8.induct)
  case (1 m len a b c)
  have e: "(a + k32 m 0, b + k32 m 1, c + k32 m 2)
      = (a + k8 m 0 + push_bit 8 (k8 m 1) + push_bit 16 (k8 m 2) + push_bit 24 (k8 m 3),
        b + k8 m 4 + push_bit 8 (k8 m 5) + push_bit 16 (k8 m 6) + push_bit 24 (k8 m 7),
        c + k8 m 8 + push_bit 8 (k8 m 9) + push_bit 16 (k8 m 10) + push_bit 24 (k8 m 11))"
    by (simp add: k32_def ac_simps flip: numeral_2_eq_2)
  show ?case
  proof (cases "len > 12")
    case True
    from 1 [OF this] show ?thesis unfolding hash32.simps [of m] hash8.simps [of m] e if_P [OF True] .
  next
    case False
    then show ?thesis by (simp add: hash32.simps [of m] hash8.simps [of m] last32_last8)
  qed
qed

lemma hash16_hash8: "hash16 m len s = hash8 m len s"
proof (induction m len s rule: hash8.induct)
  case (1 m len a b c)
  have e: "(a + (k16 m 0 + push_bit 16 (k16 m 1)), b + (k16 m 2 + push_bit 16 (k16 m 3)), c + (k16 m 4 + push_bit 16 (k16 m 5)))
      = (a + k8 m 0 + push_bit 8 (k8 m 1) + push_bit 16 (k8 m 2) + push_bit 24 (k8 m 3),
        b + k8 m 4 + push_bit 8 (k8 m 5) + push_bit 16 (k8 m 6) + push_bit 24 (k8 m 7),
        c + k8 m 8 + push_bit 8 (k8 m 9) + push_bit 16 (k8 m 10) + push_bit 24 (k8 m 11))"
    by (simp add: k16_def push_bit_add push_bit_push_bit ac_simps flip: numeral_2_eq_2)
  show ?case
  proof (cases "len > 12")
    case True
    from 1 [OF this] show ?thesis unfolding hash16.simps [of m] hash8.simps [of m] e if_P [OF True] .
  next
    case False
    then show ?thesis by (simp add: hash16.simps [of m] hash8.simps [of m] last16_last8)
  qed
qed

lemma hash32_big_hash8: "hash32_big m len s = hash8_big m len s"
proof (induction m len s rule: hash8_big.induct)
  case (1 m len a b c)
  have e: "(a + k32_big m 0, b + k32_big m 1, c + k32_big m 2)
      = (a + push_bit 24 (k8 m 0) + push_bit 16 (k8 m 1) + push_bit 8 (k8 m 2) + k8 m 3,
        b + push_bit 24 (k8 m 4) + push_bit 16 (k8 m 5) + push_bit 8 (k8 m 6) + k8 m 7,
        c + push_bit 24 (k8 m 8) + push_bit 16 (k8 m 9) + push_bit 8 (k8 m 10) + k8 m 11)"
    by (simp add: k32_big_def ac_simps flip: numeral_2_eq_2)
  show ?case
  proof (cases "len > 12")
    case True
    from 1 [OF this] show ?thesis unfolding hash32_big.simps [of m] hash8_big.simps [of m] e if_P [OF True] .
  next
    case False
    then show ?thesis by (simp add: hash32_big.simps [of m] hash8_big.simps [of m] last32_big_last8)
  qed
qed

lemma hash8_cong: "(\<And>i. i < len \<Longrightarrow> m i = m' i) \<Longrightarrow> hash8 m len s = hash8 m' len s"
proof (induction m len s arbitrary: m' rule: hash8.induct)
  case (1 m len a b c)
  have k: "k8 m i = k8 m' i" if "i < len" for i using 1(2) [OF that] by (simp add: k8_def)
  show ?case
  proof (cases "len > 12")
    case True
    have "hash8 (advance 12 m) (len - 12) s = hash8 (advance 12 m') (len - 12) s" if
      "s = mix (a + k8 m 0 + push_bit 8 (k8 m 1) + push_bit 16 (k8 m 2) + push_bit 24 (k8 m 3),
                b + k8 m 4 + push_bit 8 (k8 m 5) + push_bit 16 (k8 m 6) + push_bit 24 (k8 m 7),
                c + k8 m 8 + push_bit 8 (k8 m 9) + push_bit 16 (k8 m 10) + push_bit 24 (k8 m 11))" for s
      unfolding that by (rule 1(1) [OF True]) (simp add: 1(2))
    with True k show ?thesis by (subst (1 2) hash8.simps) simp
  next
    case False
    have "last8 m len s = last8 m' len s" for s using k by (cases s) (simp add: last8_def)
    with False show ?thesis by (subst (1 2) hash8.simps) simp
  qed
qed

lemma hash8_big_cong: "(\<And>i. i < len \<Longrightarrow> m i = m' i) \<Longrightarrow> hash8_big m len s = hash8_big m' len s"
proof (induction m len s arbitrary: m' rule: hash8_big.induct)
  case (1 m len a b c)
  have k: "k8 m i = k8 m' i" if "i < len" for i using 1(2) [OF that] by (simp add: k8_def)
  show ?case
  proof (cases "len > 12")
    case True
    have "hash8_big (advance 12 m) (len - 12) s = hash8_big (advance 12 m') (len - 12) s" if
      "s = mix (a + push_bit 24 (k8 m 0) + push_bit 16 (k8 m 1) + push_bit 8 (k8 m 2) + k8 m 3,
                b + push_bit 24 (k8 m 4) + push_bit 16 (k8 m 5) + push_bit 8 (k8 m 6) + k8 m 7,
                c + push_bit 24 (k8 m 8) + push_bit 16 (k8 m 9) + push_bit 8 (k8 m 10) + k8 m 11)" for s
      unfolding that by (rule 1(1) [OF True]) (simp add: 1(2))
    with True k show ?thesis by (subst (1 2) hash8_big.simps) simp
  next
    case False
    have "last8_big m len s = last8_big m' len s" for s using k by (cases s) (simp add: last8_big_def)
    with False show ?thesis by (subst (1 2) hash8_big.simps) simp
  qed
qed

text \<open>
  C23. The hash of a key depends on its bytes alone, in either byte order: not on the alignment of the
  address it is read from, which decides whether it is read in words of 32 bits, of 16 bits or in
  bytes, and not on what lies behind it in memory, although the 32-bit version reads it.
\<close>

theorem hash_alignment:
  assumes "\<forall>i < len. m i = m' i"
  shows "hash_little addr m len initval = hash_little addr' m' len initval
    \<and> hash_big addr m len initval = hash_big addr' m' len initval"
proof -
  have "hash8 m len s = hash8 m' len s" "hash8_big m len s = hash8_big m' len s" for s
    using assms by (auto intro: hash8_cong hash8_big_cong)
  then show ?thesis
    by (simp add: hash_little_def hash_big_def Let_def hash32_hash8 hash16_hash8 hash32_big_hash8)
qed

theorem hash_alignment_witness:
  "hash_little 0 (\<lambda>i. of_nat i) 13 0 = hash_little 1 (\<lambda>i. if i < 13 then of_nat i else 7) 13 0"
  using hash_alignment [of 13 "\<lambda>i. of_nat i" "\<lambda>i. if i < 13 then of_nat i else 7" 0 0 1] by simp

section \<open>Mixing loses nothing\<close>

text \<open>One line of \<open>mix\<close>, with the roles of the three words rotated for the next one.\<close>

definition mixStep :: "nat \<Rightarrow> w32 \<times> w32 \<times> w32 \<Rightarrow> w32 \<times> w32 \<times> w32" where
  "mixStep k = (\<lambda>(a, b, c). (b, c + b, (a - c) XOR rot c k))"

lemma mix_steps: "mix s = mixStep 4 (mixStep 19 (mixStep 16 (mixStep 8 (mixStep 6 (mixStep 4 s)))))"
  by (cases s) (simp only: mix_def mixStep_def prod.case Let_def)

lemma bij_mixStep: "bij (mixStep k)"
proof (rule o_bij)
  have x: "(y XOR z) XOR z = y" for y z :: w32 by (simp add: xor.assoc)
  let ?u = "\<lambda>(b, c, a). ((a XOR rot (c - b) k) + (c - b), b, c - b)"
  show "?u \<circ> mixStep k = id" "mixStep k \<circ> ?u = id" by (auto simp: mixStep_def fun_eq_iff x)
qed

text \<open>
  Mixing is reversible, as its comment promises: no information about the three words is lost by
  \<open>mix\<close>, which is a bijection.
\<close>

theorem mix_reversible: "bij mix"
proof -
  have "mix = mixStep 4 \<circ> mixStep 19 \<circ> mixStep 16 \<circ> mixStep 8 \<circ> mixStep 6 \<circ> mixStep 4"
    by (simp add: fun_eq_iff mix_steps)
  then show ?thesis by (metis bij_comp bij_mixStep)
qed

end
