(* ===== verification/Memcached_Assoc.thy ===== *)
theory Memcached_Assoc
  imports Memcached_Hash
begin

text \<open>
  The hash table of memcached (\<open>assoc.c\<close>): chains of items, a second table twice the size while the
  table grows, and the maintenance thread that moves one bucket after the other. A chain linked by
  \<open>h_next\<close> is the list of its items; an item is its key and its address. To its clients the table is a
  map from keys to items, whether or not it is growing.
\<close>

section \<open>Items and buckets\<close>

record item =
  it_key :: "8 word list"
  it_ref :: nat

definition mem_of :: "8 word list \<Rightarrow> memory" where
  "mem_of key = (\<lambda>i. if i < length key then key ! i else 0)"

text \<open>The hash of a key that starts at an address, as its callers and the maintenance thread compute it.\<close>

definition hv_at :: "nat \<Rightarrow> 8 word list \<Rightarrow> w32" where
  "hv_at addr key = hash_little addr (mem_of key) (length key) 0"

text \<open>\<open>(ub4)1 << n\<close> on 64 bits. The shift is undefined from 64 on; no table has such a power.\<close>

definition hashsize :: "nat \<Rightarrow> nat" where
  "hashsize n = 2 ^ n"

text \<open>\<open>hv & hashmask(n)\<close>\<close>

definition bucket :: "nat \<Rightarrow> w32 \<Rightarrow> nat" where
  "bucket n hv = unat hv mod hashsize n"

record assoc =
  hashpower :: nat
  primary_hashtable :: "item list list"
  old_hashtable :: "item list list"
  hash_items :: w32
  expanding :: bool
  started_expanding :: bool
  expand_bucket :: w32

definition HASHPOWER_DEFAULT :: nat where
  "HASHPOWER_DEFAULT = 16"

definition assoc_init :: "bool \<Rightarrow> nat \<Rightarrow> assoc res" where
  "assoc_init calloc_ok hashtable_init =
     (let hp = (if hashtable_init \<noteq> 0 then hashtable_init else HASHPOWER_DEFAULT) in
      if hp \<ge> 64 then Inl UndefinedBehaviour
      else if \<not> calloc_ok then Inl ExitFailure
      else Inr \<lparr>hashpower = hp, primary_hashtable = replicate (hashsize hp) [], old_hashtable = [], hash_items = 0,
             expanding = False, started_expanding = False, expand_bucket = 0\<rparr>)"

section \<open>Operations\<close>

definition in_old :: "w32 \<Rightarrow> assoc \<Rightarrow> bool" where
  "in_old hv a = (expanding a \<and> bucket (hashpower a - 1) hv \<ge> unat (expand_bucket a))"

definition assoc_find :: "8 word list \<Rightarrow> w32 \<Rightarrow> assoc \<Rightarrow> item option" where
  "assoc_find key hv a =
     List.find (\<lambda>it. it_key it = key)
       (if in_old hv a then old_hashtable a ! bucket (hashpower a - 1) hv
        else primary_hashtable a ! bucket (hashpower a) hv)"

definition assoc_expand :: "bool \<Rightarrow> assoc \<Rightarrow> assoc res" where
  "assoc_expand calloc_ok a =
     (let a1 = a\<lparr>old_hashtable := primary_hashtable a\<rparr> in
      if hashpower a + 1 \<ge> 64 then Inl UndefinedBehaviour
      else if calloc_ok
      then Inr (a1\<lparr>primary_hashtable := replicate (hashsize (hashpower a + 1)) [], hashpower := hashpower a + 1,
              expanding := True, expand_bucket := 0\<rparr>)
      else Inr a1)"

definition assoc_start_expand :: "assoc \<Rightarrow> assoc" where
  "assoc_start_expand a = (if started_expanding a then a else a\<lparr>started_expanding := True\<rparr>)"

definition assoc_insert :: "item \<Rightarrow> w32 \<Rightarrow> assoc \<Rightarrow> assoc" where
  "assoc_insert it hv a =
     (let ob = bucket (hashpower a - 1) hv; pb = bucket (hashpower a) hv;
          a1 = (if in_old hv a then a\<lparr>old_hashtable := (old_hashtable a)[ob := it # old_hashtable a ! ob]\<rparr>
                else a\<lparr>primary_hashtable := (primary_hashtable a)[pb := it # primary_hashtable a ! pb]\<rparr>);
          a2 = a1\<lparr>hash_items := hash_items a1 + 1\<rparr> in
      if \<not> expanding a2 \<and> unat (hash_items a2) > hashsize (hashpower a2) * 3 mod 2 ^ 64 div 2 then assoc_start_expand a2 else a2)"

text \<open>\<open>_hashitem_before\<close> and the unlinking of the item it finds; \<open>None\<close> if there is none.\<close>

primrec unlink :: "8 word list \<Rightarrow> item list \<Rightarrow> item list option" where
  "unlink key [] = None"
| "unlink key (it # its) = (if it_key it = key then Some its else map_option (Cons it) (unlink key its))"

definition assoc_delete :: "8 word list \<Rightarrow> w32 \<Rightarrow> assoc \<Rightarrow> assoc res" where
  "assoc_delete key hv a =
     (let ob = bucket (hashpower a - 1) hv; pb = bucket (hashpower a) hv in
      if in_old hv a
      then (case unlink key (old_hashtable a ! ob) of
              None \<Rightarrow> Inl AssertFailed
            | Some its \<Rightarrow> Inr (a\<lparr>hash_items := hash_items a - 1, old_hashtable := (old_hashtable a)[ob := its]\<rparr>))
      else (case unlink key (primary_hashtable a ! pb) of
              None \<Rightarrow> Inl AssertFailed
            | Some its \<Rightarrow> Inr (a\<lparr>hash_items := hash_items a - 1, primary_hashtable := (primary_hashtable a)[pb := its]\<rparr>)))"

section \<open>The maintenance thread\<close>

text \<open>The bucket an item moves to is computed in an \<open>int\<close>; an index outside the table is \<open>OutOfRange\<close>.\<close>

definition move_item :: "nat \<Rightarrow> item \<Rightarrow> item list list \<Rightarrow> item list list res" where
  "move_item hp it tab =
     (let b = sint (of_nat (bucket hp (hv_at (it_ref it) (it_key it))) :: w32) in
      if 0 \<le> b \<and> nat b < length tab then Inr (tab[nat b := it # tab ! nat b]) else Inl OutOfRange)"

definition move_bucket :: "assoc \<Rightarrow> assoc res" where
  "move_bucket a =
     (let eb = unat (expand_bucket a) in
      if \<not> eb < length (old_hashtable a) then Inl OutOfRange
      else bindE (foldE (move_item (hashpower a)) (old_hashtable a ! eb) (primary_hashtable a)) (\<lambda>tab.
        let a1 = a\<lparr>primary_hashtable := tab, old_hashtable := (old_hashtable a)[eb := []], expand_bucket := expand_bucket a + 1\<rparr> in
        Inr (if unat (expand_bucket a1) = hashsize (hashpower a1 - 1) then a1\<lparr>expanding := False\<rparr> else a1)))"

primrec bulk_move :: "nat \<Rightarrow> assoc \<Rightarrow> assoc res" where
  "bulk_move 0 a = Inr a"
| "bulk_move (Suc n) a = (if expanding a then bindE (move_bucket a) (bulk_move n) else Inr a)"

text \<open>
  One turn of the loop of the thread: move some buckets; when there is nothing left to move, wait for
  the signal of \<open>assoc_start_expand\<close> and start to grow.
\<close>

definition maintenance_move :: "nat \<Rightarrow> assoc \<Rightarrow> assoc res" where
  "maintenance_move hash_bulk_move a =
     bindE (bulk_move hash_bulk_move a) (\<lambda>a1. Inr (if expanding a1 then a1 else a1\<lparr>started_expanding := False\<rparr>))"

definition maintenance_wake :: "bool \<Rightarrow> assoc \<Rightarrow> assoc res" where
  "maintenance_wake calloc_ok a = assoc_expand calloc_ok a"

end
