(* ===== verification/Memcached_Assoc_Proofs.thy ===== *)
theory Memcached_Assoc_Proofs
  imports Memcached_Assoc
begin

text \<open>
  The table is a map: its invariant places every item in the one chain where a lookup looks for it,
  before, during and after a growth, and every operation and every step of the growth keeps it.
\<close>

section \<open>Hashes and buckets\<close>

definition hv_of :: "8 word list \<Rightarrow> w32" where
  "hv_of key = hv_at 0 key"

lemma hv_at_any: "hv_at addr key = hv_of key"
  unfolding hv_at_def hv_of_def by (simp add: hash_little_def Let_def hash32_hash8 hash16_hash8)

lemma bucket_less [simp]: "bucket n hv < 2 ^ n"
  by (simp add: bucket_def hashsize_def)

section \<open>Invariant\<close>

definition items :: "assoc \<Rightarrow> item set" where
  "items a = \<Union>(set ` set (primary_hashtable a)) \<union> (if expanding a then \<Union>(set ` set (old_hashtable a)) else {})"

definition placed :: "nat \<Rightarrow> item list list \<Rightarrow> bool" where
  "placed n tab = (length tab = 2 ^ n \<and> (\<forall>i < 2 ^ n. distinct (tab ! i) \<and> (\<forall>it \<in> set (tab ! i). bucket n (hv_of (it_key it)) = i)))"

text \<open>With a power of at most 31 every bucket is the value of an \<open>int\<close> and of \<open>expand_bucket\<close>.\<close>

definition assoc_ok :: "assoc \<Rightarrow> bool" where
  "assoc_ok a = (hashpower a \<le> 31 \<and> placed (hashpower a) (primary_hashtable a)
     \<and> (expanding a \<longrightarrow> hashpower a > 0 \<and> placed (hashpower a - 1) (old_hashtable a) \<and> unat (expand_bucket a) < 2 ^ (hashpower a - 1)
          \<and> (\<forall>c \<in> set (primary_hashtable a). \<forall>it \<in> set c. bucket (hashpower a - 1) (hv_of (it_key it)) < unat (expand_bucket a))
          \<and> (\<forall>i < unat (expand_bucket a). old_hashtable a ! i = []))
     \<and> inj_on it_key (items a) \<and> hash_items a = of_nat (card (items a)))"

lemma placed_in:
  assumes "placed n tab"
  shows "it \<in> \<Union>(set ` set tab) \<longleftrightarrow> it \<in> set (tab ! bucket n (hv_of (it_key it)))"
proof
  assume "it \<in> \<Union>(set ` set tab)"
  then obtain c where "c \<in> set tab" "it \<in> set c" by auto
  then obtain i where "i < length tab" "it \<in> set (tab ! i)" by (metis in_set_conv_nth)
  with assms show "it \<in> set (tab ! bucket n (hv_of (it_key it)))" by (auto simp: placed_def)
next
  assume "it \<in> set (tab ! bucket n (hv_of (it_key it)))"
  moreover have "bucket n (hv_of (it_key it)) < length tab" using assms by (simp add: placed_def)
  ultimately show "it \<in> \<Union>(set ` set tab)" by auto
qed

text \<open>The one chain where an item with a given key can be.\<close>

definition chain :: "8 word list \<Rightarrow> assoc \<Rightarrow> item list" where
  "chain key a = (if in_old (hv_of key) a then old_hashtable a ! bucket (hashpower a - 1) (hv_of key)
     else primary_hashtable a ! bucket (hashpower a) (hv_of key))"

lemma items_chain:
  assumes "assoc_ok a"
  shows "it \<in> items a \<longleftrightarrow> it \<in> set (chain (it_key it) a)"
proof (cases "expanding a")
  case False
  with assms placed_in [of "hashpower a" "primary_hashtable a" it] show ?thesis
    by (auto simp: assoc_ok_def items_def chain_def in_old_def)
next
  case True
  let ?b = "bucket (hashpower a - 1) (hv_of (it_key it))"
  from assms True have p: "placed (hashpower a) (primary_hashtable a)" "placed (hashpower a - 1) (old_hashtable a)"
    and lt: "\<And>it. it \<in> \<Union>(set ` set (primary_hashtable a)) \<Longrightarrow> bucket (hashpower a - 1) (hv_of (it_key it)) < unat (expand_bucket a)"
    and e: "\<And>i. i < unat (expand_bucket a) \<Longrightarrow> old_hashtable a ! i = []"
    by (auto simp: assoc_ok_def)
  show ?thesis
  proof (cases "?b \<ge> unat (expand_bucket a)")
    case True
    then have "it \<notin> \<Union>(set ` set (primary_hashtable a))" using lt [of it] by force
    with placed_in [OF p(2), of it] True \<open>expanding a\<close> show ?thesis by (simp add: items_def chain_def in_old_def)
  next
    case False
    then have "it \<notin> set (old_hashtable a ! ?b)" using e by simp
    with placed_in [OF p(1), of it] placed_in [OF p(2), of it] False \<open>expanding a\<close> show ?thesis
      by (simp add: items_def chain_def in_old_def)
  qed
qed

lemma chain_key:
  assumes "assoc_ok a" "it \<in> set (chain key a)"
  shows "it \<in> items a"
proof (cases "in_old (hv_of key) a")
  case True
  with assms have "bucket (hashpower a - 1) (hv_of key) < length (old_hashtable a)" "expanding a"
    by (simp_all add: assoc_ok_def placed_def in_old_def)
  with True assms(2) show ?thesis by (auto simp: chain_def items_def)
next
  case False
  with assms have "bucket (hashpower a) (hv_of key) < length (primary_hashtable a)" by (simp add: assoc_ok_def placed_def)
  with False assms(2) show ?thesis by (auto simp: chain_def items_def)
qed

text \<open>A lookup finds exactly the item with the key, if there is one.\<close>

lemma assoc_find_iff:
  assumes "assoc_ok a"
  shows "assoc_find key (hv_of key) a = Some it \<longleftrightarrow> it \<in> items a \<and> it_key it = key"
proof -
  have f: "assoc_find key (hv_of key) a = List.find (\<lambda>it. it_key it = key) (chain key a)"
    by (simp add: assoc_find_def chain_def)
  have inj: "inj_on it_key (items a)" using assms by (simp add: assoc_ok_def)
  show ?thesis
  proof
    assume "assoc_find key (hv_of key) a = Some it"
    then have "it \<in> set (chain key a)" "it_key it = key" unfolding f by (auto simp: find_Some_iff)
    with chain_key [OF assms] show "it \<in> items a \<and> it_key it = key" by blast
  next
    assume it: "it \<in> items a \<and> it_key it = key"
    with items_chain [OF assms, of it] have "it \<in> set (chain key a)" by simp
    with it obtain it' where it': "List.find (\<lambda>it. it_key it = key) (chain key a) = Some it'"
      by (cases "List.find (\<lambda>it. it_key it = key) (chain key a)") (auto simp: find_None_iff)
    then have "it' \<in> set (chain key a)" "it_key it' = key" by (auto simp: find_Some_iff)
    with it chain_key [OF assms] inj have "it' = it" by (auto simp: inj_on_def)
    with it' show "assoc_find key (hv_of key) a = Some it" unfolding f by simp
  qed
qed

lemma assoc_find_None:
  assumes "assoc_ok a"
  shows "assoc_find key (hv_of key) a = None \<longleftrightarrow> key \<notin> it_key ` items a"
proof (cases "assoc_find key (hv_of key) a")
  case None
  with assoc_find_iff [OF assms, of key] show ?thesis by auto
next
  case (Some it)
  with assoc_find_iff [OF assms, of key it] show ?thesis by auto
qed

lemma finite_items [simp]: "finite (items a)"
  by (simp add: items_def)

lemma items_start [simp]: "items (assoc_start_expand a) = items a"
  by (simp add: assoc_start_expand_def items_def)

lemma assoc_ok_start [simp]: "assoc_ok (assoc_start_expand a) = assoc_ok a"
  unfolding assoc_ok_def items_start by (simp add: assoc_start_expand_def)

section \<open>Inserting\<close>

lemma union_nth: "\<Union>(set ` set tab) = (\<Union>i < length tab. set (tab ! i))"
  by (auto simp: set_conv_nth)

lemma union_update:
  assumes "b < length tab"
  shows "\<Union>(set ` set (tab[b := c])) = (\<Union>i \<in> {..<length tab} - {b}. set (tab ! i)) \<union> set c"
    and "\<Union>(set ` set tab) = (\<Union>i \<in> {..<length tab} - {b}. set (tab ! i)) \<union> set (tab ! b)"
  unfolding union_nth using assms by (auto simp: nth_list_update split: if_splits)

lemma placed_insert:
  assumes "placed n tab" "b = bucket n (hv_of (it_key it))" "it \<notin> set (tab ! b)"
  shows "placed n (tab[b := it # tab ! b])" and "\<Union>(set ` set (tab[b := it # tab ! b])) = insert it (\<Union>(set ` set tab))"
proof -
  have b: "b < length tab" "length tab = 2 ^ n" using assms(1,2) by (simp_all add: placed_def)
  show "placed n (tab[b := it # tab ! b])"
    using assms b by (auto simp: placed_def nth_list_update)
  show "\<Union>(set ` set (tab[b := it # tab ! b])) = insert it (\<Union>(set ` set tab))"
    using union_update [OF b(1)] by auto
qed

lemma placed_notin:
  assumes "placed n tab" "it \<notin> \<Union>(set ` set tab)"
  shows "it \<notin> set (tab ! bucket n (hv_of (it_key it)))"
  using placed_in [OF assms(1)] assms(2) by blast

text \<open>An item whose key is not in the table is added, and nothing else changes.\<close>

lemma assoc_insert_ok:
  assumes "assoc_ok a" "it_key it \<notin> it_key ` items a"
  shows "assoc_ok (assoc_insert it (hv_of (it_key it)) a) \<and> items (assoc_insert it (hv_of (it_key it)) a) = insert it (items a)
    \<and> expanding (assoc_insert it (hv_of (it_key it)) a) = expanding a"
proof -
  let ?hv = "hv_of (it_key it)"
  define ob pb where "ob = bucket (hashpower a - 1) ?hv" and "pb = bucket (hashpower a) ?hv"
  define a1 where "a1 = (if in_old ?hv a then a\<lparr>old_hashtable := (old_hashtable a)[ob := it # old_hashtable a ! ob]\<rparr>
    else a\<lparr>primary_hashtable := (primary_hashtable a)[pb := it # primary_hashtable a ! pb]\<rparr>)"
  define a2 where "a2 = a1\<lparr>hash_items := hash_items a + 1\<rparr>"
  have new: "it \<notin> items a" using assms(2) by auto
  have a2: "items a2 = insert it (items a) \<and> placed (hashpower a2) (primary_hashtable a2)
    \<and> hashpower a2 = hashpower a \<and> expanding a2 = expanding a \<and> expand_bucket a2 = expand_bucket a
    \<and> (expanding a \<longrightarrow> placed (hashpower a - 1) (old_hashtable a2)
         \<and> (\<forall>c \<in> set (primary_hashtable a2). \<forall>it \<in> set c. bucket (hashpower a - 1) (hv_of (it_key it)) < unat (expand_bucket a))
         \<and> (\<forall>i < unat (expand_bucket a). old_hashtable a2 ! i = []))"
  proof (cases "in_old ?hv a")
    case True
    then have e: "expanding a" "unat (expand_bucket a) \<le> ob" by (simp_all add: in_old_def ob_def)
    with assms(1) have p: "placed (hashpower a - 1) (old_hashtable a)" by (simp add: assoc_ok_def)
    moreover have "it \<notin> \<Union>(set ` set (old_hashtable a))" using new e by (simp add: items_def)
    ultimately have "it \<notin> set (old_hashtable a ! ob)" using placed_notin unfolding ob_def by blast
    from placed_insert [OF p ob_def this] True e assms(1) show ?thesis
      by (auto simp: a2_def a1_def items_def assoc_ok_def nth_list_update)
  next
    case False
    from assms(1) have p: "placed (hashpower a) (primary_hashtable a)" by (simp add: assoc_ok_def)
    moreover have "it \<notin> \<Union>(set ` set (primary_hashtable a))" using new by (auto simp: items_def)
    ultimately have "it \<notin> set (primary_hashtable a ! pb)" using placed_notin unfolding pb_def by blast
    note pi = placed_insert [OF p pb_def this]
    have "bucket (hashpower a - 1) (hv_of (it_key x)) < unat (expand_bucket a)" if "expanding a" "c \<in> set (primary_hashtable a2)" "x \<in> set c" for c x
    proof -
      have "x \<in> insert it (\<Union>(set ` set (primary_hashtable a)))" using that False pi(2) by (auto simp: a2_def a1_def)
      with False that(1) assms(1) show ?thesis by (auto simp: in_old_def assoc_ok_def)
    qed
    with pi False assms(1) show ?thesis by (auto simp: a2_def a1_def items_def assoc_ok_def)
  qed
  have "inj_on it_key (items a2)" "hash_items a2 = of_nat (card (items a2))"
    using a2 assms new by (simp_all add: assoc_ok_def a2_def)
  with a2 assms(1) have ok: "assoc_ok a2" by (auto simp: assoc_ok_def)
  have "assoc_insert it ?hv a = (if \<not> expanding a2 \<and> unat (hash_items a2) > hashsize (hashpower a2) * 3 mod 2 ^ 64 div 2 then assoc_start_expand a2 else a2)"
    by (simp add: assoc_insert_def Let_def a2_def a1_def ob_def pb_def)
  moreover have "expanding (assoc_start_expand a2) = expanding a2" by (simp add: assoc_start_expand_def)
  ultimately show ?thesis using ok a2 by simp
qed

section \<open>Deleting\<close>

lemma unlink_spec:
  assumes "inj_on it_key (set c)" "distinct c"
  shows "case unlink key c of None \<Rightarrow> key \<notin> it_key ` set c
    | Some c' \<Rightarrow> \<exists>it. it \<in> set c \<and> it_key it = key \<and> set c' = set c - {it} \<and> distinct c'"
  using assms
proof (induction c)
  case (Cons x c)
  then have IH: "case unlink key c of None \<Rightarrow> key \<notin> it_key ` set c
    | Some c' \<Rightarrow> \<exists>it. it \<in> set c \<and> it_key it = key \<and> set c' = set c - {it} \<and> distinct c'" by simp
  show ?case
  proof (cases "it_key x = key")
    case True
    with Cons.prems show ?thesis by auto
  next
    case False
    with IH Cons.prems show ?thesis by (cases "unlink key c") auto
  qed
qed simp

lemma placed_delete:
  assumes "placed n tab" "b < 2 ^ n" "it \<in> set (tab ! b)" "set c = set (tab ! b) - {it}" "distinct c"
  shows "placed n (tab[b := c])" and "\<Union>(set ` set (tab[b := c])) = \<Union>(set ` set tab) - {it}"
proof -
  have b: "b < length tab" "length tab = 2 ^ n" using assms(1,2) by (simp_all add: placed_def)
  show "placed n (tab[b := c])" using assms b by (auto simp: placed_def nth_list_update)
  have "bucket n (hv_of (it_key it)) = b" using assms(1-3) by (simp add: placed_def)
  then have "it \<notin> set (tab ! i)" if "i < length tab" "i \<noteq> b" for i using assms(1) b that by (auto simp: placed_def)
  then show "\<Union>(set ` set (tab[b := c])) = \<Union>(set ` set tab) - {it}"
    using union_update [OF b(1)] assms(3,4) by auto
qed

text \<open>Deleting a key that is in the table removes its item, and nothing else changes.\<close>

lemma assoc_delete_ok:
  assumes "assoc_ok a" "it \<in> items a" "it_key it = key"
  shows "\<exists>a'. assoc_delete key (hv_of key) a = Inr a' \<and> assoc_ok a' \<and> items a' = items a - {it} \<and> expanding a' = expanding a"
proof -
  let ?hv = "hv_of key"
  define ob pb where "ob = bucket (hashpower a - 1) ?hv" and "pb = bucket (hashpower a) ?hv"
  have c: "it \<in> set (chain key a)" using items_chain [OF assms(1), of it] assms(2,3) by simp
  have inj: "inj_on it_key (set (chain key a))"
    using assms(1) chain_key [OF assms(1)] by (auto simp: assoc_ok_def intro: inj_on_subset)
  have "distinct (chain key a)" using assms(1) by (auto simp: chain_def assoc_ok_def placed_def in_old_def)
  from unlink_spec [OF inj this, of key] c assms(3) obtain c' it' where
    u: "unlink key (chain key a) = Some c'" "it' \<in> set (chain key a)" "it_key it' = key" "set c' = set (chain key a) - {it'}" "distinct c'"
    by (auto split: option.splits)
  have "it' = it" using inj u(2,3) c assms(3) by (auto simp: inj_on_def)
  note u = u [unfolded this]
  define a1 where "a1 = (if in_old ?hv a then a\<lparr>hash_items := hash_items a - 1, old_hashtable := (old_hashtable a)[ob := c']\<rparr>
    else a\<lparr>hash_items := hash_items a - 1, primary_hashtable := (primary_hashtable a)[pb := c']\<rparr>)"
  have r: "assoc_delete key ?hv a = Inr a1"
    using u(1) by (auto simp: assoc_delete_def chain_def a1_def ob_def pb_def Let_def)
  have a1: "items a1 = items a - {it} \<and> placed (hashpower a) (primary_hashtable a1)
    \<and> hashpower a1 = hashpower a \<and> expanding a1 = expanding a \<and> expand_bucket a1 = expand_bucket a
    \<and> (expanding a \<longrightarrow> placed (hashpower a - 1) (old_hashtable a1)
         \<and> (\<forall>c \<in> set (primary_hashtable a1). \<forall>it \<in> set c. bucket (hashpower a - 1) (hv_of (it_key it)) < unat (expand_bucket a))
         \<and> (\<forall>i < unat (expand_bucket a). old_hashtable a1 ! i = []))"
  proof (cases "in_old ?hv a")
    case True
    then have e: "expanding a" "unat (expand_bucket a) \<le> ob" "chain key a = old_hashtable a ! ob"
      by (simp_all add: in_old_def ob_def chain_def)
    with assms(1) have p: "placed (hashpower a - 1) (old_hashtable a)" by (simp add: assoc_ok_def)
    have "it \<notin> \<Union>(set ` set (primary_hashtable a))"
      using assms(1,3) e by (force simp: assoc_ok_def ob_def)
    with placed_delete [OF p, of ob it c'] u e True assms(1) show ?thesis
      by (auto simp: a1_def items_def assoc_ok_def ob_def nth_list_update)
  next
    case False
    then have e: "chain key a = primary_hashtable a ! pb" by (simp add: pb_def chain_def)
    from assms(1) have p: "placed (hashpower a) (primary_hashtable a)" by (simp add: assoc_ok_def)
    have "it \<notin> \<Union>(set ` set (old_hashtable a))" if "expanding a"
    proof -
      have "placed (hashpower a - 1) (old_hashtable a)" "old_hashtable a ! bucket (hashpower a - 1) ?hv = []"
        using that assms(1) False by (auto simp: assoc_ok_def in_old_def)
      then show ?thesis using placed_in [of "hashpower a - 1" "old_hashtable a" it] assms(3) by simp
    qed
    moreover have "set (primary_hashtable a1) \<subseteq> insert c' (set (primary_hashtable a))"
      using False by (simp add: a1_def set_update_subset_insert)
    moreover have "x \<in> \<Union>(set ` set (primary_hashtable a))" if "x \<in> set c'" for x
    proof -
      have "pb < length (primary_hashtable a)" using p by (simp add: placed_def pb_def)
      with that u(4) e show ?thesis by auto
    qed
    ultimately show ?thesis
      using placed_delete [OF p, of pb it c'] u e False assms(1) by (auto simp: a1_def items_def assoc_ok_def pb_def) blast+
  qed
  moreover have "inj_on it_key (items a1)" using a1 assms(1) by (auto simp: assoc_ok_def intro: inj_on_subset)
  moreover have "hash_items a1 = of_nat (card (items a1))"
  proof -
    have "0 < card (items a)" using assms(2) by (auto simp: card_gt_0_iff)
    then have "of_nat (card (items a) - 1) = (of_nat (card (items a)) - 1 :: w32)" by (simp add: of_nat_diff)
    with a1 assms(1,2) show ?thesis by (simp add: assoc_ok_def a1_def)
  qed
  ultimately show ?thesis using r assms(1) by (auto simp: assoc_ok_def)
qed

section \<open>Growing\<close>

lemma assoc_insert_hashpower: "hashpower (assoc_insert it hv a) = hashpower a"
  by (simp add: assoc_insert_def assoc_start_expand_def Let_def)

lemma assoc_delete_hashpower:
  assumes "assoc_delete key hv a = Inr a'"
  shows "hashpower a' = hashpower a"
  using assms by (auto simp: assoc_delete_def Let_def split: if_splits option.splits)

lemma assoc_expand_ok:
  assumes "assoc_ok a" "\<not> expanding a" "ok \<longrightarrow> hashpower a < 31"
  shows "\<exists>a'. assoc_expand ok a = Inr a' \<and> assoc_ok a' \<and> items a' = items a \<and> hashpower a' = hashpower a + (if ok then 1 else 0) \<and> expanding a' = ok"
proof -
  have "hashpower a \<le> 31" using assms(1) by (simp add: assoc_ok_def)
  then obtain a' where a': "assoc_expand ok a = Inr a'" by (cases ok) (simp_all add: assoc_expand_def Let_def)
  have i: "items a' = items a" using assms(2) a' by (auto simp: items_def assoc_expand_def Let_def split: if_splits)
  have "placed (hashpower a + 1) (replicate (hashsize (hashpower a + 1)) [])"
    by (simp add: placed_def hashsize_def)
  with assms i a' show ?thesis by (auto simp: assoc_ok_def assoc_expand_def Let_def split: if_splits)
qed

text \<open>Moving a chain: every item goes to its place, and the table otherwise stays.\<close>

lemma move_item_placed:
  assumes "n \<le> 31" "placed n tab" "it \<notin> \<Union>(set ` set tab)"
  shows "\<exists>tab'. move_item n it tab = Inr tab' \<and> placed n tab' \<and> \<Union>(set ` set tab') = insert it (\<Union>(set ` set tab))"
proof -
  let ?b = "bucket n (hv_of (it_key it))"
  have "?b < 2 ^ 31" using order_less_le_trans [OF bucket_less power_increasing [of n 31 "2 :: nat"]] assms(1) by simp
  then have "sint (of_nat ?b :: w32) = int ?b" by (intro sint_of_nat_small) simp
  moreover have "?b < length tab" using assms(2) by (simp add: placed_def)
  ultimately show ?thesis
    using placed_insert [OF assms(2) refl placed_notin [OF assms(2,3)]] by (simp add: move_item_def hv_at_any Let_def)
qed

lemma move_items_placed:
  assumes "n \<le> 31" "placed n tab" "distinct c" "set c \<inter> \<Union>(set ` set tab) = {}"
  shows "\<exists>tab'. foldE (move_item n) c tab = Inr tab' \<and> placed n tab' \<and> \<Union>(set ` set tab') = set c \<union> \<Union>(set ` set tab)"
  using assms
proof (induction c arbitrary: tab)
  case (Cons it c)
  from Cons.prems have "it \<notin> \<Union>(set ` set tab)" by auto
  from move_item_placed [OF Cons.prems(1,2) this] obtain tab1 where
    m: "move_item n it tab = Inr tab1" "placed n tab1" "\<Union>(set ` set tab1) = insert it (\<Union>(set ` set tab))" by blast
  have "set c \<inter> \<Union>(set ` set tab1) = {}" using m Cons.prems(3,4) by auto
  with Cons.IH [of tab1] m Cons.prems(1,3) show ?case by auto
qed simp

lemma move_bucket_ok:
  assumes "assoc_ok a" "expanding a"
  shows "\<exists>a'. move_bucket a = Inr a' \<and> assoc_ok a' \<and> items a' = items a \<and> hashpower a' = hashpower a
    \<and> unat (expand_bucket a') = unat (expand_bucket a) + 1
    \<and> expanding a' = (unat (expand_bucket a) + 1 < 2 ^ (hashpower a - 1))"
proof -
  let ?hp = "hashpower a" and ?eb = "unat (expand_bucket a)" and ?P = "primary_hashtable a" and ?O = "old_hashtable a"
  define O' where "O' = ?O[?eb := []]"
  from assms have p: "placed ?hp ?P" "placed (?hp - 1) ?O" "?hp > 0" "?eb < 2 ^ (?hp - 1)" "?hp \<le> 31"
    and lt: "\<And>it. it \<in> \<Union>(set ` set ?P) \<Longrightarrow> bucket (?hp - 1) (hv_of (it_key it)) < ?eb"
    and e: "\<And>i. i < ?eb \<Longrightarrow> ?O ! i = []"
    by (auto simp: assoc_ok_def)
  have eb: "?eb < length ?O" using p(2,4) by (simp add: placed_def)
  have "(2 :: nat) ^ (?hp - 1) \<le> 2 ^ 30" using p(5) by (intro power_increasing) auto
  with p(4) have "?eb < 2 ^ 30" by simp
  then have u: "unat (expand_bucket a + 1) = ?eb + 1" by (simp add: unat_word_ariths)
  have o: "bucket (?hp - 1) (hv_of (it_key it)) = ?eb" if "it \<in> set (?O ! ?eb)" for it
    using p(2,4) that by (simp add: placed_def)
  have "set (?O ! ?eb) \<inter> \<Union>(set ` set ?P) = {}" using lt o by fastforce
  moreover have "distinct (?O ! ?eb)" using p(2,4) by (simp add: placed_def)
  ultimately have "\<exists>P. foldE (move_item ?hp) (?O ! ?eb) ?P = Inr P \<and> placed ?hp P \<and> \<Union>(set ` set P) = set (?O ! ?eb) \<union> \<Union>(set ` set ?P)"
    by (intro move_items_placed [OF p(5,1)])
  then obtain P where P: "foldE (move_item ?hp) (?O ! ?eb) ?P = Inr P" "placed ?hp P" "\<Union>(set ` set P) = set (?O ! ?eb) \<union> \<Union>(set ` set ?P)"
    by blast
  have O': "placed (?hp - 1) O'" using p(2) eb by (auto simp: O'_def placed_def nth_list_update)
  have uO: "\<Union>(set ` set ?O) = set (?O ! ?eb) \<union> \<Union>(set ` set O')" using union_update(1) [OF eb, of "[]"] union_update(2) [OF eb] by (auto simp: O'_def)
  have e': "O' ! i = []" if "i < ?eb + 1" for i using e that eb by (auto simp: O'_def nth_list_update less_Suc_eq)
  have lt': "bucket (?hp - 1) (hv_of (it_key it)) < ?eb + 1" if "it \<in> \<Union>(set ` set P)" for it
    using that lt o unfolding P(3) by fastforce
  define a1 where "a1 = a\<lparr>primary_hashtable := P, old_hashtable := O', expand_bucket := expand_bucket a + 1\<rparr>"
  have m: "move_bucket a = Inr (if ?eb + 1 = 2 ^ (?hp - 1) then a1\<lparr>expanding := False\<rparr> else a1)"
    using eb P(1) u by (simp add: move_bucket_def a1_def O'_def hashsize_def Let_def)
  have it1: "items a1 = items a" using P(3) uO assms(2) by (auto simp: items_def a1_def)
  show ?thesis
  proof (cases "?eb + 1 = 2 ^ (?hp - 1)")
    case True
    then have "\<Union>(set ` set O') = {}" unfolding union_nth using e' O' by (auto simp: placed_def)
    then have "items (a1\<lparr>expanding := False\<rparr>) = items a1" using assms(2) by (auto simp: items_def a1_def)
    with it1 m True P(2) assms u show ?thesis by (simp add: assoc_ok_def) (simp add: a1_def)
  next
    case False
    with p(4) have "?eb + 1 < 2 ^ (?hp - 1)" by simp
    with False m it1 P(2) O' p(3) lt' e' assms u show ?thesis
      by (simp add: assoc_ok_def) (auto simp: a1_def)
  qed
qed

lemma bulk_move_ok:
  assumes "assoc_ok a"
  shows "\<exists>a'. bulk_move n a = Inr a' \<and> assoc_ok a' \<and> items a' = items a \<and> hashpower a' = hashpower a"
  using assms
proof (induction n arbitrary: a)
  case (Suc n)
  show ?case
  proof (cases "expanding a")
    case True
    from move_bucket_ok [OF Suc.prems True] obtain a1 where
      1: "move_bucket a = Inr a1" "assoc_ok a1" "items a1 = items a" "hashpower a1 = hashpower a" by blast
    with Suc.IH [OF 1(2)] True show ?thesis by simp
  qed (use Suc.prems in simp)
qed simp

lemma maintenance_move_ok:
  assumes "assoc_ok a"
  shows "\<exists>a'. maintenance_move n a = Inr a' \<and> assoc_ok a' \<and> items a' = items a \<and> hashpower a' = hashpower a"
proof -
  have "assoc_ok (a\<lparr>started_expanding := b\<rparr>) = assoc_ok a" "items (a\<lparr>started_expanding := b\<rparr>) = items a" for a b
    by (simp_all add: assoc_ok_def items_def)
  with bulk_move_ok [OF assms, of n] show ?thesis by (auto simp: maintenance_move_def)
qed

lemma assoc_init_ok:
  assumes "n \<le> 31"
  shows "\<exists>a. assoc_init True n = Inr a \<and> assoc_ok a \<and> items a = {} \<and> hashpower a = (if n = 0 then 16 else n) \<and> \<not> expanding a"
  using assms by (auto simp: assoc_ok_def assoc_init_def items_def placed_def hashsize_def HASHPOWER_DEFAULT_def Let_def)

end
