(* ===== verification/Memcached_Map.thy ===== *)
theory Memcached_Map
  imports Memcached_Assoc_Proofs
begin

text \<open>
  The hash table of memcached as its clients see it: the interface \<open>item_map\<close>, its implementation by
  the table, and what follows for every sequence of operations and background steps.
\<close>

section \<open>The interface\<close>

text \<open>
  What a client of the table relies on: lookups, insertions of keys that are not there, deletions of
  keys that are, and steps in the background that it never notices, as long as there is room for what
  they cost.
\<close>

locale item_map =
  fixes ok :: "'s \<Rightarrow> bool"
    and lookup :: "8 word list \<Rightarrow> 's \<Rightarrow> item option"
    and ins :: "item \<Rightarrow> 's \<Rightarrow> 's"
    and del :: "8 word list \<Rightarrow> 's \<Rightarrow> 's res"
    and background :: "'t \<Rightarrow> 's \<Rightarrow> 's res"
    and room :: "'s \<Rightarrow> nat"
    and cost :: "'t \<Rightarrow> nat"
  assumes ins_law: "ok s \<Longrightarrow> lookup (it_key it) s = None \<Longrightarrow>
      ok (ins it s) \<and> room (ins it s) = room s \<and> (\<forall>k. lookup k (ins it s) = (if k = it_key it then Some it else lookup k s))"
    and del_law: "ok s \<Longrightarrow> lookup key s \<noteq> None \<Longrightarrow>
      \<exists>s'. del key s = Inr s' \<and> ok s' \<and> room s' = room s \<and> (\<forall>k. lookup k s' = (if k = key then None else lookup k s))"
    and background_law: "ok s \<Longrightarrow> cost t \<le> room s \<Longrightarrow>
      \<exists>s'. background t s = Inr s' \<and> ok s' \<and> room s - cost t \<le> room s' \<and> (\<forall>k. lookup k s' = lookup k s)"

datatype 't map_op = Insert item | Delete "8 word list" | Background 't

primrec map_run :: "'t map_op list \<Rightarrow> (8 word list \<Rightarrow> item option) \<Rightarrow> (8 word list \<Rightarrow> item option) option" where
  "map_run [] m = Some m"
| "map_run (c # cs) m =
     (case c of
        Insert it \<Rightarrow> if m (it_key it) = None then map_run cs (m(it_key it \<mapsto> it)) else None
      | Delete k \<Rightarrow> if m k \<noteq> None then map_run cs (m(k := None)) else None
      | Background t \<Rightarrow> map_run cs m)"

primrec op_run :: "(item \<Rightarrow> 's \<Rightarrow> 's) \<Rightarrow> (8 word list \<Rightarrow> 's \<Rightarrow> 's res) \<Rightarrow> ('t \<Rightarrow> 's \<Rightarrow> 's res) \<Rightarrow> 't map_op list \<Rightarrow> 's \<Rightarrow> 's res" where
  "op_run ins del bg [] s = Inr s"
| "op_run ins del bg (c # cs) s =
     bindE (case c of Insert it \<Rightarrow> Inr (ins it s) | Delete k \<Rightarrow> del k s | Background t \<Rightarrow> bg t s) (op_run ins del bg cs)"

primrec op_cost :: "('t \<Rightarrow> nat) \<Rightarrow> 't map_op list \<Rightarrow> nat" where
  "op_cost f [] = 0"
| "op_cost f (c # cs) = (case c of Background t \<Rightarrow> f t | _ \<Rightarrow> 0) + op_cost f cs"

context item_map
begin

text \<open>The client's view: the operations act on a map, whatever happens in the background.\<close>

lemma run_refines:
  assumes "ok s" "op_cost cost cs \<le> room s" "map_run cs (\<lambda>k. lookup k s) = Some m"
  shows "\<exists>s'. op_run ins del background cs s = Inr s' \<and> ok s' \<and> (\<lambda>k. lookup k s') = m"
  using assms
proof (induction cs arbitrary: s)
  case (Cons c cs)
  show ?case
  proof (cases c)
    case (Insert it)
    with Cons.prems have n: "lookup (it_key it) s = None" by (auto split: if_splits)
    then have "(\<lambda>k. lookup k (ins it s)) = (\<lambda>k. lookup k s)(it_key it \<mapsto> it)" using ins_law [OF Cons.prems(1)] by (auto simp: fun_eq_iff)
    with Cons.IH [of "ins it s"] Cons.prems Insert n ins_law [OF Cons.prems(1) n] show ?thesis by simp
  next
    case (Delete key)
    with Cons.prems have n: "lookup key s \<noteq> None" by (auto split: if_splits)
    from del_law [OF Cons.prems(1) n] obtain s1 where
      s1: "del key s = Inr s1" "ok s1" "room s1 = room s" "\<forall>k. lookup k s1 = (if k = key then None else lookup k s)" by blast
    then have "(\<lambda>k. lookup k s1) = (\<lambda>k. lookup k s)(key := None)" by (auto simp: fun_eq_iff)
    with Cons.IH [of s1] Cons.prems Delete n s1 show ?thesis by simp
  next
    case (Background t)
    with Cons.prems have "cost t \<le> room s" by simp
    from background_law [OF Cons.prems(1) this] obtain s1 where
      s1: "background t s = Inr s1" "ok s1" "room s - cost t \<le> room s1" "\<forall>k. lookup k s1 = lookup k s" by blast
    then have "(\<lambda>k. lookup k s1) = (\<lambda>k. lookup k s)" by blast
    moreover have "op_cost cost cs \<le> room s1" using Cons.prems(2) s1(3) Background by simp
    ultimately show ?thesis using Cons.IH [of s1] Cons.prems Background s1 by simp
  qed
qed simp

end

text \<open>What happens in the background: a turn of the maintenance thread, or its waking up to grow the table.\<close>

datatype maintenance = Move nat | Wake bool

definition maintain :: "maintenance \<Rightarrow> assoc \<Rightarrow> assoc res" where
  "maintain t a = (case t of Move n \<Rightarrow> maintenance_move n a | Wake ok \<Rightarrow> if expanding a then Inr a else maintenance_wake ok a)"

text \<open>
  How often the table can still double before a bucket is no longer an \<open>int\<close>, and which steps may double it.
\<close>

definition doublings_left :: "assoc \<Rightarrow> nat" where
  "doublings_left a = 31 - hashpower a"

definition doubles :: "maintenance \<Rightarrow> nat" where
  "doubles t = (case t of Wake True \<Rightarrow> 1 | _ \<Rightarrow> 0)"

lemma assoc_find_eqI:
  assumes "assoc_ok a" "\<And>it. f = Some it \<longleftrightarrow> it \<in> items a \<and> it_key it = k"
  shows "assoc_find k (hv_of k) a = f"
proof (cases f)
  case None
  then have "\<not> (it \<in> items a \<and> it_key it = k)" for it using assms(2) [of it] by simp
  then have "k \<notin> it_key ` items a" by blast
  with None assoc_find_None [OF assms(1), of k] show ?thesis by simp
next
  case (Some it)
  then have "it \<in> items a \<and> it_key it = k" using assms(2) [of it] by simp
  with Some assoc_find_iff [OF assms(1), of k it] show ?thesis by simp
qed

lemma assoc_insert_law:
  fixes it :: item
  assumes a: "assoc_ok a" "assoc_find (it_key it) (hv_of (it_key it)) a = None"
  shows "assoc_ok (assoc_insert it (hv_of (it_key it)) a)
    \<and> doublings_left (assoc_insert it (hv_of (it_key it)) a) = doublings_left a \<and> (\<forall>k. assoc_find k (hv_of k) (assoc_insert it (hv_of (it_key it)) a)
      = (if k = it_key it then Some it else assoc_find k (hv_of k) a))"
proof -
  let ?a = "assoc_insert it (hv_of (it_key it)) a"
  from a have n: "it_key it \<notin> it_key ` items a" by (simp add: assoc_find_None)
  then have n': "it_key x \<noteq> it_key it" if "x \<in> items a" for x using that by (metis imageI)
  from assoc_insert_ok [OF a(1) n] have i: "assoc_ok ?a" "items ?a = insert it (items a)" by blast+
  have "assoc_find k (hv_of k) ?a = (if k = it_key it then Some it else assoc_find k (hv_of k) a)" for k
    by (rule assoc_find_eqI [OF i(1)]) (use n' assoc_find_iff [OF a(1), of k] i(2) in auto)
  moreover have "doublings_left ?a = doublings_left a" by (simp add: doublings_left_def assoc_insert_hashpower)
  ultimately show ?thesis using i(1) by blast
qed

lemma assoc_delete_law:
  assumes a: "assoc_ok a" "assoc_find key (hv_of key) a \<noteq> None"
  shows "\<exists>a'. assoc_delete key (hv_of key) a = Inr a' \<and> assoc_ok a' \<and> doublings_left a' = doublings_left a
      \<and> (\<forall>k. assoc_find k (hv_of k) a' = (if k = key then None else assoc_find k (hv_of k) a))"
proof -
  from a obtain it where it: "it \<in> items a" "it_key it = key" using assoc_find_iff [OF a(1)] by blast
  from assoc_delete_ok [OF a(1) it] obtain a' where
    a': "assoc_delete key (hv_of key) a = Inr a'" "assoc_ok a'" "items a' = items a - {it}" by blast
  have u: "x = it" if "x \<in> items a" "it_key x = key" for x using that it a(1) by (auto simp: assoc_ok_def inj_on_def)
  have "assoc_find k (hv_of k) a' = (if k = key then None else assoc_find k (hv_of k) a)" for k
    by (rule assoc_find_eqI [OF a'(2)]) (use u it(2) assoc_find_iff [OF a(1), of k] a'(3) in auto)
  moreover have "doublings_left a' = doublings_left a" using assoc_delete_hashpower [OF a'(1)] by (simp add: doublings_left_def)
  ultimately show ?thesis using a' by blast
qed

lemma maintain_law:
  assumes a: "assoc_ok a" "doubles t \<le> doublings_left a"
  shows "\<exists>a'. maintain t a = Inr a' \<and> assoc_ok a' \<and> doublings_left a - doubles t \<le> doublings_left a'
    \<and> (\<forall>k. assoc_find k (hv_of k) a' = assoc_find k (hv_of k) a)"
proof -
  have "\<exists>a'. maintain t a = Inr a' \<and> assoc_ok a' \<and> items a' = items a \<and> hashpower a' \<le> hashpower a + doubles t"
  proof (cases t)
    case (Move n)
    with maintenance_move_ok [OF a(1), of n] show ?thesis by (auto simp: maintain_def)
  next
    case (Wake ok)
    with a(2) have "ok \<longrightarrow> hashpower a < 31" by (cases ok) (simp_all add: doubles_def doublings_left_def)
    with assoc_expand_ok [OF a(1), of ok] a(1) Wake show ?thesis
      by (cases ok) (auto simp: maintain_def maintenance_wake_def doubles_def)
  qed
  then obtain a' where m: "maintain t a = Inr a'" "assoc_ok a'" "items a' = items a" "hashpower a' \<le> hashpower a + doubles t" by blast
  have "assoc_find k (hv_of k) a' = assoc_find k (hv_of k) a" for k
    by (rule assoc_find_eqI [OF m(2)]) (simp add: assoc_find_iff [OF a(1)] m(3))
  with m show ?thesis by (auto simp: doublings_left_def)
qed

interpretation assoc: item_map assoc_ok "\<lambda>k. assoc_find k (hv_of k)" "\<lambda>it. assoc_insert it (hv_of (it_key it))"
  "\<lambda>k. assoc_delete k (hv_of k)" maintain doublings_left doubles
  by unfold_locales (rule assoc_insert_law assoc_delete_law maintain_law; assumption)+

section \<open>Properties\<close>

text \<open>
  C6. The table is a map to its clients, as long as its power stays at most 31: started with power
  \<open>n\<close> (16 when \<open>n\<close> is 0), after every sequence of insertions of new keys and deletions of present ones
  that a map allows, with the maintenance thread moving buckets, starting to grow (at most \<open>31 - n\<close>
  times) and failing to get memory at any point in between, no operation fails and every lookup, by
  a hash computed from the key at whatever address, finds what the map holds.
\<close>

theorem assoc_is_map:
  assumes "map_run cs Map.empty = Some m" "(if n = 0 then 16 else n) + op_cost doubles cs \<le> 31"
  shows "\<exists>a0 a. assoc_init True n = Inr a0
    \<and> op_run (\<lambda>it. assoc_insert it (hv_at (it_ref it) (it_key it))) (\<lambda>k. assoc_delete k (hv_at addr k)) maintain cs a0 = Inr a
    \<and> (\<forall>key addr'. assoc_find key (hv_at addr' key) a = m key)"
proof -
  from assms(2) have "n \<le> 31" by (auto split: if_splits)
  from assoc_init_ok [OF this] obtain a0 where
    a0: "assoc_init True n = Inr a0" "assoc_ok a0" "items a0 = {}" "hashpower a0 = (if n = 0 then 16 else n)" by blast
  then have "(\<lambda>k. assoc_find k (hv_of k) a0) = Map.empty" using assoc_find_None [of a0] by (auto simp: fun_eq_iff)
  moreover have "op_cost doubles cs \<le> doublings_left a0" using assms(2) a0(4) by (simp add: doublings_left_def split: if_splits)
  ultimately have "\<exists>a. op_run (\<lambda>it. assoc_insert it (hv_of (it_key it))) (\<lambda>k. assoc_delete k (hv_of k)) maintain cs a0 = Inr a
    \<and> assoc_ok a \<and> (\<lambda>k. assoc_find k (hv_of k) a) = m" using assms(1) by (intro assoc.run_refines [OF a0(2)]) simp_all
  then obtain a where
    a: "op_run (\<lambda>it. assoc_insert it (hv_of (it_key it))) (\<lambda>k. assoc_delete k (hv_of k)) maintain cs a0 = Inr a"
      "(\<lambda>k. assoc_find k (hv_of k) a) = m" by blast
  from fun_cong [OF a(2)] a(1) a0(1) show ?thesis by (simp add: hv_at_any)
qed

theorem assoc_is_map_witness:
  "\<exists>a0 a. assoc_init True 1 = Inr a0
    \<and> op_run (\<lambda>it. assoc_insert it (hv_at (it_ref it) (it_key it))) (\<lambda>k. assoc_delete k (hv_at 3 k)) maintain
      [Insert \<lparr>it_key = [1], it_ref = 8\<rparr>, Background (Wake True), Insert \<lparr>it_key = [2], it_ref = 9\<rparr>, Background (Move 1), Delete [1]]
      a0 = Inr a
    \<and> (\<forall>key addr'. assoc_find key (hv_at addr' key) a = [[2] \<mapsto> \<lparr>it_key = [2], it_ref = 9\<rparr>] key)"
  by (rule assoc_is_map) (auto simp: fun_eq_iff doubles_def)

lemma bulk_move_progress:
  assumes "assoc_ok a" "expanding a" "0 < n"
  shows "\<exists>a'. bulk_move n a = Inr a' \<and> (expanding a' \<longrightarrow> unat (expand_bucket a) < unat (expand_bucket a'))"
  using assms
proof (induction n arbitrary: a)
  case (Suc n)
  from move_bucket_ok [OF Suc.prems(1,2)] obtain a1 where
    m: "move_bucket a = Inr a1" "assoc_ok a1" "unat (expand_bucket a1) = unat (expand_bucket a) + 1" by blast
  show ?case
  proof (cases "n = 0 \<or> \<not> expanding a1")
    case True
    with m Suc.prems(2) show ?thesis by (cases n) auto
  next
    case False
    with Suc.IH [of a1] m Suc.prems(2) show ?thesis by auto
  qed
qed simp

text \<open>The turns of the maintenance thread, one after the other.\<close>

primrec maintenance_turns :: "nat \<Rightarrow> nat \<Rightarrow> assoc \<Rightarrow> assoc res" where
  "maintenance_turns n 0 a = Inr a"
| "maintenance_turns n (Suc k) a = bindE (maintenance_move n a) (maintenance_turns n k)"

lemma growth_ends_aux:
  assumes "assoc_ok a" "expanding a" "0 < n"
  shows "\<exists>k \<le> hashsize (hashpower a - 1) - unat (expand_bucket a). \<exists>a'. maintenance_turns n k a = Inr a'
    \<and> \<not> expanding a' \<and> \<not> started_expanding a' \<and> items a' = items a \<and> hashpower a' = hashpower a \<and> assoc_ok a'"
  using assms(1,2)
proof (induction "hashsize (hashpower a - 1) - unat (expand_bucket a)" arbitrary: a rule: less_induct)
  case less
  from maintenance_move_ok [OF less.prems(1), of n] obtain a1 where
    m: "maintenance_move n a = Inr a1" "assoc_ok a1" "items a1 = items a" "hashpower a1 = hashpower a" by blast
  have eb: "unat (expand_bucket a) < hashsize (hashpower a - 1)" using less.prems by (simp add: assoc_ok_def hashsize_def)
  show ?case
  proof (cases "expanding a1")
    case False
    with m(1) obtain a2 where "a1 = a2\<lparr>started_expanding := False\<rparr>" by (auto simp: maintenance_move_def bindE_Inr_iff split: if_splits)
    then have "\<not> started_expanding a1" by simp
    with False m eb show ?thesis by (intro exI [of _ 1]) simp
  next
    case True
    with m(1) have "bulk_move n a = Inr a1" by (auto simp: maintenance_move_def bindE_Inr_iff split: if_splits)
    with True bulk_move_progress [OF less.prems assms(3)] have p: "unat (expand_bucket a) < unat (expand_bucket a1)" by auto
    then have "hashsize (hashpower a1 - 1) - unat (expand_bucket a1) < hashsize (hashpower a - 1) - unat (expand_bucket a)"
      using eb m(4) by simp
    from less.hyps [OF this m(2) True] m p eb obtain k a' where
      k: "k \<le> hashsize (hashpower a - 1) - unat (expand_bucket a1)" "maintenance_turns n k a1 = Inr a'"
        "\<not> expanding a' \<and> \<not> started_expanding a' \<and> items a' = items a \<and> hashpower a' = hashpower a \<and> assoc_ok a'" by auto
    from k(1) p eb have "Suc k \<le> hashsize (hashpower a - 1) - unat (expand_bucket a)" by simp
    moreover have "maintenance_turns n (Suc k) a = Inr a'" using m(1) k(2) by simp
    ultimately show ?thesis using k(3) by blast
  qed
qed

text \<open>
  C28. Growing ends, for a table whose power (after doubling) is at most 31: once such a table has
  started to grow, the maintenance thread, moving at least one bucket per turn, has moved everything
  after at most as many turns as the old table has buckets, with every index in range; the table then
  holds exactly the items it held before, and a new growth can be requested.
\<close>

theorem growth_ends:
  assumes "assoc_ok a" "expanding a" "0 < hash_bulk_move"
  shows "\<exists>k \<le> hashsize (hashpower a - 1). \<exists>a'. maintenance_turns hash_bulk_move k a = Inr a'
    \<and> \<not> expanding a' \<and> \<not> started_expanding a' \<and> items a' = items a \<and> hashpower a' = hashpower a \<and> assoc_ok a'"
  using growth_ends_aux [OF assms] by (meson diff_le_self order_trans)

theorem growth_ends_witness:
  "\<exists>a. bindE (assoc_init True 2) (assoc_expand True) = Inr a
    \<and> (\<exists>k \<le> 4. \<exists>a'. maintenance_turns 1 k a = Inr a' \<and> \<not> expanding a')"
proof -
  from assoc_init_ok [of 2] obtain a0 where
    a0: "assoc_init True 2 = Inr a0" "assoc_ok a0" "hashpower a0 = 2" "\<not> expanding a0" by auto
  from assoc_expand_ok [OF a0(2,4), of True] a0(3) obtain a where
    a: "assoc_expand True a0 = Inr a" "assoc_ok a" "hashpower a = 3" "expanding a" by auto
  from growth_ends [OF a(2,4), of 1] a(3) have "\<exists>k \<le> 4. \<exists>a'. maintenance_turns 1 k a = Inr a' \<and> \<not> expanding a'"
    by (auto simp: hashsize_def)
  with a0(1) a(1) show ?thesis by simp
qed

section \<open>Beyond a power of 31\<close>

text \<open>
  The bound is that of the code. From a power of 32 on, the bucket of an item whose hash has its
  highest bit set is negative as an \<open>int\<close>; from 33 on, \<open>expand_bucket\<close> wraps before it gets to the size
  of the old table, so that growing never ends.
\<close>

lemma sint_negative:
  assumes "2 ^ 31 \<le> unat (x :: w32)"
  shows "sint x < 0"
proof (rule ccontr)
  assume n: "\<not> sint x < 0"
  have l: "sint x < 2 ^ 31" using sint_less [of x] by simp
  have "uint x = sint x" using n l by (simp add: uint_sint take_bit_int_eq_self)
  moreover have "int (2 ^ 31) \<le> int (unat x)" using assms by (rule of_nat_mono)
  ultimately show False using l by simp
qed

lemma move_item_negative:
  assumes "32 \<le> hp" "2 ^ 31 \<le> unat (hv_of (it_key it))"
  shows "move_item hp it tab = Inl OutOfRange"
proof -
  let ?h = "hv_of (it_key it)"
  have "bucket hp ?h = unat ?h"
  proof -
    have "(2 :: nat) ^ 32 \<le> 2 ^ hp" using assms(1) by (intro power_increasing) auto
    moreover have "unat ?h < 2 ^ 32" by (rule order_less_le_trans [OF unsigned_less]) simp
    ultimately show ?thesis by (simp add: bucket_def hashsize_def)
  qed
  then have "(of_nat (bucket hp ?h) :: w32) = ?h" by simp
  moreover have "sint ?h < 0" using assms(2) by (rule sint_negative)
  ultimately show ?thesis by (simp add: move_item_def hv_at_any Let_def)
qed

lemma growth_never_ends:
  assumes "33 \<le> hashpower a" "move_bucket a = Inr a'"
  shows "expanding a' = expanding a"
proof -
  have "(2 :: nat) ^ 32 \<le> 2 ^ (hashpower a - 1)" using assms(1) by (intro power_increasing) auto
  moreover have "unat (expand_bucket a + 1) < 2 ^ 32" by (rule order_less_le_trans [OF unsigned_less]) simp
  ultimately have "unat (expand_bucket a + 1) \<noteq> 2 ^ (hashpower a - 1)" by simp
  with assms(2) show ?thesis by (auto simp: move_bucket_def Let_def hashsize_def bindE_Inr_iff split: if_splits)
qed

end
