(* ===== verification/MD5.thy ===== *)
theory MD5
  imports Prelude
begin

text \<open>
  MD5 as libketama computes it (\<open>md5.c\<close>): the compression of a block, appending data in pieces
  through a buffer of 64 bytes, and the final padding. Appending piece by piece is the same as
  hashing the padded message at once.
\<close>

unbundle bit_operations_syntax

section \<open>Compression\<close>

type_synonym regs = "w32 \<times> w32 \<times> w32 \<times> w32"

text \<open>The constants \<open>T1\<close> to \<open>T64\<close>; \<open>T_MASK ^ x\<close> is \<open>NOT x\<close>.\<close>

definition md5_T :: "w32 list" where
  "md5_T =
     [NOT 0x28955b87, NOT 0x173848a9, 0x242070db, NOT 0x3e423111, NOT 0x0a83f050, 0x4787c62a,
      NOT 0x57cfb9ec, NOT 0x02b96afe, 0x698098d8, NOT 0x74bb0850, NOT 0x0000a44e, NOT 0x76a32841,
      0x6b901122, NOT 0x02678e6c, NOT 0x5986bc71, 0x49b40821, NOT 0x09e1da9d, NOT 0x3fbf4cbf,
      0x265e5a51, NOT 0x16493855, NOT 0x29d0efa2, 0x02441453, NOT 0x275e197e, NOT 0x182c0437,
      0x21e1cde6, NOT 0x3cc8f829, NOT 0x0b2af278, 0x455a14ed, NOT 0x561c16fa, NOT 0x03105c07,
      0x676f02d9, NOT 0x72d5b375, NOT 0x0005c6bd, NOT 0x788e097e, 0x6d9d6122, NOT 0x021ac7f3,
      NOT 0x5b4115bb, 0x4bdecfa9, NOT 0x0944b49f, NOT 0x4140438f, 0x289b7ec6, NOT 0x155ed805,
      NOT 0x2b10cf7a, 0x04881d05, NOT 0x262b2fc6, NOT 0x1924661a, 0x1fa27cf8, NOT 0x3b53a99a,
      NOT 0x0bd6ddbb, 0x432aff97, NOT 0x546bdc58, NOT 0x036c5fc6, 0x655b59c3, NOT 0x70f3336d,
      NOT 0x00100b82, NOT 0x7a7ba22e, 0x6fa87e4f, NOT 0x01d3191f, NOT 0x5cfebceb, 0x4e0811a1,
      NOT 0x08ac817d, NOT 0x42c50dca, 0x2ad7d2bb, NOT 0x14792c6e]"

definition ROTATE_LEFT :: "w32 \<Rightarrow> nat \<Rightarrow> w32" where
  "ROTATE_LEFT x n = push_bit n x OR drop_bit (32 - n) x"

definition md5_F :: "w32 \<Rightarrow> w32 \<Rightarrow> w32 \<Rightarrow> w32" where
  "md5_F x y z = (x AND y) OR (NOT x AND z)"

definition md5_G :: "w32 \<Rightarrow> w32 \<Rightarrow> w32 \<Rightarrow> w32" where
  "md5_G x y z = (x AND z) OR (y AND NOT z)"

definition md5_H :: "w32 \<Rightarrow> w32 \<Rightarrow> w32 \<Rightarrow> w32" where
  "md5_H x y z = x XOR y XOR z"

definition md5_I :: "w32 \<Rightarrow> w32 \<Rightarrow> w32 \<Rightarrow> w32" where
  "md5_I x y z = y XOR (x OR NOT z)"

text \<open>
  One \<open>SET\<close>. The next one has the registers in the roles \<open>(d, a, b, c)\<close>, so the result is rotated;
  after the 16 operations of a round the registers are back in their places.
\<close>

definition md5_SET :: "(w32 \<Rightarrow> w32 \<Rightarrow> w32 \<Rightarrow> w32) \<Rightarrow> w32 list \<Rightarrow> nat \<times> nat \<times> nat \<Rightarrow> regs \<Rightarrow> regs" where
  "md5_SET f X = (\<lambda>(k, s, i) (a, b, c, d).
     (let t = a + f b c d + X ! k + md5_T ! (i - 1) in (d, ROTATE_LEFT t s + b, b, c)))"

definition md5_round1 :: "(nat \<times> nat \<times> nat) list" where
  "md5_round1 = [(0, 7, 1), (1, 12, 2), (2, 17, 3), (3, 22, 4), (4, 7, 5), (5, 12, 6), (6, 17, 7), (7, 22, 8),
      (8, 7, 9), (9, 12, 10), (10, 17, 11), (11, 22, 12), (12, 7, 13), (13, 12, 14), (14, 17, 15), (15, 22, 16)]"

definition md5_round2 :: "(nat \<times> nat \<times> nat) list" where
  "md5_round2 = [(1, 5, 17), (6, 9, 18), (11, 14, 19), (0, 20, 20), (5, 5, 21), (10, 9, 22), (15, 14, 23), (4, 20, 24),
      (9, 5, 25), (14, 9, 26), (3, 14, 27), (8, 20, 28), (13, 5, 29), (2, 9, 30), (7, 14, 31), (12, 20, 32)]"

definition md5_round3 :: "(nat \<times> nat \<times> nat) list" where
  "md5_round3 = [(5, 4, 33), (8, 11, 34), (11, 16, 35), (14, 23, 36), (1, 4, 37), (4, 11, 38), (7, 16, 39), (10, 23, 40),
      (13, 4, 41), (0, 11, 42), (3, 16, 43), (6, 23, 44), (9, 4, 45), (12, 11, 46), (15, 16, 47), (2, 23, 48)]"

definition md5_round4 :: "(nat \<times> nat \<times> nat) list" where
  "md5_round4 = [(0, 6, 49), (7, 10, 50), (14, 15, 51), (5, 21, 52), (12, 6, 53), (3, 10, 54), (10, 15, 55), (1, 21, 56),
      (8, 6, 57), (15, 10, 58), (6, 15, 59), (13, 21, 60), (4, 6, 61), (11, 10, 62), (2, 15, 63), (9, 21, 64)]"

text \<open>The 16 words of a block, the lowest byte first.\<close>

definition md5_X :: "8 word list \<Rightarrow> w32 list" where
  "md5_X block =
     map (\<lambda>i. ucast (block ! (4 * i)) + push_bit 8 (ucast (block ! (4 * i + 1)))
            + push_bit 16 (ucast (block ! (4 * i + 2))) + push_bit 24 (ucast (block ! (4 * i + 3)))) [0..<16]"

definition md5_process :: "regs \<Rightarrow> 8 word list \<Rightarrow> regs" where
  "md5_process abcd block =
     (let X = md5_X block;
          r1 = fold (md5_SET md5_F X) md5_round1 abcd;
          r2 = fold (md5_SET md5_G X) md5_round2 r1;
          r3 = fold (md5_SET md5_H X) md5_round3 r2;
          r4 = fold (md5_SET md5_I X) md5_round4 r3 in
      (case (abcd, r4) of ((a0, b0, c0, d0), (a, b, c, d)) \<Rightarrow> (a0 + a, b0 + b, c0 + c, d0 + d)))"

section \<open>Appending\<close>

record md5_state =
  count0 :: w32
  count1 :: w32
  abcd :: regs
  buf :: "8 word list"

definition md5_init :: md5_state where
  "md5_init = \<lparr>count0 = 0, count1 = 0, abcd = (0x67452301, NOT 0x10325476, NOT 0x67452301, 0x10325476),
     buf = replicate 64 0\<rparr>"

text \<open>Whole blocks, and what is left of the data.\<close>

function md5_full :: "regs \<Rightarrow> 8 word list \<Rightarrow> regs \<times> 8 word list" where
  "md5_full r p = (if length p \<ge> 64 then md5_full (md5_process r (take 64 p)) (drop 64 p) else (r, p))"
  by pat_completeness auto
termination
  by (relation "measure (length \<circ> snd)") auto

declare md5_full.simps [simp del]

definition md5_offset :: "md5_state \<Rightarrow> nat" where
  "md5_offset s = unat (drop_bit 3 (count0 s) AND 63)"

definition overwrite :: "nat \<Rightarrow> 8 word list \<Rightarrow> 8 word list \<Rightarrow> 8 word list" where
  "overwrite p xs b = take p b @ xs @ drop (p + length xs) b"

definition md5_count :: "nat \<Rightarrow> md5_state \<Rightarrow> md5_state" where
  "md5_count nbytes s =
     (let nbits = of_nat (nbytes * 8); c1 = count1 s + of_nat (nbytes div 2 ^ 29); c0 = count0 s + nbits in
      s\<lparr>count0 := c0, count1 := (if c0 < nbits then c1 + 1 else c1)\<rparr>)"

text \<open>The two loops at the end: whole blocks from the data, then the rest into the buffer.\<close>

definition md5_rest :: "8 word list \<Rightarrow> md5_state \<Rightarrow> md5_state" where
  "md5_rest p s =
     (case md5_full (abcd s) p of
        (r, rest) \<Rightarrow> s\<lparr>abcd := r, buf := (if rest \<noteq> [] then overwrite 0 rest (buf s) else buf s)\<rparr>)"

text \<open>What is done with the bytes once their number is known to be positive.\<close>

definition md5_absorb :: "8 word list \<Rightarrow> md5_state \<Rightarrow> md5_state" where
  "md5_absorb data s =
     (let nbytes = length data; offset = md5_offset s in
      if nbytes = 0 then s
      else (let s1 = md5_count nbytes s in
            if offset \<noteq> 0
            then (let copy = (if offset + nbytes > 64 then 64 - offset else nbytes);
                      s2 = s1\<lparr>buf := overwrite offset (take copy data) (buf s1)\<rparr> in
                  if offset + copy < 64 then s2
                  else md5_rest (drop copy data) (s2\<lparr>abcd := md5_process (abcd s2) (buf s2)\<rparr>))
            else md5_rest data s1))"

text \<open>
  \<open>nbytes\<close> is an \<open>int\<close>. A count that is not positive appends nothing. The sum \<open>offset + nbytes\<close> is formed in an \<open>int\<close> when a block is
  partly filled; where it overflows the behaviour is undefined, which is \<open>None\<close>. (\<open>nbytes << 3\<close> is taken modulo \<open>2 ^ 32\<close>, as compilers do.)
\<close>

definition md5_append :: "8 word list \<Rightarrow> int \<Rightarrow> md5_state \<Rightarrow> md5_state option" where
  "md5_append data nbytes s =
     (if nbytes \<le> 0 then Some s
      else if md5_offset s \<noteq> 0 \<and> int (md5_offset s) + nbytes \<ge> 2 ^ 31 then None
      else Some (md5_absorb (take (nat nbytes) data) s))"

text \<open>The bytes of a word, the lowest first.\<close>

definition w32_bytes :: "w32 \<Rightarrow> 8 word list" where
  "w32_bytes w = map (\<lambda>i. ucast (drop_bit (8 * i) w)) [0..<4]"

definition md5_pad :: "8 word list" where
  "md5_pad = 0x80 # replicate 63 0"

definition md5_finish :: "md5_state \<Rightarrow> 8 word list option" where
  "md5_finish s =
     (let data = w32_bytes (count0 s) @ w32_bytes (count1 s) in
      Option.bind (md5_append md5_pad (uint ((55 - drop_bit 3 (count0 s)) AND 63) + 1) s) (\<lambda>s1.
      Option.bind (md5_append data 8 s1) (\<lambda>s2.
      (case abcd s2 of (a, b, c, d) \<Rightarrow> Some (w32_bytes a @ w32_bytes b @ w32_bytes c @ w32_bytes d)))))"

section \<open>The padded message\<close>

text \<open>
  What MD5 is defined to compute: the message, a byte \<open>0x80\<close>, zeros up to 56 modulo 64, and the length
  in bits in 64 bits; the digest is the chaining of \<^const>\<open>md5_process\<close> over the blocks of that.
\<close>

definition md5_padded :: "8 word list \<Rightarrow> 8 word list" where
  "md5_padded msg =
     msg @ 0x80 # replicate (nat ((55 - int (length msg)) mod 64)) 0
       @ map (\<lambda>i. word_of_nat (8 * length msg div 256 ^ i)) [0..<8]"

fun md5_chain :: "regs \<Rightarrow> 8 word list list \<Rightarrow> regs" where
  "md5_chain r [] = r"
| "md5_chain r (b # bs) = md5_chain (md5_process r b) bs"

fun blocks64 :: "nat \<Rightarrow> 8 word list \<Rightarrow> 8 word list list" where
  "blocks64 0 p = []"
| "blocks64 (Suc n) p = take 64 p # blocks64 n (drop 64 p)"

definition md5_spec :: "8 word list \<Rightarrow> 8 word list" where
  "md5_spec msg =
     (case md5_chain (abcd md5_init) (blocks64 (length (md5_padded msg) div 64) (md5_padded msg)) of
        (a, b, c, d) \<Rightarrow> w32_bytes a @ w32_bytes b @ w32_bytes c @ w32_bytes d)"

section \<open>Whole blocks\<close>

lemma md5_full_short [simp]: "length p < 64 \<Longrightarrow> md5_full r p = (r, p)"
  by (subst md5_full.simps) simp

lemma md5_full_block: "length b = 64 \<Longrightarrow> md5_full r (b @ p) = md5_full (md5_process r b) p"
  by (subst md5_full.simps) simp

lemma md5_full_rest: "length (snd (md5_full r p)) = length p mod 64"
proof (induction r p rule: md5_full.induct)
  case (1 r p)
  then show ?case
    by (subst md5_full.simps) (simp add: le_mod_geq)
qed

lemma md5_full_append:
  "md5_full r (p @ q) = (case md5_full r p of (r', p') \<Rightarrow> md5_full r' (p' @ q))"
proof (induction r p rule: md5_full.induct)
  case (1 r p)
  show ?case
  proof (cases "length p \<ge> 64")
    case True
    have "md5_full r (p @ q) = md5_full (md5_process r (take 64 p)) (drop 64 p @ q)"
      using md5_full_block [of "take 64 p" r "drop 64 p @ q"] True
      by (simp add: append_assoc [symmetric] del: append_assoc)
    moreover have "md5_full r p = md5_full (md5_process r (take 64 p)) (drop 64 p)"
      using True by (subst md5_full.simps) simp
    ultimately show ?thesis
      using 1 True by simp
  qed simp
qed

lemma md5_full_chain:
  "length p = 64 * n \<Longrightarrow> md5_full r p = (md5_chain r (blocks64 n p), [])"
proof (induction n arbitrary: r p)
  case (Suc n)
  then have "md5_full r p = md5_full (md5_process r (take 64 p)) (drop 64 p)"
    by (subst md5_full.simps) simp
  then show ?case
    using Suc by simp
qed simp

section \<open>The state as a function of the bytes appended\<close>

text \<open>\<open>md5_repr s msg\<close>: \<open>s\<close> is the state after \<open>msg\<close>, in whatever pieces.\<close>

definition md5_repr :: "md5_state \<Rightarrow> 8 word list \<Rightarrow> bool" where
  "md5_repr s msg \<longleftrightarrow>
     length (buf s) = 64
     \<and> unat (count1 s) * 2 ^ 32 + unat (count0 s) = 8 * length msg mod 2 ^ 64
     \<and> (abcd s, take (length msg mod 64) (buf s)) = md5_full (abcd md5_init) msg"

lemma md5_repr_init: "md5_repr md5_init []"
  by (simp add: md5_repr_def md5_init_def)

lemma count_carry:
  fixes A B q r M :: nat
  assumes "0 < M"
  shows "(A + q + (B + r) div M) mod M * M + (B + r) mod M = (A * M + B + (q * M + r)) mod (M * M)"
proof -
  have e: "A * M + B + (q * M + r) = (A + q) * M + (B + r)"
    by (simp add: algebra_simps)
  have "((A + q) * M + (B + r)) div M = A + q + (B + r) div M"
    using assms by (simp add: add.commute)
  then show ?thesis
    unfolding e mod_mult2_eq by (simp add: mult.commute)
qed

lemma word_carry:
  fixes a b c :: w32
  shows "unat (if a + b < b then c + 1 else c) = (unat c + (unat a + unat b) div 2 ^ 32) mod 2 ^ 32"
    "unat (a + b) = (unat a + unat b) mod 2 ^ 32"
proof -
  show s: "unat (a + b) = (unat a + unat b) mod 2 ^ 32"
    by (simp add: unat_word_ariths)
  have l: "unat a < 2 ^ 32" "unat b < 2 ^ 32"
    using unsigned_less [of a] unsigned_less [of b] by simp_all
  have lc: "unat c < 2 ^ 32"
    using unsigned_less [of c] by simp
  show "unat (if a + b < b then c + 1 else c) = (unat c + (unat a + unat b) div 2 ^ 32) mod 2 ^ 32"
  proof (cases "unat a + unat b < 2 ^ 32")
    case True
    then have "\<not> a + b < b"
      using s by (simp add: word_less_nat_alt)
    then show ?thesis
      using True lc by simp
  next
    case False
    then have d: "(unat a + unat b) div 2 ^ 32 = 1" and m: "(unat a + unat b) mod 2 ^ 32 = unat a + unat b - 2 ^ 32"
      using l by (simp_all add: div_nat_eqI mod_if)
    then have "a + b < b"
      using s l False by (simp add: word_less_nat_alt)
    then show ?thesis
      using d by (simp add: unat_word_ariths)
  qed
qed

lemma unat_of_nat32: "unat (of_nat n :: w32) = n mod 2 ^ 32"
  by (simp add: unat_of_nat take_bit_eq_mod)

lemma md5_count_bits:
  "unat (count1 (md5_count k s)) * 2 ^ 32 + unat (count0 (md5_count k s))
     = (unat (count1 s) * 2 ^ 32 + unat (count0 s) + 8 * k) mod 2 ^ 64"
proof -
  define n :: w32 where "n = of_nat (k * 8)"
  let ?q = "k div 2 ^ 29" and ?A = "unat (count1 s)" and ?B = "unat (count0 s)"
  have n: "unat n = 8 * (k mod 2 ^ 29)"
    unfolding n_def unat_of_nat32 using mult_mod_right [of 8 k "2 ^ 29"] by (simp add: mult.commute)
  have "8 * x = q * 2 ^ 32 + 8 * r" if "q * 2 ^ 29 + r = x" for x q r :: nat
    using that by simp
  from this [OF div_mult_mod_eq] have k: "8 * k = ?q * 2 ^ 32 + unat n"
    unfolding n .
  have "count1 (md5_count k s)
      = (if count0 s + n < n then count1 s + of_nat ?q + 1 else count1 s + of_nat ?q)"
    unfolding md5_count_def Let_def n_def [symmetric] by simp
  then have "unat (count1 (md5_count k s)) = (unat (count1 s + of_nat ?q) + (?B + unat n) div 2 ^ 32) mod 2 ^ 32"
    by (simp only: word_carry(1))
  then have "unat (count1 (md5_count k s)) = (?A + ?q + (?B + unat n) div 2 ^ 32) mod 2 ^ 32"
    by (simp only: word_carry(2) unat_of_nat32 mod_simps)
  moreover have "unat (count0 (md5_count k s)) = (?B + unat n) mod 2 ^ 32"
    unfolding md5_count_def Let_def n_def [symmetric] by (simp add: word_carry(2))
  ultimately show ?thesis
    unfolding k using count_carry [of "2 ^ 32" ?A ?q ?B "unat n"] by simp
qed

lemma unat_and_63: "unat (drop_bit 3 (w :: w32) AND 63) = unat w div 8 mod 64"
proof -
  have "drop_bit 3 w AND 63 = take_bit 6 (drop_bit 3 w)"
    by (simp add: take_bit_eq_mask mask_eq_exp_minus_1)
  then have "unat (drop_bit 3 w AND 63) = take_bit 6 (drop_bit 3 (unat w))"
    by (simp only: unsigned_take_bit_eq unat_drop_bit_eq)
  then show ?thesis
    by (simp add: take_bit_eq_mod drop_bit_eq_div)
qed

lemma bits_div_8_mod_64:
  fixes x A B :: nat
  assumes "A * 2 ^ 32 + B = 8 * x mod 2 ^ 64"
  shows "B div 8 mod 64 = x mod 64"
proof -
  have d: "(2 :: nat) ^ 9 dvd 2 ^ 64" "(2 :: nat) ^ 9 dvd A * 2 ^ 32"
    by (intro le_imp_power_dvd dvd_mult, simp)+
  have "B mod 2 ^ 9 = (A * 2 ^ 32 + B) mod 2 ^ 9"
    using d(2) by (metis mod_add_eq add_0 dvd_imp_mod_0 mod_mod_trivial)
  also have "\<dots> = 8 * x mod 2 ^ 9"
    unfolding assms by (rule mod_mod_cancel [OF d(1)])
  finally have "B mod (8 * 64) = 8 * x mod (8 * 64)"
    by simp
  then have "8 * (B div 8 mod 64) + B mod 8 = 8 * (x mod 64)"
    unfolding mod_mult2_eq by simp
  moreover have "B mod 8 < 8"
    by simp
  ultimately show ?thesis
    by linarith
qed

lemma md5_repr_offset: "md5_repr s msg \<Longrightarrow> md5_offset s = length msg mod 64"
  unfolding md5_repr_def md5_offset_def unat_and_63 using bits_div_8_mod_64 by blast

lemma md5_repr_full:
  assumes "md5_repr s msg"
  shows "md5_full (abcd md5_init) (msg @ x) = md5_full (abcd s) (take (length msg mod 64) (buf s) @ x)"
  using assms md5_full_append [of "abcd md5_init" msg x] by (auto simp: md5_repr_def split: prod.splits)

lemma md5_count_keeps [simp]:
  "abcd (md5_count k s) = abcd s" "buf (md5_count k s) = buf s"
  by (simp_all add: md5_count_def Let_def)

lemma length_overwrite [simp]: "p + length xs \<le> length b \<Longrightarrow> length (overwrite p xs b) = length b"
  by (simp add: overwrite_def)

lemma take_overwrite:
  "p + length xs \<le> length b \<Longrightarrow> take (p + length xs) (overwrite p xs b) = take p b @ xs"
  by (simp add: overwrite_def)

lemma md5_rest_spec:
  assumes "length (buf s) = 64" and "md5_full (abcd s) p = (r, rest)"
  shows "abcd (md5_rest p s) = r" "length (buf (md5_rest p s)) = 64"
    "take (length p mod 64) (buf (md5_rest p s)) = rest"
    "count0 (md5_rest p s) = count0 s" "count1 (md5_rest p s) = count1 s"
proof -
  have l: "length rest = length p mod 64"
    using md5_full_rest [of "abcd s" p] assms(2) by simp
  then have "length rest < 64"
    by simp
  then show "abcd (md5_rest p s) = r" "length (buf (md5_rest p s)) = 64"
    "take (length p mod 64) (buf (md5_rest p s)) = rest"
    "count0 (md5_rest p s) = count0 s" "count1 (md5_rest p s) = count1 s"
    using assms l take_overwrite [of 0 rest "buf s"] by (auto simp: md5_rest_def)
qed

lemma md5_repr_rest:
  assumes "length (buf s) = 64" and "unat (count1 s) * 2 ^ 32 + unat (count0 s) = 8 * length msg mod 2 ^ 64"
    and "md5_full (abcd s) p = md5_full (abcd md5_init) msg" and "length p mod 64 = length msg mod 64"
  shows "md5_repr (md5_rest p s) msg"
proof -
  obtain r rest where fr: "md5_full (abcd s) p = (r, rest)"
    by (rule prod.exhaust)
  then have "(r, rest) = md5_full (abcd md5_init) msg"
    using assms(3) by simp
  then show ?thesis
    unfolding md5_repr_def md5_rest_spec(1,2,4,5) [OF assms(1) fr]
    using md5_rest_spec(3) [OF assms(1) fr] assms(2,4) by simp
qed

lemma md5_repr_count:
  assumes "md5_repr s msg"
  shows "unat (count1 (md5_count (length x) s)) * 2 ^ 32 + unat (count0 (md5_count (length x) s))
    = 8 * length (msg @ x) mod 2 ^ 64"
proof -
  have "unat (count1 s) * 2 ^ 32 + unat (count0 s) = 8 * length msg mod 2 ^ 64"
    using assms by (simp add: md5_repr_def)
  then show ?thesis
    unfolding md5_count_bits by (simp only: mod_add_left_eq length_append distrib_left)
qed

lemma md5_repr_absorb:
  assumes repr: "md5_repr s msg"
  shows "md5_repr (md5_absorb x s) (msg @ x)"
proof (cases "x = []")
  case True
  then show ?thesis
    using repr by (simp add: md5_absorb_def Let_def)
next
  case False
  define off where "off = length msg mod 64"
  have b: "length (buf s) = 64" and o: "md5_offset s = off" "off < 64"
    using repr md5_repr_offset by (auto simp: md5_repr_def off_def)
  note c = md5_repr_count [OF repr, of x]
  note f = md5_repr_full [OF repr, of x, folded off_def]
  consider (aligned) "off = 0" | (short) "off \<noteq> 0" "off + length x < 64" | (fill) "off \<noteq> 0" "off + length x \<ge> 64"
    by linarith
  then show ?thesis
  proof cases
    case aligned
    have "md5_absorb x s = md5_rest x (md5_count (length x) s)"
      using False o aligned by (simp add: md5_absorb_def Let_def)
    moreover have "length x mod 64 = length (msg @ x) mod 64"
      using aligned unfolding off_def by (metis add_0 length_append mod_add_left_eq)
    ultimately show ?thesis
      using md5_repr_rest [of "md5_count (length x) s" "msg @ x" x] b c f aligned by simp
  next
    case short
    have "md5_absorb x s = (md5_count (length x) s)\<lparr>buf := overwrite off x (buf s)\<rparr>"
      using False o short by (simp add: md5_absorb_def Let_def)
    moreover have "length (msg @ x) mod 64 = off + length x"
      using short unfolding off_def by (metis length_append mod_add_left_eq mod_less)
    ultimately show ?thesis
      using short c f b take_overwrite [of off x "buf s"] by (simp add: md5_repr_def)
  next
    case fill
    define b2 where "b2 = overwrite off (take (64 - off) x) (buf s)"
    define s2 where "s2 = (md5_count (length x) s)\<lparr>buf := b2, abcd := md5_process (abcd s) b2\<rparr>"
    have cp: "(if 64 < off + length x then 64 - off else length x) = 64 - off"
      using fill by (simp; arith)
    have a: "md5_absorb x s = md5_rest (drop (64 - off) x) s2"
      unfolding md5_absorb_def Let_def o cp using False fill o by (simp add: s2_def b2_def)
    have l: "length b2 = 64"
      using fill b o by (simp add: b2_def)
    have "b2 = take off (buf s) @ take (64 - off) x"
      using take_overwrite [of off "take (64 - off) x" "buf s"] fill b o l by (simp add: b2_def)
    then have "take off (buf s) @ x = b2 @ drop (64 - off) x"
      by simp
    then have m: "md5_full (abcd s2) (drop (64 - off) x) = md5_full (abcd md5_init) (msg @ x)"
      using md5_full_block [OF l] f by (simp add: s2_def)
    have "length (msg @ x) = 64 * Suc (length msg div 64) + length (drop (64 - off) x)"
      using fill o div_mult_mod_eq [of "length msg" 64] by (simp add: off_def [symmetric])
    then have "length (drop (64 - off) x) mod 64 = length (msg @ x) mod 64"
      by (simp only: mod_mult_self4)
    moreover have "length (buf s2) = 64"
      by (simp add: s2_def l)
    moreover have "unat (count1 s2) * 2 ^ 32 + unat (count0 s2) = 8 * length (msg @ x) mod 2 ^ 64"
      using c by (simp add: s2_def)
    ultimately show ?thesis
      unfolding a using m by (intro md5_repr_rest)
  qed
qed

section \<open>The digest\<close>

lemma md5_offset_less: "md5_offset s < 64"
proof -
  have "md5_offset s \<le> unat (63 :: w32)" unfolding md5_offset_def by (rule word_le_nat_alt [THEN iffD1, OF word_and_le1])
  then show ?thesis by simp
qed

lemma md5_append_absorb:
  assumes "length x < 2 ^ 31 - 63"
  shows "md5_append x (int (length x)) s = Some (md5_absorb x s)"
  using assms md5_offset_less [of s] by (cases "x = []") (auto simp: md5_append_def md5_absorb_def)

text \<open>Appending one piece after the other, each with its length.\<close>

primrec md5_appends :: "8 word list list \<Rightarrow> md5_state \<Rightarrow> md5_state option" where
  "md5_appends [] s = Some s"
| "md5_appends (x # xs) s = Option.bind (md5_append x (int (length x)) s) (md5_appends xs)"

lemma md5_repr_appends:
  assumes "\<forall>x \<in> set xs. length x < 2 ^ 31 - 63"
  shows "md5_repr s msg \<Longrightarrow> \<exists>s'. md5_appends xs s = Some s' \<and> md5_repr s' (msg @ concat xs)"
  using assms
proof (induction xs arbitrary: s msg)
  case (Cons x xs)
  then show ?case using Cons.IH [OF md5_repr_absorb [of s msg x]] md5_append_absorb [of x s] by simp
qed simp

text \<open>\<open>md5_finish\<close> pads with 1 to 64 bytes, up to 56 modulo 64.\<close>

lemma md5_pad_length:
  assumes "md5_repr s msg"
  shows "unat ((55 - drop_bit 3 (count0 s)) AND 63) = nat ((55 - int (length msg)) mod 64)"
proof -
  let ?w = "drop_bit 3 (count0 s)"
  have "unat (count0 s) div 8 mod 64 = length msg mod 64"
    using md5_repr_offset [OF assms] unfolding md5_offset_def unat_and_63 .
  then have "int (unat (count0 s) div 8) mod 64 = int (length msg) mod 64"
    by (metis of_nat_mod of_nat_numeral)
  moreover have "unat ?w = unat (count0 s) div 8"
    unfolding unat_drop_bit_eq by (simp add: drop_bit_eq_div)
  from arg_cong [OF this, of int] have "uint ?w = int (unat (count0 s) div 8)"
    by (simp only: of_nat_unat)
  ultimately have w: "uint ?w mod 64 = int (length msg) mod 64"
    by simp
  have "(55 - ?w) AND 63 = take_bit 6 (55 - ?w)"
    by (simp add: take_bit_eq_mask mask_eq_exp_minus_1)
  then have "uint ((55 - ?w) AND 63) = take_bit 6 (uint (55 - ?w))"
    by (simp only: unsigned_take_bit_eq)
  also have "\<dots> = uint (55 - ?w) mod 2 ^ 6"
    by (rule take_bit_eq_mod)
  also have "\<dots> = (55 - uint ?w) mod 2 ^ 32 mod 2 ^ 6"
    unfolding uint_word_ariths by simp
  also have "\<dots> = (55 - uint ?w) mod 2 ^ 6"
    by (rule mod_mod_cancel) (rule le_imp_power_dvd, simp)
  also have "\<dots> = (55 - int (length msg)) mod 64"
    using mod_diff_right_eq [of 55 "uint ?w" 64] mod_diff_right_eq [of 55 "int (length msg)" 64] w by simp
  finally show ?thesis
    by (simp only: unat_eq_nat_uint)
qed

lemma div_256_power: "v div 256 ^ i = drop_bit (8 * i) (v :: nat)"
  by (simp add: drop_bit_eq_div power_mult)

lemma byte_eqI: "take_bit 8 (drop_bit n (unat w)) = take_bit 8 y \<Longrightarrow> ucast (drop_bit n (w :: w32)) = (word_of_nat y :: 8 word)"
  by (rule unsigned_word_eqI [where ?'a = nat]) (simp add: unsigned_ucast_eq unat_drop_bit_eq unat_of_nat, simp add: take_bit_eq_mod)

lemma count_bytes:
  fixes c0 c1 :: w32
  assumes "unat c1 * 2 ^ 32 + unat c0 = v mod 2 ^ 64"
  shows "w32_bytes c0 @ w32_bytes c1 = map (\<lambda>i. word_of_nat (v div 256 ^ i)) [0..<8]"
proof -
  have l: "unat c0 < 2 ^ 32"
    using unsigned_less [of c0] by simp
  have "unat c1 = drop_bit 32 (take_bit 64 v)" and "unat c0 = take_bit 32 (take_bit 64 v)"
    unfolding drop_bit_eq_div take_bit_eq_mod assms [symmetric] using l by simp_all
  then have c: "unat c1 = take_bit 32 (drop_bit 32 v)" "unat c0 = take_bit 32 v"
    by (simp_all add: drop_bit_take_bit)
  have "ucast (drop_bit (8 * i) c0) = (word_of_nat (v div 256 ^ i) :: 8 word)"
    and "ucast (drop_bit (8 * i) c1) = (word_of_nat (v div 256 ^ (i + 4)) :: 8 word)" if "i < 4" for i
    unfolding div_256_power using that by (auto intro!: byte_eqI simp: c drop_bit_take_bit add.commute)
  then have "w32_bytes c0 = map (\<lambda>i. word_of_nat (v div 256 ^ i)) [0..<4]"
    and "w32_bytes c1 = map (\<lambda>i. word_of_nat (v div 256 ^ i)) (map (\<lambda>i. i + 4) [0..<4])"
    unfolding w32_bytes_def map_map by (auto intro!: map_cong)
  moreover have "[0..<8] = [0..<4] @ map (\<lambda>i. i + 4) [0..<4]"
    by (simp add: upt_rec)
  ultimately show ?thesis
    by (simp only: map_append)
qed

lemma md5_pad_take: "n < 64 \<Longrightarrow> take (n + 1) md5_pad = 0x80 # replicate n 0"
  by (simp add: md5_pad_def)

lemma md5_padded_length: "64 dvd length (md5_padded msg)"
proof -
  have "int (length (md5_padded msg)) = int (length msg) + (55 - int (length msg)) mod 64 + 9"
    by (simp add: md5_padded_def)
  also have "x + m + 9 = 64 * (1 - k)" if "55 - x - k * 64 = m" for x m k :: int
    using that by simp
  from this [OF minus_div_mult_eq_mod]
  have "int (length msg) + (55 - int (length msg)) mod 64 + 9 = 64 * (1 - (55 - int (length msg)) div 64)" .
  finally have "int 64 dvd int (length (md5_padded msg))"
    by (simp only: of_nat_numeral dvd_triv_left)
  then show ?thesis
    by (simp only: of_nat_dvd_iff)
qed

lemma md5_finish_repr:
  assumes "md5_repr s msg"
  shows "md5_finish s = Some (md5_spec msg)"
proof -
  define z where "z = nat ((55 - int (length msg)) mod 64)"
  let ?n = "unat ((55 - drop_bit 3 (count0 s)) AND 63) + 1"
  let ?pad = "take ?n md5_pad"
  let ?data = "w32_bytes (count0 s) @ w32_bytes (count1 s)"
  define s2 where "s2 = md5_absorb ?data (md5_absorb ?pad s)"
  have n: "?n \<le> 64" using md5_pad_length [OF assms] by simp
  have "md5_append md5_pad (uint ((55 - drop_bit 3 (count0 s)) AND 63) + 1) s = Some (md5_absorb ?pad s)"
  proof -
    define m where "m = ?n"
    have "uint ((55 - drop_bit 3 (count0 s)) AND 63) + 1 = int m" by (simp add: m_def)
    moreover have "0 < m" "m \<le> 64" using n by (simp_all add: m_def)
    ultimately show ?thesis using md5_offset_less [of s] unfolding m_def [symmetric] by (simp add: md5_append_def)
  qed
  moreover have "length ?data = 8" by (simp add: w32_bytes_def)
  then have "md5_append ?data 8 (md5_absorb ?pad s) = Some s2"
    using md5_append_absorb [of ?data "md5_absorb ?pad s"] by (simp add: s2_def)
  moreover have "?pad = 0x80 # replicate z 0"
    using md5_pad_take [of z] md5_pad_length [OF assms] by (simp add: z_def)
  moreover have "?data = map (\<lambda>i. word_of_nat (8 * length msg div 256 ^ i)) [0..<8]"
    using assms by (intro count_bytes) (simp add: md5_repr_def)
  ultimately have fin: "md5_finish s = (case abcd s2 of (a, b, c, d) \<Rightarrow> Some (w32_bytes a @ w32_bytes b @ w32_bytes c @ w32_bytes d))"
    and "md5_padded msg = (msg @ ?pad) @ ?data"
    unfolding md5_finish_def Let_def by (simp_all only: md5_padded_def z_def append.simps append_assoc bind.simps)
  then have "md5_repr s2 (md5_padded msg)"
    unfolding s2_def using assms by (simp only: md5_repr_absorb)
  then have "abcd s2 = fst (md5_full (abcd md5_init) (md5_padded msg))"
    unfolding md5_repr_def by (metis fst_conv)
  also have "\<dots> = md5_chain (abcd md5_init) (blocks64 (length (md5_padded msg) div 64) (md5_padded msg))"
    using md5_full_chain [of "md5_padded msg" "length (md5_padded msg) div 64"] md5_padded_length [of msg] by simp
  finally show ?thesis
    unfolding fin md5_spec_def by (simp split: prod.split)
qed

text \<open>
  The rounds and their constants on one block: the digest of the empty message of RFC 1321,
  \<open>d41d8cd98f00b204e9800998ecf8427e\<close>. Every constant, shift and word index takes part in it.
\<close>

lemma md5_empty_block:
  "md5_process (abcd md5_init) (0x80 # replicate 63 0) = (0xd98c1dd4, 0x4b2008f, 0x980980e9, 0x7e42f8ec)"
  by code_simp

lemma md5_spec_empty:
  "md5_spec [] = [0xd4, 0x1d, 0x8c, 0xd9, 0x8f, 0x00, 0xb2, 0x04, 0xe9, 0x80, 0x09, 0x98, 0xec, 0xf8, 0x42, 0x7e]"
proof -
  have p: "md5_padded [] = 0x80 # replicate 63 0"
    using replicate_add [of 55 8 "0 :: 8 word"] by (simp add: md5_padded_def map_replicate_const)
  have "length (0x80 # replicate 63 (0 :: 8 word)) div 64 = Suc 0"
    by simp
  then have "blocks64 (length (md5_padded []) div 64) (md5_padded []) = [0x80 # replicate 63 0]"
    unfolding p by (simp only: blocks64.simps) simp
  then have "md5_spec [] = w32_bytes 0xd98c1dd4 @ w32_bytes 0x4b2008f @ w32_bytes 0x980980e9 @ w32_bytes 0x7e42f8ec"
    unfolding md5_spec_def by (simp only: md5_chain.simps md5_empty_block prod.case)
  also have "\<dots> = [0xd4, 0x1d, 0x8c, 0xd9, 0x8f, 0x00, 0xb2, 0x04, 0xe9, 0x80, 0x09, 0x98, 0xec, 0xf8, 0x42, 0x7e]"
    by code_simp
  finally show ?thesis .
qed

text \<open>
  C22. However a message is cut into the pieces passed to \<open>md5_append\<close>, empty ones included and each short enough that
  its length and the 63 bytes that may be waiting in the buffer add up in an \<open>int\<close>, \<open>md5_finish\<close> returns the
  digest of the padded message: the chaining of the compression function over the 64-byte blocks of the
  message, a byte \<open>0x80\<close>, zeros, and the bit length modulo \<open>2 ^ 64\<close>. The offset and carry arithmetic on the
  two 32-bit counters is part of this, with \<open>nbytes << 3\<close> taken modulo \<open>2 ^ 32\<close>.
\<close>

theorem md5_pieces:
  assumes "\<forall>x \<in> set xs. length x < 2 ^ 31 - 63"
  shows "Option.bind (md5_appends xs md5_init) md5_finish = Some (md5_spec (concat xs))"
  using md5_repr_appends [OF assms md5_repr_init] md5_finish_repr by auto

theorem md5_pieces_witness:
  "Option.bind (md5_appends [[97], [], [98, 99]] md5_init) md5_finish = Some (md5_spec [97, 98, 99])"
  using md5_pieces [of "[[97], [], [98, 99]]"] by simp

end
