(* ===== verification/Float_Rounding.thy ===== *)
theory Float_Rounding
  imports Prelude "HOL-Library.Log_Nat"
begin

text \<open>
  Rounding to binary floating point, to nearest with ties to even, for the positive numbers that the
  code computes with: far from underflow and overflow, so that only the precision matters. \<open>float\<close> has 24
  bits and \<open>double\<close> 53.
\<close>

section \<open>Definitions\<close>

definition round_even :: "rat \<Rightarrow> int" where
  "round_even q =
     (let f = \<lfloor>q\<rfloor>; r = q - of_int f in
      if r < 1 / 2 then f else if r > 1 / 2 then f + 1 else if even f then f else f + 1)"

text \<open>The exponent of a positive number: \<open>2 powi e \<le> x\<close>, from the lengths of numerator and denominator.\<close>

definition binexp :: "rat \<Rightarrow> int" where
  "binexp x = (case quotient_of x of (n, d) \<Rightarrow>
     let e = bitlen n - bitlen d in if 2 powi e \<le> x then e else e - 1)"

definition round_to :: "int \<Rightarrow> rat \<Rightarrow> rat" where
  "round_to p x =
     (if x = 0 then 0
      else (let u = 2 powi (binexp x - p + 1) in of_int (round_even (x / u)) * u))"

abbreviation float32 :: "rat \<Rightarrow> rat" where
  "float32 \<equiv> round_to 24"

abbreviation float64 :: "rat \<Rightarrow> rat" where
  "float64 \<equiv> round_to 53"

section \<open>Bounds\<close>

lemma round_even_bounds: "\<bar>of_int (round_even q) - q\<bar> \<le> 1 / 2"
proof -
  have "of_int \<lfloor>q\<rfloor> \<le> q" "q < of_int \<lfloor>q\<rfloor> + 1"
    by linarith+
  then show ?thesis
    unfolding round_even_def Let_def by (auto simp: abs_le_iff)
qed

lemma round_even_int [simp]: "round_even (of_int i) = i"
  by (simp add: round_even_def)

lemma round_even_mono: "a \<le> b \<Longrightarrow> round_even a \<le> round_even b"
proof (cases "\<lfloor>a\<rfloor> = \<lfloor>b\<rfloor>")
  case True
  assume "a \<le> b"
  with True show ?thesis
    unfolding round_even_def Let_def by auto
next
  case False
  assume "a \<le> b"
  then have "\<lfloor>a\<rfloor> + 1 \<le> \<lfloor>b\<rfloor>"
    using False floor_mono [of a b] by linarith
  then show ?thesis
    unfolding round_even_def Let_def by auto
qed

lemma binexp_le:
  assumes "0 < x"
  shows "2 powi binexp x \<le> x"
proof -
  obtain n d where nd: "quotient_of x = (n, d)"
    by fastforce
  then have d: "0 < d" and x: "x = of_int n / of_int d"
    by (auto simp: quotient_of_denom_pos quotient_of_div)
  then have n: "0 < n"
    using assms by (simp add: zero_less_divide_iff)
  let ?e = "bitlen n - bitlen d"
  have b: "2 ^ nat (bitlen n - 1) \<le> n" "d < 2 ^ nat (bitlen d)" "0 \<le> bitlen n - 1" "0 \<le> bitlen d"
    using bitlen_bounds [OF n] bitlen_bounds [OF d] bitlen_nonneg [of d] n by (simp_all add: bitlen_alt_def)
  have "(2 :: rat) powi (?e - 1) = 2 powi (bitlen n - 1) / 2 powi bitlen d"
    by (simp add: algebra_simps flip: power_int_diff)
  also have "\<dots> = of_int (2 ^ nat (bitlen n - 1)) / of_int (2 ^ nat (bitlen d))"
    using b(3,4) by (simp add: power_int_def)
  also have "\<dots> \<le> of_int n / of_int d"
  proof (rule frac_le)
    show "rat_of_int (2 ^ nat (bitlen n - 1)) \<le> rat_of_int n" "rat_of_int d \<le> rat_of_int (2 ^ nat (bitlen d))"
      using b(1,2) by (simp_all only: of_int_le_iff less_imp_le)
  qed (use n d in simp_all)
  finally have "2 powi (?e - 1) \<le> x"
    by (simp add: x)
  then show ?thesis
    by (auto simp: binexp_def nd Let_def)
qed

lemma binexp_gt:
  assumes "0 < x"
  shows "x < 2 powi (binexp x + 1)"
proof -
  obtain n d where nd: "quotient_of x = (n, d)"
    by fastforce
  then have d: "0 < d" and x: "x = of_int n / of_int d"
    by (auto simp: quotient_of_denom_pos quotient_of_div)
  then have n: "0 < n"
    using assms by (simp add: zero_less_divide_iff)
  let ?e = "bitlen n - bitlen d"
  have b: "n < 2 ^ nat (bitlen n)" "2 ^ nat (bitlen d - 1) \<le> d" "0 \<le> bitlen n" "0 \<le> bitlen d - 1"
    using bitlen_bounds [OF n] bitlen_bounds [OF d] bitlen_nonneg [of n] d by (simp_all add: bitlen_alt_def)
  have "of_int n / of_int d < of_int (2 ^ nat (bitlen n)) / rat_of_int (2 ^ nat (bitlen d - 1))"
  proof (rule frac_less)
    show "rat_of_int n < rat_of_int (2 ^ nat (bitlen n))" "rat_of_int (2 ^ nat (bitlen d - 1)) \<le> rat_of_int d"
      using b(1,2) by (simp_all only: of_int_le_iff of_int_less_iff)
  qed (use n in simp_all)
  also have "\<dots> = 2 powi bitlen n / 2 powi (bitlen d - 1)"
    using b(3,4) by (simp add: power_int_def)
  also have "\<dots> = 2 powi (?e + 1)"
    by (simp add: algebra_simps flip: power_int_diff)
  finally have "x < 2 powi (?e + 1)"
    by (simp add: x)
  then show ?thesis
    by (auto simp: binexp_def nd Let_def)
qed

lemma powi_less: "(2 :: rat) powi a < 2 powi b \<Longrightarrow> a < b"
  by (metis leD not_le one_le_numeral power_int_increasing)

lemma binexp_unique:
  assumes "2 powi e \<le> x" "x < 2 powi (e + 1)"
  shows "binexp x = e"
proof -
  have "0 < x"
    by (rule less_le_trans [OF _ assms(1)]) simp
  then have "(2 :: rat) powi binexp x < 2 powi (e + 1)" "(2 :: rat) powi e < 2 powi (binexp x + 1)"
    using binexp_le binexp_gt assms by (meson le_less_trans less_le_trans)+
  then have "binexp x < e + 1" "e < binexp x + 1"
    by (simp_all only: powi_less)
  then show ?thesis
    by simp
qed

text \<open>A number with at most \<open>p\<close> bits is not changed.\<close>

lemma round_to_exact: "x / 2 powi (binexp x - p + 1) = of_int i \<Longrightarrow> round_to p x = x"
proof (cases "x = 0")
  case False
  assume i: "x / 2 powi (binexp x - p + 1) = of_int i"
  have "round_to p x = of_int i * 2 powi (binexp x - p + 1)"
    using False by (simp add: round_to_def Let_def i)
  also have "\<dots> = x"
    by (simp add: flip: i)
  finally show ?thesis .
qed (simp add: round_to_def)

lemma round_to_cert:
  assumes "2 powi e \<le> x" "x < 2 powi (e + 1)" "u = 2 powi (e - p + 1)" "\<bar>x / u - of_int k\<bar> < 1 / 2"
  shows "round_to p x = of_int k * u"
proof -
  have "round_even (x / u) = k"
    using assms(4) round_even_bounds [of "x / u"] by linarith
  moreover have "x \<noteq> 0"
    using assms(1) by (metis not_le zero_less_numeral zero_less_power_int)
  ultimately show ?thesis
    by (simp add: round_to_def Let_def binexp_unique [OF assms(1,2)] assms(3))
qed

lemma round_to_nat:
  assumes "k < 2 ^ 24"
  shows "float32 (of_nat k) = of_nat k"
proof (cases "k = 0")
  case False
  let ?e = "binexp (of_nat k)"
  have "of_nat k < (of_nat (2 ^ 24) :: rat)"
    using assms by (simp only: of_nat_less_iff)
  then have "(2 :: rat) powi ?e < 2 powi 24"
    using binexp_le [of "of_nat k"] False by simp
  from powi_less [OF this] have "?e \<le> 23"
    by simp
  then have "(2 :: rat) powi (?e - 24 + 1) = 1 / 2 ^ nat (23 - ?e)"
    by (simp add: power_int_def power_int_minus divide_simps flip: power_add nat_add_distrib)
  then show ?thesis
    by (intro round_to_exact [of _ _ "int k * 2 ^ nat (23 - ?e)"]) simp
qed (simp add: round_to_def)

lemma round_to_error:
  assumes "0 \<le> x"
  shows "\<bar>round_to p x - x\<bar> \<le> x * 2 powi (- p)"
proof (cases "x = 0")
  case False
  define u :: rat where "u = 2 powi (binexp x - p + 1)"
  have u: "0 < u"
    by (simp add: u_def)
  have "u / 2 = 2 powi binexp x * 2 powi (- p)"
    by (simp add: u_def power_int_add power_int_diff power_int_minus field_simps)
  also have "\<dots> \<le> x * 2 powi (- p)"
    using binexp_le [of x] assms False by (intro mult_right_mono) simp_all
  finally have h: "u / 2 \<le> x * 2 powi (- p)" .
  have "round_to p x = of_int (round_even (x / u)) * u"
    unfolding round_to_def Let_def u_def [symmetric] using False by simp
  then have "round_to p x - x = (of_int (round_even (x / u)) - x / u) * u"
    using u by (simp add: left_diff_distrib)
  then have "\<bar>round_to p x - x\<bar> = \<bar>of_int (round_even (x / u)) - x / u\<bar> * u"
    using u by (simp add: abs_mult)
  also have "\<dots> \<le> 1 / 2 * u"
    using round_even_bounds u by (intro mult_right_mono) simp_all
  finally show ?thesis
    using h by simp
qed (simp add: round_to_def)

lemma round_to_le: "0 \<le> x \<Longrightarrow> round_to p x \<le> x * (1 + 2 powi (- p))"
  and round_to_ge: "0 \<le> x \<Longrightarrow> x * (1 - 2 powi (- p)) \<le> round_to p x"
  using round_to_error [of x p] by (simp_all add: algebra_simps abs_le_iff)

lemma round_to_nonneg:
  assumes "0 \<le> x" "0 \<le> p"
  shows "0 \<le> round_to p x"
proof -
  have "(2 :: rat) powi (- p) \<le> 1"
    using assms(2) by (simp add: power_int_minus power_int_def field_simps)
  then have "0 \<le> x * (1 - 2 powi (- p))"
    using assms(1) by simp
  with round_to_ge [OF assms(1), of p] show ?thesis
    by linarith
qed

text \<open>Both precisions round within a relative error of \<open>2 powi -24\<close>.\<close>

definition eps :: rat where
  "eps = 1 / 2 ^ 24"

lemma eps_bounds [simp]: "0 < eps" "0 \<le> eps" "eps < 1" "eps \<le> 1"
  by (simp_all add: eps_def)

lemma powi_eps: "24 \<le> p \<Longrightarrow> (2 :: rat) powi (- p) \<le> eps"
proof -
  assume "24 \<le> p"
  then have "(2 :: rat) ^ 24 \<le> 2 ^ nat p"
    by (intro power_increasing) auto
  then show ?thesis
    using \<open>24 \<le> p\<close> by (simp add: eps_def power_int_minus power_int_def divide_simps)
qed

lemma round_to_within:
  assumes "0 \<le> x" "24 \<le> p"
  shows "round_to p x \<le> x * (1 + eps)" "x * (1 - eps) \<le> round_to p x" "0 \<le> round_to p x"
proof -
  have "x * 2 powi (- p) \<le> x * eps"
    using assms powi_eps by (intro mult_left_mono) auto
  then show "round_to p x \<le> x * (1 + eps)" "x * (1 - eps) \<le> round_to p x"
    using round_to_le [OF assms(1), of p] round_to_ge [OF assms(1), of p] by (simp_all only: distrib_left right_diff_distrib)
  show "0 \<le> round_to p x"
    using assms by (intro round_to_nonneg) auto
qed

text \<open>Rounding what is known up to a factor.\<close>

lemma round_to_upper: "0 \<le> x \<Longrightarrow> x \<le> b \<Longrightarrow> 24 \<le> p \<Longrightarrow> round_to p x \<le> b * (1 + eps)"
  by (rule order_trans [OF round_to_within(1) mult_right_mono]) auto

lemma round_to_lower: "0 \<le> b \<Longrightarrow> b \<le> x \<Longrightarrow> 24 \<le> p \<Longrightarrow> b * (1 - eps) \<le> round_to p x"
  by (rule order_trans [OF mult_right_mono round_to_within(2)]) auto

end
