(* ===== verification/Ketama.thy ===== *)
theory Ketama
  imports MD5 Float_Rounding "HOL-Library.Multiset"
begin

text \<open>
  The consistent hashing library of the memcached clients (\<open>ketama/libketama/ketama.c\<close>): reading the
  server definitions, building the continuum of points, attaching to it in shared memory, and
  looking up a key in it. Strings are lists of bytes without the final zero. A write behind an array is
  \<open>Overrun\<close>, a dereferenced null pointer \<open>NullPointer\<close>, a conversion to \<open>unsigned int\<close> out of range \<open>FloatRange\<close>;
  the texts put into \<open>k_error\<close> are not modelled.
\<close>

section \<open>Types\<close>

type_synonym cstring = "8 word list"

datatype kerr = Overrun | NullPointer | FloatRange

record mcs =
  point :: w32
  ip :: cstring

record serverinfo =
  addr :: cstring
  memory :: "64 word"

record continuum =
  numpoints :: int
  modtime :: int
  points :: "mcs list"

definition MC_SHMSIZE :: nat where
  "MC_SHMSIZE = 524288"

section \<open>Server definitions\<close>

text \<open>\<open>strtok\<close> with the delimiters tab and blank: the next token and what follows its delimiter.\<close>

definition delim :: "8 word \<Rightarrow> bool" where
  "delim c = (c = 9 \<or> c = 32)"

definition strtok :: "cstring \<Rightarrow> (cstring \<times> cstring) option" where
  "strtok s =
     (let s1 = dropWhile delim s in
      if s1 = [] then None else Some (takeWhile (\<lambda>c. \<not> delim c) s1, drop 1 (dropWhile (\<lambda>c. \<not> delim c) s1)))"

text \<open>\<open>strtol\<close> in base 10; \<open>None\<close> when it reads no digit or sets \<open>ERANGE\<close>.\<close>

definition isdigit :: "8 word \<Rightarrow> bool" where
  "isdigit c = (48 \<le> c \<and> c \<le> 57)"

definition isspace :: "8 word \<Rightarrow> bool" where
  "isspace c = (c = 32 \<or> 9 \<le> c \<and> c \<le> 13)"

definition digits_val :: "cstring \<Rightarrow> nat" where
  "digits_val ds = foldl (\<lambda>v c. v * 10 + unat (c - 48)) 0 ds"

definition strtol :: "cstring \<Rightarrow> int option" where
  "strtol s =
     (let s1 = dropWhile isspace s;
          neg = (s1 \<noteq> [] \<and> hd s1 = 45);
          s2 = (if s1 \<noteq> [] \<and> (hd s1 = 45 \<or> hd s1 = 43) then tl s1 else s1);
          ds = takeWhile isdigit s2;
          v = (if neg then - int (digits_val ds) else int (digits_val ds)) in
      if ds = [] \<or> v < - (2 ^ 63) \<or> v \<ge> 2 ^ 63 then None else Some v)"

definition read_server_line :: "cstring \<Rightarrow> kerr + serverinfo" where
  "read_server_line line =
     (case strtok line of
        None \<Rightarrow> Inl NullPointer
      | Some (tok, rest) \<Rightarrow>
          if length tok - 1 < 23
          then (if length tok \<ge> 22 then Inl Overrun
                else (case strtok rest of
                        None \<Rightarrow> Inr \<lparr>addr = tok, memory = 0\<rparr>
                      | Some (tok2, _) \<Rightarrow>
                          (case strtol (butlast tok2) of
                             None \<Rightarrow> Inr \<lparr>addr = tok, memory = 0\<rparr>
                           | Some v \<Rightarrow> Inr \<lparr>addr = tok, memory = of_int v\<rparr>)))
          else Inr \<lparr>addr = [], memory = 0\<rparr>)"

text \<open>\<open>fgets\<close> of at most \<open>n\<close> bytes: the line, the rest of the file, and whether the end was hit.\<close>

fun fgets :: "nat \<Rightarrow> cstring \<Rightarrow> cstring \<times> cstring \<times> bool" where
  "fgets 0 d = ([], d, False)"
| "fgets (Suc n) [] = ([], [], True)"
| "fgets (Suc n) (c # d) =
     (if c = 10 then ([c], d, False) else (case fgets n d of (l, r, eof) \<Rightarrow> (c # l, r, eof)))"

lemma fgets_split: "fgets n d = (l, r, eof) \<Longrightarrow> d = l @ r \<and> (eof \<longrightarrow> r = []) \<and> (0 < n \<and> \<not> eof \<longrightarrow> l \<noteq> [])"
  by (induction n d arbitrary: l rule: fgets.induct) (auto split: if_splits prod.splits)

lemma fgets_shorter: "(l, r, False) = fgets 126 d \<Longrightarrow> length r < length d"
  using fgets_split [of 126 d l r False] by auto

text \<open>
  The loop over the lines; \<open>None\<close> when a line defines no valid server. A string ends at its first zero
  byte, a comment begins with \<open>#\<close>.
\<close>

function readLoop :: "cstring \<Rightarrow> serverinfo list \<Rightarrow> 64 word \<Rightarrow> kerr + (serverinfo list \<times> 64 word) option" where
  "readLoop d slist memtotal =
     (case fgets 126 d of (l, rest, eof) \<Rightarrow>
        let sline = takeWhile (\<lambda>c. c \<noteq> 0) l in
        if length sline < 2 \<or> hd sline = 35
        then (if eof then Inr (Some (slist, memtotal)) else readLoop rest slist memtotal)
        else (case read_server_line sline of
                Inl e \<Rightarrow> Inl e
              | Inr server \<Rightarrow>
                  if memory server > 0 \<and> addr server \<noteq> []
                  then (if eof then Inr (Some (slist @ [server], memtotal + memory server))
                        else readLoop rest (slist @ [server]) (memtotal + memory server))
                  else Inr None))"
  by pat_completeness auto
termination
  by (relation "measure (\<lambda>(d, _, _). length d)") (auto intro: fgets_shorter)

declare readLoop.simps [simp del]

text \<open>
  The result of \<open>read_server_definitions\<close>: the list (\<open>None\<close> is a null pointer), \<open>*count\<close> and \<open>*memory\<close>.
  \<open>None\<close> for the file is a failed \<open>fopen\<close>.
\<close>

definition read_server_definitions :: "cstring option \<Rightarrow> kerr + serverinfo list option \<times> nat \<times> 64 word" where
  "read_server_definitions file =
     (case file of
        None \<Rightarrow> Inr (None, 0, 0)
      | Some d \<Rightarrow>
          (case readLoop d [] 0 of
             Inl e \<Rightarrow> Inl e
           | Inr None \<Rightarrow> Inr (None, 1, 0)
           | Inr (Some (slist, mem)) \<Rightarrow> Inr (if slist = [] then None else Some slist, length slist, mem)))"

section \<open>Hashing and lookup\<close>

text \<open>
  \<open>strlen\<close> is converted to the \<open>int\<close> that \<open>md5_append\<close> takes. On a fresh state nothing waits in the buffer, so the sum that
  may overflow there is not formed and there always is a digest.
\<close>

definition ketama_md5_digest :: "cstring \<Rightarrow> 8 word list" where
  "ketama_md5_digest inString =
     (case Option.bind (md5_append inString (sint (of_nat (length inString) :: w32)) md5_init) md5_finish of Some md5pword \<Rightarrow> md5pword | None \<Rightarrow> [])"

text \<open>Four bytes of a digest as a number.\<close>

definition digest_point :: "8 word list \<Rightarrow> nat \<Rightarrow> w32" where
  "digest_point digest h =
     push_bit 24 (ucast (digest ! (3 + h * 4))) OR push_bit 16 (ucast (digest ! (2 + h * 4)))
       OR push_bit 8 (ucast (digest ! (1 + h * 4))) OR ucast (digest ! (h * 4))"

definition ketama_hashi :: "cstring \<Rightarrow> w32" where
  "ketama_hashi inString = digest_point (ketama_md5_digest inString) 0"

text \<open>The loop of \<open>ketama_get_server\<close>: the index of the point, \<open>Overrun\<close> for a read outside the array.\<close>

function searchLoop :: "w32 \<Rightarrow> int \<Rightarrow> w32 list \<Rightarrow> int \<Rightarrow> int \<Rightarrow> kerr + nat" where
  "searchLoop h n ps lowp highp =
     (let midp = (lowp + highp) div 2 in
      if midp = n then Inr 0
      else if midp < 0 \<or> midp \<ge> int (length ps) then Inl Overrun
      else (let midval = ps ! nat midp; midval1 = (if midp = 0 then 0 else ps ! nat (midp - 1)) in
            if h \<le> midval \<and> h > midval1 then Inr (nat midp)
            else (let lowp' = (if midval < h then midp + 1 else lowp); highp' = (if midval < h then highp else midp - 1) in
                  if lowp' > highp' then Inr 0 else searchLoop h n ps lowp' highp')))"
  by pat_completeness auto
termination
  by (relation "measure (\<lambda>(_, _, _, l, h). nat (h - l + 1))") (auto split: if_splits)

declare searchLoop.simps [simp del]

definition ketama_get_server :: "cstring \<Rightarrow> continuum \<Rightarrow> kerr + mcs" where
  "ketama_get_server key cont =
     (case searchLoop (ketama_hashi key) (numpoints cont) (map point (points cont)) 0 (numpoints cont) of
        Inl e \<Rightarrow> Inl e
      | Inr i \<Rightarrow> if i < length (points cont) then Inr (points cont ! i) else Inl Overrun)"

section \<open>The continuum\<close>

text \<open>\<open>%d\<close> for a number below \<open>2 ^ 31\<close>.\<close>

fun dec :: "nat \<Rightarrow> cstring" where
  "dec n = (if n < 10 then [of_nat (48 + n)] else dec (n div 10) @ [of_nat (48 + n mod 10)])"

declare dec.simps [simp del]

text \<open>
  \<open>floorf( pct * 40.0 * (float)numservers )\<close>: the first quotient and both conversions are \<open>float\<close>, the
  products are \<open>double\<close>, since \<open>40.0\<close> is, and the argument of \<open>floorf\<close> is converted to \<open>float\<close> again.
\<close>

definition ks_exact :: "rat \<Rightarrow> rat \<Rightarrow> nat \<Rightarrow> rat" where
  "ks_exact mem memtotal numservers =
     (let pct = float32 (float32 mem / float32 memtotal) in
      float32 (float64 (float64 (pct * 40) * float32 (of_nat numservers))))"

definition hashes_of :: "64 word \<Rightarrow> 64 word \<Rightarrow> nat \<Rightarrow> kerr + nat" where
  "hashes_of mem memtotal numservers =
     (if memtotal = 0 then Inl FloatRange
      else (let ks = \<lfloor>ks_exact (of_nat (unat mem)) (of_nat (unat memtotal)) numservers\<rfloor> in
            if ks < 2 ^ 32 then Inr (nat ks) else Inl FloatRange))"

text \<open>\<open>sprintf( ss, "%s-%d", addr, k )\<close> and the four points of its digest.\<close>

definition point_name :: "cstring \<Rightarrow> nat \<Rightarrow> cstring" where
  "point_name a k = a @ [45] @ dec k"

definition hash_points :: "cstring \<Rightarrow> nat \<Rightarrow> mcs list" where
  "hash_points a k = (let digest = ketama_md5_digest (point_name a k) in
     map (\<lambda>h. \<lparr>point = digest_point digest h, ip = a\<rparr>) [0..<4])"

text \<open>The points of one server; \<open>ss\<close> has room for 29 characters and the final zero.\<close>

definition server_points :: "64 word \<Rightarrow> nat \<Rightarrow> serverinfo \<Rightarrow> kerr + mcs list" where
  "server_points memtotal numservers s =
     (case hashes_of (memory s) memtotal numservers of
        Inl e \<Rightarrow> Inl e
      | Inr ks \<Rightarrow>
          if list_all (\<lambda>k. length (point_name (addr s) k) < 30) [0..<ks]
          then Inr (concat (map (hash_points (addr s)) [0..<ks])) else Inl Overrun)"

primrec all_points :: "64 word \<Rightarrow> nat \<Rightarrow> serverinfo list \<Rightarrow> kerr + mcs list" where
  "all_points memtotal numservers [] = Inr []"
| "all_points memtotal numservers (s # slist) =
     (case server_points memtotal numservers s of
        Inl e \<Rightarrow> Inl e
      | Inr ps \<Rightarrow> (case all_points memtotal numservers slist of Inl e \<Rightarrow> Inl e | Inr qs \<Rightarrow> Inr (ps @ qs)))"

definition ketama_compare :: "mcs \<Rightarrow> mcs \<Rightarrow> int" where
  "ketama_compare a b = (if point a < point b then - 1 else if point a > point b then 1 else 0)"

text \<open>
  \<open>ketama_create_continuum\<close>: \<open>None\<close> is the return value 0. \<open>qsort\<close> is the sorting function of the C library, which takes the comparison,
  \<open>shmat_ok\<close> says whether the segment could be attached, and \<open>mtime\<close> is the modification time of the file. In
  the segment the array follows one \<open>int\<close> and \<open>sizeof( void* )\<close> more, and an \<open>mcs\<close> takes 28 bytes.
\<close>

definition ketama_create_continuum :: "((mcs \<Rightarrow> mcs \<Rightarrow> int) \<Rightarrow> mcs list \<Rightarrow> mcs list) \<Rightarrow> bool \<Rightarrow> int \<Rightarrow> cstring option \<Rightarrow> kerr + continuum option" where
  "ketama_create_continuum qsort shmat_ok mtime file =
     (case read_server_definitions file of
        Inl e \<Rightarrow> Inl e
      | Inr (slist, numservers, mem) \<Rightarrow>
          if numservers < 1 then Inr None
          else (case slist of
                  None \<Rightarrow> Inr None
                | Some sl \<Rightarrow>
                    (case all_points mem numservers sl of
                       Inl e \<Rightarrow> Inl e
                     | Inr ps \<Rightarrow>
                         if length ps > numservers * 160 then Inl Overrun
                         else if \<not> shmat_ok then Inr None
                         else if 4 * (1 + 8) + 28 * length ps > MC_SHMSIZE then Inl Overrun
                         else Inr (Some \<lparr>numpoints = int (length ps), modtime = mtime, points = qsort ketama_compare ps\<rparr>))))"

text \<open>
  The loop of \<open>ketama_roll\<close>, for the time \<open>mtime0\<close> read before it. \<open>seg\<close> is the shared segment, \<open>loaded\<close> whether
  the caller's continuum already has a time, and each element of the list is what one turn sees if it
  builds the continuum: the file, its time, and whether the segment can be attached. \<open>None\<close> as the result
  is a failure, and running out of turns is \<open>Inr None\<close>.
\<close>

fun rollLoop :: "((mcs \<Rightarrow> mcs \<Rightarrow> int) \<Rightarrow> mcs list \<Rightarrow> mcs list) \<Rightarrow> int \<Rightarrow> bool \<Rightarrow> continuum option \<Rightarrow> (cstring option \<times> int \<times> bool) list
    \<Rightarrow> kerr + continuum option option" where
  "rollLoop qsort mtime0 loaded seg [] = Inr None"
| "rollLoop qsort mtime0 loaded seg ((file, mtime, shmat_ok) # turns) =
     (case (if seg = None \<or> loaded
            then ketama_create_continuum qsort shmat_ok mtime file else Inr seg) of
        Inl e \<Rightarrow> Inl e
      | Inr None \<Rightarrow> Inr (Some None)
      | Inr (Some c) \<Rightarrow>
          if modtime c = mtime0 then Inr (Some (Some c)) else rollLoop qsort mtime0 True (Some c) turns)"

definition ketama_roll :: "((mcs \<Rightarrow> mcs \<Rightarrow> int) \<Rightarrow> mcs list \<Rightarrow> mcs list) \<Rightarrow> bool \<Rightarrow> int \<Rightarrow> continuum option \<Rightarrow> (cstring option \<times> int \<times> bool) list
    \<Rightarrow> kerr + continuum option option" where
  "ketama_roll qsort ftok_ok mtime0 seg turns =
     (if \<not> ftok_ok then Inr (Some None) else rollLoop qsort mtime0 False seg turns)"

end
