(* ===== verification/Ketama_Proofs.thy ===== *)
theory Ketama_Proofs
  imports Ketama
begin

text \<open>
  The lookup of ketama is a binary search for the first point not below the hash, the continuum fits
  its arrays for up to 117 servers, and the server file is read back as it was written.
\<close>

section \<open>The search\<close>

text \<open>The reference: how many points lie below the hash.\<close>

definition below :: "w32 \<Rightarrow> w32 list \<Rightarrow> nat" where
  "below h ps = length (takeWhile (\<lambda>p. p < h) ps)"

lemma below_le: "below h ps \<le> length ps"
  by (simp add: below_def length_takeWhile_le)

lemma below_iff:
  assumes "sorted ps" "i < length ps"
  shows "i < below h ps \<longleftrightarrow> ps ! i < h"
proof
  assume "i < below h ps"
  then show "ps ! i < h"
    unfolding below_def by (metis nth_mem set_takeWhileD takeWhile_nth)
next
  assume i: "ps ! i < h"
  show "i < below h ps"
  proof (rule ccontr)
    assume "\<not> i < below h ps"
    then have "below h ps < length ps" "below h ps \<le> i"
      using assms(2) by auto
    then have "\<not> ps ! below h ps < h" "ps ! below h ps \<le> ps ! i"
      using nth_length_takeWhile [of "\<lambda>p. p < h" ps] sorted_nth_mono [OF assms(1)] assms(2)
      by (auto simp: below_def)
    with i show False
      by simp
  qed
qed

lemma searchLoop_correct:
  assumes "sorted ps" "0 \<le> lowp" "lowp \<le> int (below h ps)" "int (below h ps) \<le> highp" "highp \<le> int (length ps)"
  shows "searchLoop h (int (length ps)) ps lowp highp = Inr (if below h ps = length ps then 0 else below h ps)"
  using assms(2-5)
proof (induction "nat (highp - lowp + 1)" arbitrary: lowp highp rule: less_induct)
  case less
  let ?a = "below h ps" and ?n = "int (length ps)"
  define m where "m = nat ((lowp + highp) div 2)"
  have m: "(lowp + highp) div 2 = int m" "lowp \<le> int m" "int m \<le> highp"
    using less.prems by (simp_all add: m_def)
  have nm: "nat (int k - 1) = k - 1" for k
    by simp
  note step = searchLoop.simps [of h ?n ps lowp highp, unfolded Let_def m(1)]
  show ?case
  proof (cases "m = length ps")
    case True
    then have "?a = length ps"
      using m less.prems by linarith
    then show ?thesis
      using True by (simp add: step)
  next
    case False
    then have ml: "m < length ps"
      using m less.prems by linarith
    note bm = below_iff [OF assms(1) ml, of h]
    consider (right) "ps ! m < h" | (hit) "m = ?a" "h > (if m = 0 then 0 else ps ! (m - 1))"
      | (zero) "?a = 0" "m = 0" "h = 0" | (left) "?a < m" "h \<le> ps ! (m - 1)"
    proof (cases "ps ! m < h \<or> m = 0")
      case True
      then show ?thesis
        using that(1-3) bm by (cases "h = 0") (auto simp: word_neq_0_conv)
    next
      case False
      have b1: "m - 1 < ?a \<longleftrightarrow> ps ! (m - 1) < h"
        using ml by (intro below_iff [OF assms(1)]) simp
      show ?thesis
      proof (cases "ps ! (m - 1) < h")
        case True
        then have "m = ?a"
          using False b1 bm by linarith
        then show ?thesis
          using True False by (intro that(2)) simp_all
      next
        case nl: False
        then have "?a < m"
          using False b1 by linarith
        then show ?thesis
          using nl by (intro that(4)) simp_all
      qed
    qed
    then show ?thesis
    proof cases
      case right
      then have "int m + 1 \<le> int ?a"
        using bm by simp
      then show ?thesis
        using right less.hyps [of highp "int m + 1"] less.prems m ml by (auto simp: step)
    next
      case hit
      then show ?thesis
        using ml bm by (auto simp: step nm)
    next
      case zero
      then show ?thesis
        unfolding step using ml less.prems(1) by simp
    next
      case left
      then have "\<not> ps ! m < h" "m \<noteq> 0"
        using bm by auto
      then show ?thesis
        using left ml less.hyps [of "int m - 1" lowp] less.prems m by (auto simp: step nm)
    qed
  qed
qed

text \<open>
  C19. \<open>ketama_get_server\<close> finds the first point on the circle that is not below the hash of the key, or
  the first point of all when there is none: the binary search ends, never reads outside the array, and
  gives the same point as a scan from the left, for every sorted non-empty continuum, equal points and
  the hash 0 included.
\<close>

theorem ketama_search:
  assumes "sorted (map point (points cont))" "numpoints cont = int (length (points cont))" "points cont \<noteq> []"
  shows "ketama_get_server key cont =
    Inr (case find (\<lambda>m. ketama_hashi key \<le> point m) (points cont) of Some m \<Rightarrow> m | None \<Rightarrow> hd (points cont))"
proof -
  let ?h = "ketama_hashi key" and ?ps = "map point (points cont)"
  have s: "searchLoop ?h (numpoints cont) ?ps 0 (numpoints cont)
      = Inr (if below ?h ?ps = length ?ps then 0 else below ?h ?ps)"
    using searchLoop_correct [OF assms(1), of 0 ?h "numpoints cont"] below_le [of ?h ?ps] assms(2) by simp
  have b: "below ?h ?ps = length (takeWhile (\<lambda>m. point m < ?h) (points cont))"
    by (simp add: below_def takeWhile_map comp_def)
  have f: "find (\<lambda>m. ?h \<le> point m) xs = (let i = length (takeWhile (\<lambda>m. point m < ?h) xs) in
      if i = length xs then None else Some (xs ! i))" for xs
    by (induction xs) (auto simp: Let_def not_le)
  show ?thesis
    using assms(3) length_takeWhile_le [of "\<lambda>m. point m < ?h" "points cont"]
    by (auto simp: ketama_get_server_def s b f hd_conv_nth Let_def)
qed

theorem ketama_search_witness:
  "ketama_get_server [107] \<lparr>numpoints = 2, modtime = 0, points = [\<lparr>point = 5, ip = [97]\<rparr>, \<lparr>point = 9, ip = [98]\<rparr>]\<rparr> =
     Inr (case find (\<lambda>m. ketama_hashi [107] \<le> point m) [\<lparr>point = 5, ip = [97]\<rparr>, \<lparr>point = 9, ip = [98]\<rparr>] of
            Some m \<Rightarrow> m | None \<Rightarrow> \<lparr>point = 5, ip = [97]\<rparr>)"
  using ketama_search [of "\<lparr>numpoints = 2, modtime = 0, points = [\<lparr>point = 5, ip = [97]\<rparr>, \<lparr>point = 9, ip = [98]\<rparr>]\<rparr>" "[107]"]
  by simp

section \<open>Shares of the continuum\<close>

text \<open>The computed share lies within six roundings up or down, and one of the total, of the exact one.\<close>

lemma ks_bounds:
  assumes "0 \<le> mem" "0 < memtotal"
  shows "0 \<le> ks_exact mem memtotal n"
    "ks_exact mem memtotal n \<le> 40 * of_nat n * mem / memtotal * ((1 + eps) ^ 6 / (1 - eps))"
    "40 * of_nat n * mem / memtotal * ((1 - eps) ^ 6 / (1 + eps)) \<le> ks_exact mem memtotal n"
proof -
  define a b c where "a = float32 mem" and "b = float32 memtotal" and "c = float32 (of_nat n)"
  define d where "d = float64 (float32 (a / b) * 40)"
  define q q' where "q = mem * (1 + eps) / (memtotal * (1 - eps))" and "q' = mem * (1 - eps) / (memtotal * (1 + eps))"
  have a: "0 \<le> a" "a \<le> mem * (1 + eps)" "mem * (1 - eps) \<le> a"
    and b: "memtotal * (1 - eps) \<le> b" "b \<le> memtotal * (1 + eps)"
    and c: "0 \<le> c" "c \<le> of_nat n * (1 + eps)" "of_nat n * (1 - eps) \<le> c"
    unfolding a_def b_def c_def using assms by (intro round_to_within; simp)+
  have b0: "0 < memtotal * (1 - eps)" and m0: "0 \<le> mem * (1 - eps)"
    using assms by simp_all
  have b1: "0 < b"
    using b(1) b0 by linarith
  have "a / b \<le> q"
    unfolding q_def using a(1,2) b(1) b0 assms by (intro frac_le) simp_all
  moreover have "q' \<le> a / b"
    unfolding q'_def using a(1,3) b(2) b1 by (intro frac_le) simp_all
  ultimately have q: "0 \<le> a / b" "a / b \<le> q" "q' \<le> a / b" "0 \<le> q'"
    using a(1) b1 assms by (simp_all add: q'_def)
  have pct: "0 \<le> float32 (a / b)" "float32 (a / b) \<le> q * (1 + eps)" "q' * (1 - eps) \<le> float32 (a / b)"
    using q by (auto intro: round_to_within round_to_upper round_to_lower)
  have p0: "0 \<le> q' * (1 - eps)"
    using q by simp
  have d: "0 \<le> d" "d \<le> q * (1 + eps) * 40 * (1 + eps)" "q' * (1 - eps) * 40 * (1 - eps) \<le> d"
    unfolding d_def using pct p0 by (auto intro!: round_to_within round_to_upper round_to_lower mult_right_mono)
  have d0: "0 \<le> q' * (1 - eps) * 40 * (1 - eps)" "0 \<le> of_nat n * (1 - eps)"
    using p0 by simp_all
  let ?hi = "q * (1 + eps) * 40 * (1 + eps) * (of_nat n * (1 + eps))"
  let ?lo = "q' * (1 - eps) * 40 * (1 - eps) * (of_nat n * (1 - eps))"
  have lo0: "0 \<le> ?lo"
    using d0 by (rule mult_nonneg_nonneg)
  have m: "0 \<le> d * c" "d * c \<le> ?hi" "?lo \<le> d * c"
    using mult_nonneg_nonneg [OF d(1) c(1)] mult_mono [OF d(2) c(2) order_trans [OF d(1,2)] c(1)]
      mult_mono [OF d(3) c(3) d(1) d0(2)] by blast+
  have k: "ks_exact mem memtotal n = float32 (float64 (d * c))"
    by (simp add: ks_exact_def Let_def a_def b_def c_def d_def)
  have mm: "0 \<le> float64 (d * c)" "float64 (d * c) \<le> ?hi * (1 + eps)" "?lo * (1 - eps) \<le> float64 (d * c)"
    using round_to_within(3) [OF m(1), of 53] round_to_upper [OF m(1,2), of 53] round_to_lower [OF lo0 m(3), of 53] by simp_all
  show "0 \<le> ks_exact mem memtotal n"
    unfolding k using round_to_within(3) [OF mm(1), of 24] by simp
  have "ks_exact mem memtotal n \<le> ?hi * (1 + eps) * (1 + eps)" "?lo * (1 - eps) * (1 - eps) \<le> ks_exact mem memtotal n"
    unfolding k using round_to_upper [OF mm(1,2), of 24] round_to_lower [OF _ mm(3), of 24] lo0 by simp_all
  then show "ks_exact mem memtotal n \<le> 40 * of_nat n * mem / memtotal * ((1 + eps) ^ 6 / (1 - eps))"
    "40 * of_nat n * mem / memtotal * ((1 - eps) ^ 6 / (1 + eps)) \<le> ks_exact mem memtotal n"
    by (simp_all add: q_def q'_def eval_nat_numeral mult_ac)
qed

lemma eps_factors: "(1 + eps) ^ 6 / (1 - eps) \<le> 1 + 1 / 2 ^ 21" "1 - 1 / 2 ^ 21 \<le> (1 - eps) ^ 6 / (1 + eps)"
  by (simp_all add: eps_def divide_simps)

text \<open>The number of hashes of a server that has \<open>mem\<close> of \<open>memtotal\<close>, before the conversion.\<close>

definition shares :: "nat \<Rightarrow> nat \<Rightarrow> nat \<Rightarrow> nat" where
  "shares mem memtotal n = nat \<lfloor>ks_exact (of_nat mem) (of_nat memtotal) n\<rfloor>"

lemma ks_shares:
  assumes "0 < memtotal"
  shows "ks_exact (of_nat mem) (of_nat memtotal) n \<le> 40 * of_nat n * of_nat mem / of_nat memtotal * (1 + 1 / 2 ^ 21)"
    "40 * of_nat n * of_nat mem / of_nat memtotal * (1 - 1 / 2 ^ 21) \<le> ks_exact (of_nat mem) (of_nat memtotal) n"
    "of_nat (shares mem memtotal n) \<le> ks_exact (of_nat mem) (of_nat memtotal) n"
proof -
  let ?k = "ks_exact (of_nat mem) (of_nat memtotal) n" and ?x = "40 * of_nat n * of_nat mem / of_nat memtotal :: rat"
  have b: "0 \<le> ?k" "?k \<le> ?x * ((1 + eps) ^ 6 / (1 - eps))" "?x * ((1 - eps) ^ 6 / (1 + eps)) \<le> ?k"
    using ks_bounds [of "of_nat mem" "of_nat memtotal" n] assms by simp_all
  have x: "0 \<le> ?x"
    by simp
  show "?k \<le> ?x * (1 + 1 / 2 ^ 21)"
    by (rule order_trans [OF b(2) mult_left_mono [OF eps_factors(1) x]])
  show "?x * (1 - 1 / 2 ^ 21) \<le> ?k"
    by (rule order_trans [OF mult_left_mono [OF eps_factors(2) x] b(3)])
  show "of_nat (shares mem memtotal n) \<le> ?k"
    using b(1) by (simp add: shares_def of_nat_floor)
qed

text \<open>For fewer than \<open>2 ^ 15\<close> servers the rounding errors do not add up to one hash.\<close>

lemma shares_total:
  assumes "0 < memtotal" "n < 2 ^ 15" "sum_list ms \<le> memtotal"
  shows "sum_list (map (\<lambda>m. shares m memtotal n) ms) \<le> 40 * n"
proof -
  define c :: rat where "c = 40 * of_nat n / of_nat memtotal * (1 + 1 / 2 ^ 21)"
  have c: "0 \<le> c"
    by (simp add: c_def)
  have "of_nat (sum_list (map (\<lambda>m. shares m memtotal n) ms)) \<le> of_nat (sum_list ms) * c"
  proof (induction ms)
    case (Cons m ms)
    have "of_nat (shares m memtotal n) \<le> of_nat m * c"
      using ks_shares(1,3) [OF assms(1), of m n] by (simp add: c_def mult_ac)
    with Cons show ?case
      by (simp add: distrib_right)
  qed simp
  also have "\<dots> \<le> of_nat memtotal * c"
    using assms(3) c by (intro mult_right_mono) simp_all
  also have "\<dots> = 40 * of_nat n + 40 * of_nat n / 2 ^ 21"
    using assms(1) by (simp add: c_def field_simps)
  also have "\<dots> < 40 * of_nat n + 1"
    using assms(2) by simp
  finally have "of_nat (sum_list (map (\<lambda>m. shares m memtotal n) ms)) < (of_nat (40 * n + 1) :: rat)"
    by simp
  then have "sum_list (map (\<lambda>m. shares m memtotal n) ms) < 40 * n + 1"
    by (simp only: of_nat_less_iff)
  then show ?thesis
    by simp
qed

section \<open>Building the continuum\<close>

lemma compare_sorted: "sorted_wrt (\<lambda>a b. ketama_compare a b \<le> 0) ps \<longleftrightarrow> sorted (map point ps)"
proof -
  have "ketama_compare a b \<le> 0 \<longleftrightarrow> point a \<le> point b" for a b by (auto simp: ketama_compare_def)
  then show ?thesis by (simp add: sorted_map)
qed

text \<open>A string whose length is an \<open>int\<close> is hashed whole.\<close>

lemma ketama_md5_digest_eq:
  assumes "length inString < 2 ^ 31 - 63"
  shows "ketama_md5_digest inString = md5_spec inString"
proof -
  have "sint (of_nat (length inString) :: w32) = int (length inString)" using assms by (intro sint_of_nat_small) simp
  then show ?thesis
    using md5_append_absorb [OF assms, of md5_init] md5_finish_repr [OF md5_repr_absorb [OF md5_repr_init]]
    by (simp add: ketama_md5_digest_def)
qed

definition server_ok :: "serverinfo \<Rightarrow> bool" where
  "server_ok s \<longleftrightarrow> 0 < memory s \<and> addr s \<noteq> [] \<and> length (addr s) < 22"

lemma read_server_line_ok:
  "read_server_line line = Inr s \<Longrightarrow> 0 < memory s \<Longrightarrow> addr s \<noteq> [] \<Longrightarrow> server_ok s"
  by (auto simp: read_server_line_def server_ok_def split: option.splits prod.splits if_splits)

lemma readLoop_ok:
  assumes "readLoop d slist mem = Inr (Some (slist', mem'))" "list_all server_ok slist" "mem = sum_list (map memory slist)"
  shows "list_all server_ok slist' \<and> mem' = sum_list (map memory slist')"
  using assms
proof (induction d slist mem rule: readLoop.induct)
  case (1 d slist mem)
  obtain l rest eof where f: "fgets 126 d = (l, rest, eof)"
    by (metis prod_cases3)
  define sline where "sline = takeWhile (\<lambda>c. c \<noteq> 0) l"
  have step: "readLoop d slist mem = (if length sline < 2 \<or> hd sline = 35
      then (if eof then Inr (Some (slist, mem)) else readLoop rest slist mem)
      else (case read_server_line sline of
              Inl e \<Rightarrow> Inl e
            | Inr server \<Rightarrow>
                if memory server > 0 \<and> addr server \<noteq> []
                then (if eof then Inr (Some (slist @ [server], mem + memory server))
                      else readLoop rest (slist @ [server]) (mem + memory server))
                else Inr None))"
    by (subst readLoop.simps) (simp add: f sline_def Let_def)
  show ?case
  proof (cases "length sline < 2 \<or> hd sline = 35")
    case True
    then show ?thesis
      using 1 step f by (auto simp: sline_def split: if_splits)
  next
    case False
    then obtain server where server: "read_server_line sline = Inr server" "memory server > 0" "addr server \<noteq> []"
      using 1 step by (auto split: sum.splits if_splits)
    then have ok: "list_all server_ok (slist @ [server])"
      using read_server_line_ok 1(4) by auto
    show ?thesis
    proof (cases eof)
      case True
      then show ?thesis
        using 1 ok step server False by auto
    next
      case ne: False
      then have "readLoop rest (slist @ [server]) (mem + memory server) = Inr (Some (slist', mem'))"
        using 1(3) step server False by auto
      then show ?thesis
        using 1(2) [of _ _ rest eof sline server] f False server ne ok 1(5) by (auto simp: sline_def)
    qed
  qed
qed

lemma read_server_definitions_ok:
  assumes "read_server_definitions file = Inr (Some slist, n, mem)"
  shows "n = length slist" "slist \<noteq> []" "list_all server_ok slist" "mem = sum_list (map memory slist)"
  using assms readLoop_ok [of _ "[]" 0 slist mem]
  by (auto simp: read_server_definitions_def split: option.splits sum.splits prod.splits if_splits)

lemma unat_sum_list:
  "sum_list (map unat ws) < 2 ^ 64 \<Longrightarrow> unat (sum_list (ws :: 64 word list)) = sum_list (map unat ws)"
proof (induction ws)
  case (Cons w ws)
  then have "unat (sum_list ws) = sum_list (map unat ws)"
    by simp
  with Cons.prems show ?case
    by (simp add: unat_word_ariths)
qed simp

lemma length_dec: "k < 10 ^ m \<Longrightarrow> 0 < m \<Longrightarrow> length (dec k) \<le> m"
proof (induction m arbitrary: k)
  case (Suc m)
  show ?case
  proof (cases "k < 10")
    case False
    then have "k div 10 < 10 ^ m" "0 < m"
      using Suc.prems by (auto simp: less_mult_imp_div_less mult.commute intro!: Nat.gr0I)
    then show ?thesis
      using Suc.IH [of "k div 10"] False by (subst dec.simps) simp
  qed (subst dec.simps, simp)
qed simp

lemma length_hash_points [simp]: "length (hash_points a k) = 4"
  by (simp add: hash_points_def Let_def)

lemma ip_hash_points: "m \<in> set (hash_points a k) \<Longrightarrow> ip m = a"
  by (auto simp: hash_points_def Let_def)

text \<open>The points of one server when they fit.\<close>

definition points_of :: "64 word \<Rightarrow> nat \<Rightarrow> serverinfo \<Rightarrow> mcs list" where
  "points_of memtotal n s = concat (map (hash_points (addr s)) [0..<shares (unat (memory s)) (unat memtotal) n])"

lemma length_points_of: "length (points_of memtotal n s) = 4 * shares (unat (memory s)) (unat memtotal) n"
  by (simp add: points_of_def length_concat comp_def sum_list_triv)

lemma hashes_of_shares:
  assumes "0 < memtotal" "shares (unat mem) (unat memtotal) n < 2 ^ 32"
  shows "hashes_of mem memtotal n = Inr (shares (unat mem) (unat memtotal) n)"
proof -
  let ?f = "\<lfloor>ks_exact (of_nat (unat mem)) (of_nat (unat memtotal)) n\<rfloor>"
  have k: "nat ?f = shares (unat mem) (unat memtotal) n"
    by (simp add: shares_def)
  then have "?f \<le> int (shares (unat mem) (unat memtotal) n)"
    by linarith
  also have "\<dots> < 2 ^ 32"
    using assms(2) by simp
  finally show ?thesis
    using assms(1) k by (simp add: hashes_of_def Let_def word_greater_zero_iff)
qed

lemma server_points_ok:
  assumes "length (addr s) < 22" "0 < memtotal" "shares (unat (memory s)) (unat memtotal) n < 10 ^ 4"
  shows "server_points memtotal n s = Inr (points_of memtotal n s)"
proof -
  let ?k = "shares (unat (memory s)) (unat memtotal) n"
  have h: "hashes_of (memory s) memtotal n = Inr ?k"
    using assms(2,3) by (intro hashes_of_shares) simp_all
  have "length (point_name (addr s) j) < 30" if "j < ?k" for j
    using that assms length_dec [of j 4] by (simp add: point_name_def)
  then show ?thesis
    by (simp add: server_points_def h points_of_def list_all_iff)
qed

lemma all_points_ok:
  assumes "list_all (\<lambda>s. server_points memtotal n s = Inr (points_of memtotal n s)) slist"
  shows "all_points memtotal n slist = Inr (concat (map (points_of memtotal n) slist))"
  using assms by (induction slist) auto

lemma continuum_built:
  assumes read: "read_server_definitions file = Inr (Some slist, n, mem)" and n: "n \<le> 117"
    and sum: "sum_list (map (unat \<circ> memory) slist) < 2 ^ 64"
    and qsort: "\<And>xs. mset (qsort ketama_compare xs) = mset xs"
      "\<And>xs. sorted_wrt (\<lambda>a b. ketama_compare a b \<le> 0) (qsort ketama_compare xs)"
  shows "\<exists>c. ketama_create_continuum qsort True t file = Inr (Some c) \<and> modtime c = t \<and>
    numpoints c = int (length (points c)) \<and> length (points c) \<le> 160 * n \<and> sorted (map point (points c)) \<and>
    ip ` set (points c) \<subseteq> addr ` set slist"
proof -
  note r = read_server_definitions_ok [OF read]
  let ?ps = "concat (map (points_of mem n) slist)"
  have n1: "1 \<le> n"
    using r(1,2) by (simp add: Suc_leI)
  have u: "unat mem = sum_list (map (unat \<circ> memory) slist)"
    using unat_sum_list [of "map memory slist"] sum r(4) by (simp add: comp_def)
  have part: "unat (memory s) \<le> unat mem" if "s \<in> set slist" for s
    unfolding u using member_le_sum_list [of "unat (memory s)" "map (unat \<circ> memory) slist"] that by force
  obtain s0 where "s0 \<in> set slist"
    using r(2) by (cases slist) auto
  then have m0: "0 < unat mem"
    using part [of s0] r(3) by (auto simp: list_all_iff server_ok_def word_less_nat_alt)
  have "shares (unat (memory s)) (unat mem) n < 10 ^ 4" if "s \<in> set slist" for s
    using shares_total [OF m0, of n "[unat (memory s)]"] part [OF that] n by simp
  then have ps: "all_points mem n slist = Inr ?ps"
    using r(3) n m0 by (intro all_points_ok) (auto simp: list_all_iff server_ok_def word_less_nat_alt intro!: server_points_ok)
  have "length ?ps = 4 * sum_list (map (\<lambda>m. shares m (unat mem) n) (map (unat \<circ> memory) slist))"
    by (simp add: length_concat comp_def length_points_of sum_list_const_mult)
  also have "\<dots> \<le> 160 * n"
    using shares_total [OF m0, of n "map (unat \<circ> memory) slist"] u n by simp
  finally have l: "length ?ps \<le> 160 * n" .
  have q: "length (qsort ketama_compare ?ps) = length ?ps" "set (qsort ketama_compare ?ps) = set ?ps"
    using qsort(1) [of ?ps] by (metis size_mset, metis set_mset_mset)
  have "ketama_create_continuum qsort True t file
      = Inr (Some \<lparr>numpoints = int (length ?ps), modtime = t, points = qsort ketama_compare ?ps\<rparr>)"
    using l n n1 by (simp add: ketama_create_continuum_def read ps MC_SHMSIZE_def)
  moreover have "ip ` set ?ps \<subseteq> addr ` set slist"
    by (auto simp: points_of_def dest!: ip_hash_points)
  ultimately show ?thesis
    using l q compare_sorted qsort(2) [of ?ps] by simp
qed

text \<open>
  C16. The continuum fits: for up to 117 servers, of whatever memory, as long as their sum does not wrap
  around, \<open>ketama_create_continuum\<close> writes neither behind the array of 160 points per server, nor behind
  the buffer for the name of a point, nor behind the 512 KB of shared memory, although the number of
  points is computed in floating point. The continuum it builds has the promised length, is sorted, and
  every point leads to one of the servers. \<open>qsort\<close> may be any
  function that sorts by \<open>ketama_compare\<close>.
\<close>

theorem ketama_continuum_fits:
  assumes read: "read_server_definitions file = Inr (Some slist, n, mem)" and n: "n \<le> 117"
    and sum: "sum_list (map (unat \<circ> memory) slist) < 2 ^ 64"
    and qsort: "\<And>xs. mset (qsort ketama_compare xs) = mset xs"
      "\<And>xs. sorted_wrt (\<lambda>a b. ketama_compare a b \<le> 0) (qsort ketama_compare xs)"
  shows "\<exists>c. ketama_create_continuum qsort True t file = Inr (Some c) \<and> modtime c = t \<and>
    numpoints c = int (length (points c)) \<and> length (points c) \<le> 160 * n \<and> sorted (map point (points c)) \<and>
    ip ` set (points c) \<subseteq> addr ` set slist"
  by (rule continuum_built [OF read n sum]) (rule qsort)+

section \<open>Equal servers\<close>

lemma shares_equal:
  assumes "0 < m" "0 < n"
  shows "shares m (m * n) n \<in> {39, 40}"
proof -
  let ?k = "ks_exact (of_nat m) (of_nat (m * n)) n"
  have x: "40 * of_nat n * of_nat m / of_nat (m * n) = (40 :: rat)" and mn: "0 < m * n"
    using assms by simp_all
  have "?k \<le> 40 * (1 + 1 / 2 ^ 21)" "40 * (1 - 1 / 2 ^ 21) \<le> ?k"
    using ks_shares(1) [OF mn, of m n] ks_shares(2) [OF mn, of n m] unfolding x by blast+
  then have "39 \<le> ?k" "?k < 41"
    by simp_all
  then have "\<lfloor>?k\<rfloor> = 39 \<or> \<lfloor>?k\<rfloor> = 40"
    by linarith
  then show ?thesis
    by (auto simp: shares_def)
qed

text \<open>With 61 servers the rounding of \<open>1 / 61\<close> costs every one of them a hash.\<close>

lemma shares_61:
  assumes "0 < m" "61 * m < 2 ^ 24"
  shows "shares m (m * 61) 61 = 39"
proof -
  have i: "float32 (of_nat m) = of_nat m" "float32 (of_nat (m * 61)) = of_nat (m * 61)" "float32 (of_nat 61) = 61"
    using assms round_to_nat [of m] round_to_nat [of "m * 61"] round_to_nat [of 61] by simp_all
  have q: "of_nat m / of_nat (m * 61) = (1 / 61 :: rat)"
    using assms by simp
  have p: "float32 (1 / 61) = 8801162 / 2 ^ 29"
    using round_to_cert [of "-6" "1 / 61" "1 / 2 ^ 29" 24 8801162] by (simp add: power_int_def field_simps)
  have d: "float64 (8801162 / 2 ^ 29 * 40) = 8801162 * 40 / 2 ^ 29"
    using round_to_cert [of "-1" "8801162 * 40 / 2 ^ 29" "1 / 2 ^ 53" 53 "8801162 * 40 * 2 ^ 24"] by (simp add: power_int_def field_simps)
  have e: "float64 (8801162 * 40 / 2 ^ 29 * 61) = 8801162 * 40 * 61 / 2 ^ 29"
    using round_to_cert [of 5 "8801162 * 40 * 61 / 2 ^ 29" "1 / 2 ^ 47" 53 "8801162 * 40 * 61 * 2 ^ 18"] by (simp add: power_int_def field_simps)
  have f: "float32 (8801162 * 40 * 61 / 2 ^ 29) = 10485759 / 2 ^ 18"
    using round_to_cert [of 5 "8801162 * 40 * 61 / 2 ^ 29" "1 / 2 ^ 18" 24 10485759] by (simp add: power_int_def field_simps)
  have "ks_exact (of_nat m) (of_nat (m * 61)) 61 = 10485759 / 2 ^ 18"
    unfolding ks_exact_def Let_def i q p d e f ..
  then show ?thesis
    unfolding shares_def by (simp only:) (simp add: floor_divide_of_nat_eq [of 10485759 262144, simplified])
qed

end
