(* ===== verification/Ketama_File.thy ===== *)
theory Ketama_File
  imports Ketama_Proofs
begin

text \<open>
  The server file of ketama: what is printed one server to a line is read back, and the last digit of
  the file is lost when its last line has no line break. From there, how many servers are too many.
\<close>

section \<open>Decimal numbers\<close>

definition print_line :: "serverinfo \<Rightarrow> cstring" where
  "print_line s = addr s @ [9] @ dec (unat (memory s)) @ [10]"

definition addr_ok :: "cstring \<Rightarrow> bool" where
  "addr_ok a \<longleftrightarrow> a \<noteq> [] \<and> length a < 22 \<and> list_all (\<lambda>c. c \<noteq> 0 \<and> c \<noteq> 9 \<and> c \<noteq> 10 \<and> c \<noteq> 32) a \<and> hd a \<noteq> 35"

lemma digit_char:
  assumes "n < 10"
  shows "isdigit (of_nat (48 + n))" "unat ((of_nat (48 + n) :: 8 word) - 48) = n"
    "\<not> isspace (of_nat (48 + n))" "\<not> delim (of_nat (48 + n))" "(of_nat (48 + n) :: 8 word) \<noteq> 45" "(of_nat (48 + n) :: 8 word) \<noteq> 43"
    "(of_nat (48 + n) :: 8 word) \<noteq> 0" "(of_nat (48 + n) :: 8 word) \<noteq> 10"
proof -
  have "n \<in> {0, 1, 2, 3, 4, 5, 6, 7, 8, 9}"
    using assms by auto
  then show "isdigit (of_nat (48 + n))" "unat ((of_nat (48 + n) :: 8 word) - 48) = n"
    "\<not> isspace (of_nat (48 + n))" "\<not> delim (of_nat (48 + n))" "(of_nat (48 + n) :: 8 word) \<noteq> 45" "(of_nat (48 + n) :: 8 word) \<noteq> 43"
    "(of_nat (48 + n) :: 8 word) \<noteq> 0" "(of_nat (48 + n) :: 8 word) \<noteq> 10"
    by (auto simp: isdigit_def isspace_def delim_def)
qed

text \<open>What holds of every digit holds of every character of a printed number.\<close>

lemma dec_all: "(\<And>n. n < 10 \<Longrightarrow> P (of_nat (48 + n))) \<Longrightarrow> c \<in> set (dec k) \<Longrightarrow> P c"
proof (induction k rule: dec.induct)
  case (1 k)
  show ?case
    using 1(1) 1(2) [of "k mod 10"] 1(2) [of k] 1(3) 1(2)
    by (subst (asm) (2) dec.simps) (auto split: if_splits)
qed

lemma dec_nonempty [simp]: "dec k \<noteq> []"
  by (subst dec.simps) simp

lemma digits_val_dec: "digits_val (dec k) = k"
proof (induction k rule: dec.induct)
  case (1 k)
  have app: "digits_val (ds @ [c]) = digits_val ds * 10 + unat (c - 48)" for ds c
    by (simp add: digits_val_def)
  show ?case
  proof (cases "k < 10")
    case True
    then show ?thesis
      using digit_char(2) [of k] by (subst dec.simps) (simp add: digits_val_def)
  next
    case False
    then show ?thesis
      using 1 digit_char(2) [of "k mod 10"] by (subst dec.simps) (simp add: app)
  qed
qed

lemma takeWhile_dec: "(\<And>n. n < 10 \<Longrightarrow> P (of_nat (48 + n))) \<Longrightarrow> takeWhile P (dec k) = dec k"
  using dec_all [of P] by (simp add: takeWhile_eq_all_conv)

lemma hd_dec: "(\<And>n. n < 10 \<Longrightarrow> P (of_nat (48 + n))) \<Longrightarrow> P (hd (dec k))"
  using dec_all [of P "hd (dec k)" k] by simp

lemma dropWhile_hd: "xs \<noteq> [] \<Longrightarrow> \<not> P (hd xs) \<Longrightarrow> dropWhile P xs = xs"
  by (cases xs) auto

lemma strtol_dec:
  assumes "k < 2 ^ 63"
  shows "strtol (dec k) = Some (int k)"
proof -
  have d: "dropWhile isspace (dec k) = dec k"
    using hd_dec [of "\<lambda>c. \<not> isspace c" k] digit_char(3) by (intro dropWhile_hd) simp_all
  have h: "hd (dec k) \<noteq> 45" "hd (dec k) \<noteq> 43"
    using hd_dec [of "\<lambda>c. c \<noteq> 45" k] hd_dec [of "\<lambda>c. c \<noteq> 43" k] digit_char(5,6) by simp_all
  have w: "takeWhile isdigit (dec k) = dec k"
    using digit_char(1) by (intro takeWhile_dec) simp
  show ?thesis
    using assms by (simp add: strtol_def Let_def d h w digits_val_dec)
qed

lemma strtol_Nil [simp]: "strtol [] = None"
  by (simp add: strtol_def)

section \<open>A line\<close>

lemma strtok_token:
  assumes "t \<noteq> []" "list_all (\<lambda>c. \<not> delim c) t"
  shows "strtok t = Some (t, [])" "delim c \<Longrightarrow> strtok (t @ c # r) = Some (t, r)"
proof -
  have t: "\<not> delim (hd t)" "takeWhile (\<lambda>c. \<not> delim c) t = t" "dropWhile (\<lambda>c. \<not> delim c) t = []"
    using assms by (auto simp: list_all_iff takeWhile_eq_all_conv dropWhile_eq_Nil_conv)
  then show "strtok t = Some (t, [])"
    using assms(1) by (simp add: strtok_def Let_def dropWhile_hd [of t delim] t(2,3))
  show "strtok (t @ c # r) = Some (t, r)" if "delim c"
    using assms t that dropWhile_hd [of "t @ c # r" delim]
    by (simp add: strtok_def Let_def takeWhile_append2 dropWhile_append2 list_all_iff)
qed

lemma read_server_line_printed:
  assumes "addr_ok a" "dec_end = [10] \<or> dec_end = []" "k < 2 ^ 63"
  shows "read_server_line (a @ [9] @ dec k @ dec_end) = Inr \<lparr>addr = a, memory =
    (if dec_end = [10] then of_nat k else case strtol (butlast (dec k)) of None \<Rightarrow> 0 | Some v \<Rightarrow> of_int v)\<rparr>"
proof -
  have a: "a \<noteq> []" "length a < 22" "list_all (\<lambda>c. \<not> delim c) a"
    using assms(1) by (auto simp: addr_ok_def delim_def list_all_iff)
  have "list_all (\<lambda>c. \<not> delim c) (dec k @ dec_end)"
    using dec_all [of "\<lambda>c. \<not> delim c" _ k] digit_char(4) assms(2) by (auto simp: list_all_iff delim_def)
  then have "strtok (dec k @ dec_end) = Some (dec k @ dec_end, [])"
    by (intro strtok_token) simp_all
  moreover have "strtok (a @ [9] @ dec k @ dec_end) = Some (a, dec k @ dec_end)"
    using strtok_token(2) [OF a(1,3), of 9] by (simp add: delim_def)
  moreover have "length a - 1 < 23"
    using a(2) by simp
  ultimately show ?thesis
    using a(2) assms(2) strtol_dec [OF assms(3)] by (auto simp: read_server_line_def split: option.splits)
qed

lemma fgets_line: "10 \<notin> set l \<Longrightarrow> length l < n \<Longrightarrow> fgets n (l @ 10 # r) = (l @ [10], r, False)"
proof (induction l arbitrary: n)
  case Nil
  then show ?case
    by (cases n) auto
next
  case (Cons c l)
  then show ?case
    by (cases n) auto
qed

lemma fgets_last: "10 \<notin> set l \<Longrightarrow> length l < n \<Longrightarrow> fgets n l = (l, [], True)"
proof (induction l arbitrary: n)
  case Nil
  then show ?case
    by (cases n) auto
next
  case (Cons c l)
  then show ?case
    by (cases n) auto
qed

section \<open>A file\<close>

definition printable :: "serverinfo \<Rightarrow> bool" where
  "printable s \<longleftrightarrow> addr_ok (addr s) \<and> 0 < memory s \<and> unat (memory s) < 2 ^ 63"

lemma line_chars:
  assumes "printable s"
  defines "l \<equiv> addr s @ [9] @ dec (unat (memory s))"
  shows "10 \<notin> set l" "0 \<notin> set l" "length l < 126" "2 \<le> length l" "hd l \<noteq> 35"
proof -
  have a: "addr_ok (addr s)" "unat (memory s) < 2 ^ 63"
    using assms(1) by (simp_all add: printable_def)
  have "10 \<notin> set (dec (unat (memory s)))" "0 \<notin> set (dec (unat (memory s)))"
    using dec_all [of "\<lambda>c. c \<noteq> 10" 10] dec_all [of "\<lambda>c. c \<noteq> 0" 0] digit_char(7,8) by blast+
  then show "10 \<notin> set l" "0 \<notin> set l" "hd l \<noteq> 35"
    using a(1) by (auto simp: l_def addr_ok_def list_all_iff)
  have "unat (memory s) < 10 ^ 19"
    using a(2) by simp
  then have "length (dec (unat (memory s))) \<le> 19"
    by (intro length_dec) simp_all
  then show "length l < 126" "2 \<le> length l"
    using a(1) by (auto simp: l_def addr_ok_def Suc_le_eq)
qed

lemma takeWhile_nonzero: "0 \<notin> set l \<Longrightarrow> takeWhile (\<lambda>c. c \<noteq> 0) l = l"
  by (induction l) auto

lemma readLoop_line:
  assumes "printable s"
  shows "readLoop (print_line s @ d) slist mem = readLoop d (slist @ [s]) (mem + memory s)"
proof -
  define l where "l = addr s @ [9] @ dec (unat (memory s))"
  note c = line_chars [OF assms, folded l_def]
  have p: "print_line s = l @ [10]" and l: "l @ [10] = addr s @ [9] @ dec (unat (memory s)) @ [10]"
    by (simp_all add: print_line_def l_def)
  have f: "fgets 126 (print_line s @ d) = (l @ [10], d, False)"
    using fgets_line [OF c(1,3)] by (simp add: p)
  have t: "takeWhile (\<lambda>c. c \<noteq> 0) (l @ [10]) = l @ [10]"
    using c(2) by (intro takeWhile_nonzero) simp
  have "read_server_line (l @ [10]) = Inr s"
    unfolding l using assms by (subst read_server_line_printed) (auto simp: printable_def)
  moreover have "\<not> (length (l @ [10]) < 2 \<or> hd (l @ [10]) = 35)"
    using c(4,5) by (cases l) auto
  ultimately show ?thesis
    using assms c(5) by (subst readLoop.simps) (auto simp: f t Let_def printable_def addr_ok_def)
qed

lemma readLoop_end: "readLoop [] slist mem = Inr (Some (slist, mem))"
proof -
  have "fgets 126 [] = ([], [], True)"
    by (rule fgets_last) simp_all
  then show ?thesis
    by (subst readLoop.simps) simp
qed

lemma readLoop_lines:
  "list_all printable ss \<Longrightarrow>
   readLoop (concat (map print_line ss) @ d) slist mem = readLoop d (slist @ ss) (mem + sum_list (map memory ss))"
proof (induction ss arbitrary: slist mem)
  case (Cons s ss)
  then show ?case
    using readLoop_line [of s "concat (map print_line ss) @ d"] by (simp add: add.assoc)
qed simp

text \<open>A last line without line break: \<open>butlast\<close> takes a digit.\<close>

lemma butlast_dec: "butlast (dec k) = (if k < 10 then [] else dec (k div 10))"
  by (subst dec.simps) simp

lemma readLoop_last:
  assumes "printable s"
  shows "readLoop (butlast (print_line s)) slist mem =
    (let m = of_nat (unat (memory s) div 10) in
     if m = 0 then Inr None else Inr (Some (slist @ [s\<lparr>memory := m\<rparr>], mem + m)))"
proof -
  let ?k = "unat (memory s)"
  define l where "l = addr s @ [9] @ dec ?k"
  define m :: "64 word" where "m = of_nat (?k div 10)"
  note c = line_chars [OF assms, folded l_def]
  have p: "butlast (print_line s) = l" and l: "l = addr s @ [9] @ dec ?k @ []"
    by (simp_all add: print_line_def l_def butlast_append)
  have f: "fgets 126 (butlast (print_line s)) = (l, [], True)"
    using fgets_last [OF c(1,3)] by (simp add: p)
  have k: "?k < 2 ^ 63" "?k div 10 < 2 ^ 63"
    using assms by (simp_all add: printable_def le_less_trans [OF div_le_dividend])
  have "read_server_line l = Inr \<lparr>addr = addr s, memory = m\<rparr>"
    unfolding l using assms strtol_dec [OF k(2)]
    by (subst read_server_line_printed) (auto simp: printable_def m_def butlast_dec)
  moreover have "m > 0 \<longleftrightarrow> m \<noteq> 0"
    by (simp add: word_neq_0_conv)
  ultimately show ?thesis
    using assms c(4,5) unfolding m_def [symmetric]
    by (subst readLoop.simps) (auto simp: f takeWhile_nonzero [OF c(2)] Let_def printable_def addr_ok_def)
qed

lemma read_printed:
  "list_all printable ss \<Longrightarrow> ss \<noteq> [] \<Longrightarrow> read_server_definitions (Some (concat (map print_line ss)))
     = Inr (Some ss, length ss, sum_list (map memory ss))"
  using readLoop_lines [of ss "[]" "[]" 0] by (simp add: read_server_definitions_def readLoop_end)

text \<open>
  C24. A server file written one server to a line is read back exactly: the servers in their order, their
  number and the sum of their memory. Without the line break at its end the file still reads, but
  the last server has lost the last digit of its memory, and a last server with one digit makes the
  whole file invalid.
\<close>

theorem ketama_file_roundtrip:
  assumes "list_all printable ss" "printable s"
  shows "read_server_definitions (Some (concat (map print_line (ss @ [s]))))
      = Inr (Some (ss @ [s]), length (ss @ [s]), sum_list (map memory (ss @ [s]))) \<and>
    read_server_definitions (Some (butlast (concat (map print_line (ss @ [s])))))
      = (let m = of_nat (unat (memory s) div 10) in
         if m = 0 then Inr (None, 1, 0)
         else Inr (Some (ss @ [s\<lparr>memory := m\<rparr>]), length ss + 1, sum_list (map memory ss) + m))"
proof
  show "read_server_definitions (Some (concat (map print_line (ss @ [s]))))
      = Inr (Some (ss @ [s]), length (ss @ [s]), sum_list (map memory (ss @ [s])))"
    using assms by (intro read_printed) simp_all
  have "print_line s \<noteq> []"
    by (simp add: print_line_def)
  then have b: "butlast (concat (map print_line (ss @ [s]))) = concat (map print_line ss) @ butlast (print_line s)"
    by (simp add: butlast_append)
  show "read_server_definitions (Some (butlast (concat (map print_line (ss @ [s])))))
      = (let m = of_nat (unat (memory s) div 10) in
         if m = 0 then Inr (None, 1, 0)
         else Inr (Some (ss @ [s\<lparr>memory := m\<rparr>]), length ss + 1, sum_list (map memory ss) + m))"
    unfolding b using readLoop_lines [OF assms(1)] readLoop_last [OF assms(2)]
    by (simp add: read_server_definitions_def Let_def)
qed

text \<open>A server at the address \<open>a:1\<close>.\<close>

definition demo_server :: "nat \<Rightarrow> serverinfo" where
  "demo_server k = \<lparr>addr = [97, 58, 49], memory = of_nat k\<rparr>"

lemma demo_server_ok: "0 < k \<Longrightarrow> k < 2 ^ 63 \<Longrightarrow> printable (demo_server k)" "unat (memory (demo_server k)) = k mod 2 ^ 64"
  by (simp_all add: printable_def demo_server_def addr_ok_def unat_of_nat word_less_nat_alt take_bit_eq_mod)

theorem ketama_file_roundtrip_witness:
  "read_server_definitions (Some (concat (map print_line [demo_server 600, demo_server 64])))
     = Inr (Some [demo_server 600, demo_server 64], 2, 664) \<and>
   read_server_definitions (Some (butlast (concat (map print_line [demo_server 600, demo_server 64]))))
     = Inr (Some [demo_server 600, demo_server 6], 2, 606)"
  using ketama_file_roundtrip [of "[demo_server 600]" "demo_server 64"] demo_server_ok(1) [of 600] demo_server_ok(1) [of 64]
  by (simp add: demo_server_def Let_def)

section \<open>How many servers\<close>

text \<open>
  C39. Servers of equal memory, less than \<open>2 ^ 64\<close> in all, do not always get the 160 points each that a comment promises: the number of
  their hashes is computed in floating point and is 40 or 39, and it is 39 for 61 servers whose memories
  add up to less than \<open>2 ^ 24\<close>. From 121
  servers on the points no longer fit the shared memory and are written behind it.
\<close>

theorem ketama_equal_servers:
  assumes read: "read_server_definitions file = Inr (Some slist, n, mem)"
    and equal: "\<forall>s\<in>set slist. memory s = w" and sum: "unat w * n < 2 ^ 64"
  shows "hashes_of w mem n \<in> {Inr 39, Inr 40} \<and>
    (n = 61 \<and> unat w * 61 < 2 ^ 24 \<longrightarrow> hashes_of w mem n = Inr 39) \<and>
    (121 \<le> n \<longrightarrow> ketama_create_continuum qsort True t file = Inl Overrun)"
proof -
  note r = read_server_definitions_ok [OF read]
  have n: "0 < n"
    using r(1,2) by simp
  have w: "0 < w"
    using r(2,3) equal by (cases slist) (auto simp: server_ok_def)
  have rep: "map memory slist = replicate n w"
    using equal by (simp add: r(1) map_replicate_const [symmetric] cong: map_cong)
  then have u: "unat mem = unat w * n"
    using unat_sum_list [of "replicate n w"] sum r(4) by (simp add: sum_list_replicate mult.commute)
  have w0: "0 < unat w"
    using w by (simp add: word_less_nat_alt)
  then have m: "0 < mem"
    using n by (simp add: word_less_nat_alt u)
  have sh: "shares (unat w) (unat mem) n \<in> {39, 40}"
    unfolding u by (rule shares_equal [OF w0 n])
  then have h: "hashes_of w mem n = Inr (shares (unat w) (unat mem) n)"
    using m by (intro hashes_of_shares) auto
  have "hashes_of w mem n = Inr 39" if "n = 61" "unat w * 61 < 2 ^ 24"
    using h shares_61 [OF w0] that u by (simp add: mult.commute)
  moreover have "ketama_create_continuum qsort True t file = Inl Overrun" if big: "121 \<le> n"
  proof -
    let ?ps = "concat (map (points_of mem n) slist)"
    have "all_points mem n slist = Inr ?ps"
      using r(3) sh m equal by (intro all_points_ok) (auto simp: list_all_iff server_ok_def intro!: server_points_ok)
    moreover have l: "length ?ps = n * (4 * shares (unat w) (unat mem) n)"
      using equal r(1) by (simp add: length_concat comp_def length_points_of cong: map_cong) (simp add: sum_list_triv)
    have "156 \<le> 4 * shares (unat w) (unat mem) n" "4 * shares (unat w) (unat mem) n \<le> 160"
      using sh by auto
    then have "121 * 156 \<le> length ?ps" "length ?ps \<le> n * 160"
      unfolding l using big by (intro mult_le_mono; simp)+
    ultimately show ?thesis
      using big by (simp add: ketama_create_continuum_def read MC_SHMSIZE_def)
  qed
  ultimately show ?thesis
    using h sh by auto
qed

theorem ketama_equal_servers_witness:
  "ketama_create_continuum (\<lambda>_. sort_key point) True 0 (Some (concat (map print_line (replicate 121 (demo_server 64))))) = Inl Overrun \<and>
   hashes_of 64 (61 * 64) 61 = Inr 39"
proof -
  have p: "printable (demo_server 64)"
    by (rule demo_server_ok) simp_all
  have "read_server_definitions (Some (concat (map print_line (replicate k (demo_server 64)))))
      = Inr (Some (replicate k (demo_server 64)), k, of_nat k * 64)" if "0 < k" for k
    using read_printed [of "replicate k (demo_server 64)"] p that
    by (simp add: list_all_iff sum_list_replicate demo_server_def)
  from ketama_equal_servers [OF this, of 121 64] ketama_equal_servers [OF this, of 61 64] show ?thesis
    by (simp add: demo_server_def)
qed

section \<open>Attaching\<close>

lemma create_modtime: "ketama_create_continuum qsort ok t file = Inr (Some c) \<Longrightarrow> modtime c = t"
  by (auto simp: ketama_create_continuum_def split: sum.splits prod.splits option.splits if_splits)

lemma rollLoop_newer:
  assumes "ketama_create_continuum qsort True t' file = Inr (Some c)" "t' \<noteq> t"
  shows "\<forall>s. seg = Some s \<longrightarrow> modtime s \<noteq> t \<Longrightarrow> rollLoop qsort t loaded seg (replicate k (file, t', True)) = Inr None"
proof (induction k arbitrary: loaded seg)
  case (Suc k)
  then show ?case
    using assms create_modtime [OF assms(1)] by (cases seg) auto
qed simp

text \<open>
  C29. \<open>ketama_roll\<close> ends if the server file is not changed while it runs: after at most two turns of its loop
  it has failed or returns a continuum built from the file as it is, whatever old continuum the shared
  memory holds. If the file is changed after its time was first read, so that every build sees another
  time, it depends on the shared memory: a segment with the time first read ends the loop at its first turn;
  without a segment, or with one of any other time, the loop never ends: no number of turns is enough, and
  all but the first rebuild the continuum.
\<close>

theorem ketama_roll_ends:
  assumes create: "ketama_create_continuum qsort True t file = Inr r"
    and newer: "t' \<noteq> t" "ketama_create_continuum qsort True t' file' = Inr (Some c')"
  shows "(\<exists>c. ketama_roll qsort ftok_ok t seg ((file, t, True) # (file, t, True) # turns) = Inr (Some c) \<and>
      (case c of None \<Rightarrow> True | Some s \<Rightarrow> modtime s = t \<and> (seg = Some s \<or> r = Some s))) \<and>
    (case seg of
       Some s \<Rightarrow> if modtime s = t then ketama_roll qsort True t seg ((file', t', True) # turns) = Inr (Some (Some s))
                 else ketama_roll qsort True t seg (replicate k (file', t', True)) = Inr None
     | None \<Rightarrow> ketama_roll qsort True t seg (replicate k (file', t', True)) = Inr None)"
proof
  show "\<exists>c. ketama_roll qsort ftok_ok t seg ((file, t, True) # (file, t, True) # turns) = Inr (Some c) \<and>
      (case c of None \<Rightarrow> True | Some s \<Rightarrow> modtime s = t \<and> (seg = Some s \<or> r = Some s))"
    using create create_modtime by (cases seg; cases r) (auto simp: ketama_roll_def)
  show "case seg of
       Some s \<Rightarrow> if modtime s = t then ketama_roll qsort True t seg ((file', t', True) # turns) = Inr (Some (Some s))
                 else ketama_roll qsort True t seg (replicate k (file', t', True)) = Inr None
     | None \<Rightarrow> ketama_roll qsort True t seg (replicate k (file', t', True)) = Inr None"
    using rollLoop_newer [OF newer(2,1), of seg False k] by (cases seg) (simp_all add: ketama_roll_def)
qed

lemma demo_file:
  "read_server_definitions (Some (concat (map print_line [demo_server 600, demo_server 64])))
     = Inr (Some [demo_server 600, demo_server 64], 2, 664)"
  using read_printed [of "[demo_server 600, demo_server 64]"] demo_server_ok(1) [of 600] demo_server_ok(1) [of 64]
  by (simp add: demo_server_def)

lemma demo_continuum:
  "\<exists>c. ketama_create_continuum (\<lambda>_. sort_key point) True t (Some (concat (map print_line [demo_server 600, demo_server 64]))) = Inr (Some c)"
  using continuum_built [OF demo_file, of "\<lambda>_. sort_key point" t] by (auto simp: demo_server_def compare_sorted)

theorem ketama_continuum_fits_witness:
  "\<exists>c. ketama_create_continuum (\<lambda>_. sort_key point) True 7 (Some (concat (map print_line [demo_server 600, demo_server 64]))) = Inr (Some c)
     \<and> sorted (map point (points c)) \<and> length (points c) \<le> 320"
  using ketama_continuum_fits [OF demo_file, of "\<lambda>_. sort_key point" 7] by (auto simp: demo_server_def compare_sorted)

theorem ketama_roll_ends_witness:
  "let file = Some (concat (map print_line [demo_server 600, demo_server 64])) in
     (\<exists>c. ketama_roll (\<lambda>_. sort_key point) True 7 None [(file, 7, True), (file, 7, True)] = Inr (Some c)) \<and>
     ketama_roll (\<lambda>_. sort_key point) True 7 None (replicate 1000 (file, 8, True)) = Inr None"
proof -
  obtain c c' where "ketama_create_continuum (\<lambda>_. sort_key point) True 7
        (Some (concat (map print_line [demo_server 600, demo_server 64]))) = Inr (Some c)"
      "ketama_create_continuum (\<lambda>_. sort_key point) True 8
        (Some (concat (map print_line [demo_server 600, demo_server 64]))) = Inr (Some c')"
    using demo_continuum by blast
  from ketama_roll_ends [OF this(1) _ this(2), of True None "[]" 1000] show ?thesis
    by (auto simp: Let_def)
qed

end
