(* ===== verification/Spec2Isabelle.thy ===== *)
theory Spec2Isabelle
  imports Blog Python_Client Nonblocking_Safety Thrift_RPC Memcached_Map Ketama_File
begin

text \<open>
  A verification of the replicated LRU cache in \<open>src/prototype\<close>, of the parts of Thrift it runs on, of
  the blog in \<open>src/SimpleBlog\<close> that uses it, and of the hashing libraries of memcached and ketama that
  are kept beside it for comparison.

  \<^bold>\<open>The program.\<close> A view service (\<open>view.cpp\<close>) keeps the list of cache servers and a ring that assigns
  each position of the hash space to the replicas at the next site. A cache server (\<open>server.cpp\<close>)
  registers, pings the service, and serves \<open>get\<close> and \<open>put\<close> for the keys it owns in the view it has last
  seen; it purges keys it no longer owns and exchanges the keys changed since the last round with the other
  replicas of its site. A client (\<open>client.h\<close>, \<open>client.py\<close>, \<open>CacheClient.java\<close>) caches a view, picks a
  replica of the key's site, and fetches a new view when a request is refused. All of them hash keys
  and search the ring on their own (\<open>ConsistentHashing.h\<close> and its ports), so the ports must agree.
  Requests are written with \<open>TBinaryProtocol\<close> and travel through \<open>TFramedTransport\<close> to a \<open>TNonblockingServer\<close>.

  \<^bold>\<open>Theories and code.\<close>
  \<^item> \<open>Prelude\<close>: the result type and its exceptions, 32-bit words, list lemmas. \<open>Std_Containers\<close>:
    \<open>std::map\<close> and \<open>std::set\<close> as sorted lists behind the interface \<open>ordered_map\<close>. \<open>Float_Rounding\<close>: \<open>float\<close> and
    \<open>double\<close> rounding with error bounds.
  \<^item> \<open>Cache_Types\<close>: the structs of \<open>cache.thrift\<close>. \<open>Consistent_Hashing\<close>: \<open>ir_hash\<close> and \<open>getServer\<close> of
    \<open>ConsistentHashing.h\<close>. \<open>Version_Vector\<close>: the version functions of \<open>server.cpp\<close>, an interpretation of
    \<open>version_order\<close>.
  \<^item> \<open>Hash_Table\<close>: the storage of \<open>server.cpp\<close> (\<open>getPosition\<close>, \<open>addEntry\<close>, \<open>removeEntry\<close>, \<open>accessEntry\<close>,
    \<open>normalizeTable\<close>, \<open>rehash\<close>), slot by slot and link by link. \<open>Hash_Table_Links\<close>, \<open>Hash_Table_Inv\<close>,
    \<open>Hash_Table_Ops\<close> and \<open>Hash_Table_Rehash\<close> hold its proofs; \<open>LRU_Cache\<close> the abstract cache, a list of
    entries by last use, the interface \<open>recency_store\<close> and its interpretation on the table.
  \<^item> \<open>KV_Server\<close>: the handlers and threads of \<open>server.cpp\<close>. \<open>KV_Storage_Proofs\<close>, \<open>KV_Handlers\<close> and
    \<open>KV_Anti_Entropy\<close> hold their proofs; \<open>KV_Runs\<close> the step relation \<open>kv_step\<close> of a server, one step for each
    handler or critical section (a change of the view can be one step, or two with others between the installation
    of the view and the purge), and the contract \<open>kv_handler\<close> every handler is shown to satisfy;
    \<open>KV_Spec\<close> the properties.
  \<^item> \<open>View_Service\<close>, \<open>View_Spec\<close>: \<open>view.cpp\<close>, with the checking thread cut at its critical sections so that
    registrations fall between its scan and its rebuild (\<open>vs_step\<close>), and the contract \<open>view_provider\<close>.
  \<^item> \<open>Cache_Client\<close>: \<open>client.h\<close>, \<open>console.cpp\<close>, \<open>stress.cpp\<close>, \<open>monitor.cpp\<close>. \<open>Java_Client\<close>: the Java client,
    \<open>getPosts\<close> of \<open>HTTPServer.java\<close> and the choice of server in \<open>JavaClient.java\<close>. \<open>Python_Client\<close>: \<open>client.py\<close>.
  \<^item> \<open>Cluster\<close>, \<open>Blog\<close>: the parts composed. What a client needs of a server is the interface \<open>kv_service\<close>;
    it is interpreted on the server's \<open>put\<close> and \<open>get\<close>, and the client's theorems hold for the cluster.
  \<^item> \<open>Thrift_Transport\<close>: \<open>TBufferTransports.h\<close> and \<open>.cpp\<close>; \<open>Thrift_Streams\<close> the interfaces \<open>byte_writer\<close>
    and \<open>byte_reader\<close>; \<open>Thrift_Buffers\<close>, \<open>Thrift_Framing\<close> and \<open>Thrift_Memory\<close> their interpretations.
  \<^item> \<open>Thrift_Binary\<close>: \<open>TBinaryProtocol.tcc\<close> and \<open>skip\<close> of \<open>TProtocol.h\<close>. \<open>Thrift_Wire\<close>: what the protocol needs of
    a transport, \<open>wire_transport\<close>, interpreted on the framed transport and the memory buffer; \<open>Thrift_Messages\<close>: the
    wire format; \<open>Thrift_RPC\<close>: messages over framed transports.
  \<^item> \<open>Nonblocking_Server\<close>, \<open>Nonblocking_Proofs\<close>, \<open>Nonblocking_Safety\<close>: \<open>TNonblockingServer.h\<close> and \<open>.cpp\<close>.
  \<^item> \<open>Memcached_Hash\<close>: \<open>hash.c\<close>. \<open>Memcached_Assoc\<close>, \<open>Memcached_Assoc_Proofs\<close>, \<open>Memcached_Map\<close>: \<open>assoc.c\<close>
    behind the interface \<open>item_map\<close>.
  \<^item> \<open>MD5\<close>: \<open>md5.c\<close>. \<open>Ketama\<close>, \<open>Ketama_Proofs\<close>, \<open>Ketama_File\<close>: \<open>ketama.c\<close>.

  \<^bold>\<open>What is shown.\<close>
  \<^item> Storage: the table refines the list of entries by last use on every operation; probing ends, eviction
    brings the size under the limit, rehashing keeps content and order.
  \<^item> Server: in every reachable state the invariant holds and no handler fails an assertion, leaves
    the table, divides by zero or loops; accepted requests act on the abstract cache as they
    should; what an undisturbed exchange makes of a key at both replicas is exact, and they agree on its value unless the sender's
    version is dominated by another value, when they do after an exchange in the other direction. Three lemmas state what goes wrong: the purge
    that stops early, the mutex left locked, the merge that loses an update.
  \<^item> Views: replies with one number are equal, whatever happened between them; dead servers leave the view.
  \<^item> Cluster: a value put by a client that has the server's view is what the client gets; a page
    of the blog is read from the cache once it was stored and while the calls go to the same replica. The Java client routes every key of 7-bit characters as the
    servers do; for the Python client the keys it misroutes are characterised.
  \<^item> Thrift: what is written through a framed transport is read at the other end, however the network cuts it;
    a message of the binary protocol is received as sent; \<open>skip\<close> passes over exactly one value and ends on any input; a wrong
    version is refused; a memory buffer is a queue; every call of a framed client is answered by the nonblocking server; a socket
    event never leaves the buffers, with the one exception of the empty frame; the pool of connections
    accounts for every object.
  \<^item> Memcached: the three ways to read a key give one hash; the table is a map before, during
    and after a growth, and a growth ends, as long as the power of its size is at most 31; \<open>move_item_negative\<close> and
    \<open>growth_never_ends\<close> show what the index \<open>int bucket\<close> and the 32-bit \<open>expand_bucket\<close> do beyond.
  \<^item> Ketama: the digest does not depend on how the input is cut into pieces that fit an \<open>int\<close>; the lookup is the successor query; the
    continuum fits its arrays for up to 117 servers and overruns them from 121 equal ones; the server file is read back as
    written.

  \<^bold>\<open>Conventions.\<close> An assertion, an index out of range, a use of a freed object, an uncaught exception and a lock
  that is never free are values of an error type; the state at the time of an exception is kept, with the mutexes still locked.
  A shift by 64 or more and the overflow of a signed addition are undefined, and errors too (\<open>None\<close> in \<open>md5_append\<close>).
  Numbers that wrap in the code are words or carry the reduction modulo a power of two; lengths and buckets passed as \<open>int\<close> are converted. Positions and links
  of the table are integers with \<open>-1\<close> for none. Counters of requests and bytes, and view numbers, are unbounded.

  Clock readings, random numbers, results of remote calls, serialization, the request processor generated by Thrift, the
  sorting function \<open>qsort\<close>, which is given \<open>ketama_compare\<close>, the outcome of \<open>ThreadManager::add\<close>, memory that \<open>calloc\<close> does not get, and how a socket cuts its stream are arguments. The argument
  \<open>links_kept\<close> says whether an iterator into an erased map node still leads on, which C++ leaves undefined;
  the theorems hold for both values unless they name one. Likewise \<open>erased\<close> says whether the element a round of anti-entropy
  works on was erased during the remote call, even if one for the same replica has been inserted since.

  \<^bold>\<open>Loops.\<close> Probing is given as many steps as the table has slots, after which it would visit them again; the walk of the list and
  the purge get one step for each slot, and the invariant shows the list is no longer. Running out is the
  error \<open>Diverges\<close>, which reachable states are shown not to produce. The growth of a memory
  buffer gets 66 doublings; from then on its sizes repeat (\<open>growLoop_exact\<close>). \<open>skip\<close> is given two levels more than
  there are bytes, and more changes nothing. The rebuilding of ketama's continuum in shared memory
  is given any number of rounds. All other loops are recursive functions with a termination proof. A run of the nonblocking server
  (\<open>nb_run\<close>) is a number of socket events, and the theorems say that some number suffices.

  \<^bold>\<open>Not modelled.\<close> Programs' \<open>main\<close>, console output, and opening connections (\<open>ServerConnection\<close>): pure I/O. HTML and HTTP of the blog,
  its test data and load generators. The stubs Thrift generates, which are not in the repository, and the rest of the
  Thrift library: threads, sockets, the other transports and protocols, and languages; of the nonblocking server the tasks of the thread
  pool, the listening socket and the start of the IO threads, which only call libevent and the operating system. The Thrift compiler.
  The rest of memcached, and the language bindings of ketama, which pass their arguments on; ketama's semaphore and error texts.
\<close>

end
